(* ===== verification/Wcp_Prelude.thy ===== *)
theory Wcp_Prelude
  imports Main "HOL-Library.Word"
begin

text \<open>
  Shared ground of the development: the machine integer types of the C and C++ sources, the
  \<open>errno\<close> values the code compares with, the outcome type that carries a failed assertion
  of \<open>src/Assert.hpp\<close>, and the word and list lemmas that the ring, slab and chunk
  components use. The collections \<open>ring_simps\<close> and \<open>outcome_simps\<close> carry the
  component proofs.
\<close>

unbundle bit_operations_syntax

named_theorems ring_simps \<open>rewrite rules for ring counters and slots\<close>
named_theorems outcome_simps \<open>rewrite rules for sequencing of fallible steps\<close>

section \<open>Machine integers\<close>

type_synonym u8 = "8 word"
type_synonym u16 = "16 word"
type_synonym u32 = "32 word"
type_synonym u64 = "64 word"

text \<open>
  A signed C value (\<open>int\<close>, \<open>__s32\<close>, \<open>off_t\<close>) is an \<open>int\<close>; where a source line
  converts it to an unsigned type the conversion is written as \<open>word_of_int\<close>, and where an
  unsigned value is read as signed it is written as \<open>sint\<close>.
\<close>

section \<open>Linux error numbers\<close>

abbreviation (input) ENOENT :: int where "ENOENT \<equiv> 2"
abbreviation (input) EINTR :: int where "EINTR \<equiv> 4"
abbreviation (input) EAGAIN :: int where "EAGAIN \<equiv> 11"
abbreviation (input) EEXIST :: int where "EEXIST \<equiv> 17"
abbreviation (input) EINVAL :: int where "EINVAL \<equiv> 22"
abbreviation (input) EOPNOTSUPP :: int where "EOPNOTSUPP \<equiv> 95"
abbreviation (input) ECANCELED :: int where "ECANCELED \<equiv> 125"

section \<open>Outcomes and assertions\<close>

text \<open>
  \<open>release_assert\<close> prints its condition and aborts the process; \<open>debug_assert\<close> is the
  same in a debug build and is compiled away with \<open>NDEBUG\<close>. A step that may abort returns
  an outcome: \<open>Inl (AssertionFailed cond)\<close>, or \<open>Inr\<close> of its result. The first argument of
  \<open>debug_assert\<close> is the build flag (\<open>True\<close> for a build with \<open>NDEBUG\<close>). An access
  that has no defined meaning in C++ (an index out of range, an object that was deleted, a division
  by zero) is \<open>Inl (UndefinedBehaviour what)\<close>, and a loop that never ends, whose model is the
  value \<open>None\<close> of an option, is \<open>Inl (Diverges what)\<close>, so that a proof that a step returns
  \<open>Inr\<close> shows that the step makes no such access and ends.
\<close>

datatype abort = AssertionFailed string | UndefinedBehaviour string | Diverges string

type_synonym 'a outcome = "abort + 'a"

definition release_assert :: "string \<Rightarrow> bool \<Rightarrow> 'a outcome \<Rightarrow> 'a outcome" where
  "release_assert label cond k = (if cond then k else Inl (AssertionFailed label))"

definition debug_assert :: "bool \<Rightarrow> string \<Rightarrow> bool \<Rightarrow> 'a outcome \<Rightarrow> 'a outcome" where
  "debug_assert ndebug label cond k = (if ndebug then k else release_assert label cond k)"

definition defined_if :: "string \<Rightarrow> bool \<Rightarrow> 'a outcome \<Rightarrow> 'a outcome" where
  "defined_if what cond k = (if cond then k else Inl (UndefinedBehaviour what))"

lemma defined_if_True [simp, outcome_simps]: "defined_if l True k = k"
  by (simp add: defined_if_def)

lemma defined_if_Inr [outcome_simps]: "defined_if l c k = Inr r \<longleftrightarrow> c \<and> k = Inr r"
  by (simp add: defined_if_def)

lemma release_assert_True [simp, outcome_simps]: "release_assert l True k = k"
  by (simp add: release_assert_def)

lemma debug_assert_True [simp, outcome_simps]: "debug_assert nd l True k = k"
  by (simp add: debug_assert_def)

lemma debug_assert_ndebug [simp, outcome_simps]: "debug_assert True l c k = k"
  by (simp add: debug_assert_def)

lemma release_assert_Inr [outcome_simps]:
  "release_assert l c k = Inr r \<longleftrightarrow> c \<and> k = Inr r"
  by (simp add: release_assert_def)

lemma debug_assert_Inr [outcome_simps]:
  "debug_assert nd l c k = Inr r \<longleftrightarrow> (nd \<or> c) \<and> k = Inr r"
  by (simp add: debug_assert_def release_assert_def)

definition returned :: "string \<Rightarrow> 'a option \<Rightarrow> 'a outcome" where
  "returned what r = (case r of None \<Rightarrow> Inl (Diverges what) | Some x \<Rightarrow> Inr x)"

definition object :: "string \<Rightarrow> ('k \<rightharpoonup> 'v) \<Rightarrow> 'k \<Rightarrow> 'v outcome" where
  "object what store p = (case store p of None \<Rightarrow> Inl (UndefinedBehaviour what) | Some v \<Rightarrow> Inr v)"

lemma returned_Some [simp, outcome_simps]: "returned l (Some x) = Inr x"
  by (simp add: returned_def)

lemma object_Some [simp]: "store p = Some v \<Longrightarrow> object l store p = Inr v"
  by (simp add: object_def)

lemma object_Inr [outcome_simps]: "object l store p = Inr v \<longleftrightarrow> store p = Some v"
  by (simp add: object_def split: option.splits)

lemma returned_Inr [outcome_simps]: "returned l r = Inr v \<longleftrightarrow> r = Some v"
  by (simp add: returned_def split: option.splits)

text \<open>Sequencing of outcomes: an abort ends the computation.\<close>

fun and_then :: "'a outcome \<Rightarrow> ('a \<Rightarrow> 'b outcome) \<Rightarrow> 'b outcome" where
  "and_then (Inl a) f = Inl a"
| "and_then (Inr x) f = f x"

lemma and_then_Inr [outcome_simps]: "and_then m f = Inr r \<longleftrightarrow> (\<exists>x. m = Inr x \<and> f x = Inr r)"
  by (cases m) auto

section \<open>Lemmas on words\<close>

lemma unat_power_two: "n < LENGTH('a) \<Longrightarrow> unat ((2::'a::len word) ^ n) = 2 ^ n"
proof -
  assume n: "n < LENGTH('a)"
  have "unat (of_nat (2 ^ n) :: 'a word) = 2 ^ n"
    using n by (simp add: unat_of_nat del: of_nat_power)
  then show ?thesis by simp
qed

lemma unat_u32_bound: "unat (x :: u32) < 2 ^ 32"
proof -
  have "unat x < 2 ^ LENGTH(32)" by (rule unsigned_less)
  then show ?thesis by simp
qed

lemma unat_u64_bound: "unat (x :: u64) < 2 ^ 64"
proof -
  have "unat x < 2 ^ LENGTH(64)" by (rule unsigned_less)
  then show ?thesis by simp
qed

lemma unat_of_nat_u64: "n < 2 ^ 64 \<Longrightarrow> unat (of_nat n :: u64) = n"
  by (simp add: unat_of_nat)

end
