(* ===== verification/Ring_Index.thy ===== *)
theory Ring_Index
  imports Wcp_Prelude
begin

text \<open>
  Free-running 32-bit counters over a power-of-two ring, as both liburing queues use them: a
  counter is never reduced, its slot is \<open>counter & mask\<close>, and the distance of two counters is
  their wrapping difference. The lemmas reduce slots to arithmetic modulo the ring size,
  across the wrap-around at \<open>2 ^ 32\<close>, and give the window \<open>ring_list\<close> of a ring as a list
  with the laws of a FIFO queue at its two ends.
\<close>

definition slot :: "u32 \<Rightarrow> u32 \<Rightarrow> nat" where
  "slot m i = unat (i AND m)"

definition ring_size :: "nat \<Rightarrow> u32 \<Rightarrow> u32 \<Rightarrow> bool" where
  "ring_size n entries m \<longleftrightarrow> n < 32 \<and> entries = 2 ^ n \<and> m = mask n"

definition ring_list :: "'a list \<Rightarrow> u32 \<Rightarrow> u32 \<Rightarrow> nat \<Rightarrow> 'a list" where
  "ring_list xs m h k = map (\<lambda>i. xs ! slot m (h + of_nat i)) [0..<k]"

lemma ring_size_unat [ring_simps]: "ring_size n e m \<Longrightarrow> unat e = 2 ^ n"
  by (auto simp: ring_size_def unat_power_two)

lemma slot_mod: "ring_size n e m \<Longrightarrow> slot m i = unat i mod 2 ^ n"
  by (simp add: ring_size_def slot_def unsigned_take_bit_eq flip: take_bit_eq_mask)
    (simp add: take_bit_eq_mod)

lemma slot_less: "ring_size n e m \<Longrightarrow> slot m i < 2 ^ n"
  by (simp add: slot_mod)

lemma slot_add: "ring_size n e m \<Longrightarrow> slot m (h + of_nat k) = (unat h + k) mod 2 ^ n"
proof -
  assume r: "ring_size n e m"
  then have dvd: "(2::nat) ^ n dvd 2 ^ 32"
    by (intro le_imp_power_dvd) (simp add: ring_size_def)
  have "unat (h + of_nat k) = (unat h + k) mod 2 ^ 32"
    by (simp add: unat_word_ariths unat_of_nat mod_simps)
  then show ?thesis
    using dvd by (simp add: slot_mod [OF r] mod_mod_cancel)
qed

lemma mod_add_inj:
  fixes a i j q :: nat
  assumes "(a + i) mod q = (a + j) mod q" "i \<le> j" "j < q"
  shows "i = j"
proof -
  have "q dvd (a + j) - (a + i)"
    using assms(1,2) by (subst mod_eq_dvd_iff_nat [symmetric]) auto
  then have "q dvd j - i" by simp
  with assms show ?thesis by (auto dest: dvd_imp_le)
qed

lemma slot_inj:
  assumes "ring_size n e m" "i < 2 ^ n" "j < 2 ^ n"
    and "slot m (h + of_nat i) = slot m (h + of_nat j)"
  shows "i = j"
proof -
  have eq: "(unat h + i) mod 2 ^ n = (unat h + j) mod 2 ^ n"
    using assms by (simp add: slot_add)
  show ?thesis
    using mod_add_inj [OF eq] mod_add_inj [OF eq [symmetric]] assms(2,3) by (cases "i \<le> j") auto
qed

lemma ring_list_length [simp]: "length (ring_list xs m h k) = k"
  by (simp add: ring_list_def)

lemma ring_list_nth [simp]: "i < k \<Longrightarrow> ring_list xs m h k ! i = xs ! slot m (h + of_nat i)"
  by (simp add: ring_list_def)

lemma ring_list_0 [simp]: "ring_list xs m h 0 = []"
  by (simp add: ring_list_def)

lemma ring_list_snoc: "ring_list xs m h (Suc k) = ring_list xs m h k @ [xs ! slot m (h + of_nat k)]"
  by (simp add: ring_list_def)

lemma ring_list_Cons: "ring_list xs m h (Suc k) = xs ! slot m h # ring_list xs m (h + 1) k"
proof (rule nth_equalityI)
  fix i assume "i < length (ring_list xs m h (Suc k))"
  then show "ring_list xs m h (Suc k) ! i = (xs ! slot m h # ring_list xs m (h + 1) k) ! i"
    by (cases i) (simp_all add: algebra_simps)
qed simp

lemma ring_list_update_other:
  assumes "ring_size n e m" "k \<le> j" "j < 2 ^ n"
  shows "ring_list (xs[slot m (h + of_nat j) := v]) m h k = ring_list xs m h k"
proof (rule nth_equalityI)
  fix i assume "i < length (ring_list (xs[slot m (h + of_nat j) := v]) m h k)"
  then have "i < k" by simp
  moreover have "slot m (h + of_nat j) \<noteq> slot m (h + of_nat i)"
    using slot_inj [OF assms(1), of j i h] assms \<open>i < k\<close> by auto
  ultimately show "ring_list (xs[slot m (h + of_nat j) := v]) m h k ! i = ring_list xs m h k ! i"
    by simp
qed simp

text \<open>Storing a value in the slot after the window and extending the window appends it.\<close>

lemma ring_list_push:
  assumes "ring_size n e m" "k < 2 ^ n" "length xs = 2 ^ n"
  shows "ring_list (xs[slot m (h + of_nat k) := v]) m h (Suc k) = ring_list xs m h k @ [v]"
  using assms slot_less [OF assms(1)] ring_list_update_other [OF assms(1), of k k xs h v]
  by (simp add: ring_list_snoc)

lemma ring_list_pop: "0 < k \<Longrightarrow> ring_list xs m (h + 1) (k - 1) = tl (ring_list xs m h k)"
  by (cases k) (simp_all add: ring_list_Cons)

lemma ring_list_hd: "0 < k \<Longrightarrow> hd (ring_list xs m h k) = xs ! slot m h"
  by (cases k) (simp_all add: ring_list_Cons)

lemma ring_list_drop: "j \<le> k \<Longrightarrow> ring_list xs m (h + of_nat j) (k - j) = drop j (ring_list xs m h k)"
  by (rule nth_equalityI) (auto simp: algebra_simps)

lemma ring_indices_drop:
  "map (\<lambda>i. (h + of_nat j + of_nat i :: u32) AND m) [0..<k - j] = drop j (map (\<lambda>i. (h + of_nat i) AND m) [0..<k])"
  by (rule nth_equalityI) (auto simp: algebra_simps)

section \<open>Wrapping distances\<close>

text \<open>
  \<open>head\<close> and \<open>tail\<close> of a queue are \<open>tail = head + k\<close> for the number \<open>k\<close> of queued
  entries; the wrapping difference of the counters recovers \<open>k\<close>.
\<close>

lemma dist_Suc: "unat (t - h :: u32) + 1 < 2 ^ 32 \<Longrightarrow> unat (t + 1 - h) = Suc (unat (t - h))"
proof -
  assume a: "unat (t - h :: u32) + 1 < 2 ^ 32"
  have "t + 1 - h = (t - h) + 1" by simp
  then show ?thesis using a by (simp only: unat_word_ariths) simp
qed

lemma dist_advance: "unat n \<le> unat (t - h :: u32) \<Longrightarrow> unat (t - (h + n)) = unat (t - h) - unat n"
proof -
  assume a: "unat n \<le> unat (t - h :: u32)"
  have "t - (h + n) = (t - h) - n" by simp
  then show ?thesis using a by (simp only: unat_sub word_le_nat_alt)
qed

lemma dist_split:
  "unat (k - h :: u32) \<le> unat (t - h) \<Longrightarrow> unat (k - h) + unat (t - k) = unat (t - h)"
proof -
  assume "unat (k - h :: u32) \<le> unat (t - h)"
  then have "unat ((t - h) - (k - h)) = unat (t - h) - unat (k - h)"
    by (simp only: unat_sub word_le_nat_alt)
  moreover have "(t - h) - (k - h) = t - k" by simp
  ultimately show ?thesis using \<open>unat (k - h) \<le> unat (t - h)\<close> by simp
qed

lemma dist_of_nat: "k < 2 ^ 32 \<Longrightarrow> unat ((h + of_nat k) - h :: u32) = k"
  by (simp add: unat_of_nat)

lemma tail_eq: "h + of_nat (unat (t - h)) = (t :: u32)"
  by simp

lemma dist_0_iff: "unat (t - h :: u32) = 0 \<longleftrightarrow> t = h"
  by (simp add: unat_eq_0)

end
