(* ===== verification/Uring_Types.thy ===== *)
theory Uring_Types
  imports Ring_Index
begin

text \<open>
  The data of the io_uring interface as \<open>liburing/src/include/liburing/io_uring.h\<close> and
  \<open>liburing.h\<close> declare it: submission and completion entries, the mapped queues, the ring,
  the setup parameters and the flag words. A union of the C struct is one field (its members
  share storage); a pointer into the memory shared with the kernel is the value it points to,
  since each is reached through the ring only.
\<close>

section \<open>Submission and completion entries\<close>

record io_uring_sqe =
  sqe_opcode :: u8
  sqe_flags :: u8
  sqe_ioprio :: u16
  sqe_fd :: int
  sqe_off :: u64          \<comment> \<open>union of off, addr2\<close>
  sqe_addr :: u64         \<comment> \<open>union of addr, splice_off_in\<close>
  sqe_len :: u32
  sqe_op_flags :: u32     \<comment> \<open>union of rw_flags, fsync_flags, poll32_events, msg_flags, timeout_flags, ...\<close>
  sqe_user_data :: u64
  sqe_buf_index :: u16    \<comment> \<open>union of buf_index, buf_group; overlaps __pad2[0]\<close>
  sqe_personality :: u16  \<comment> \<open>overlaps __pad2[0]\<close>
  sqe_splice_fd_in :: int \<comment> \<open>overlaps __pad2[0]\<close>
  sqe_pad2_1 :: u64
  sqe_pad2_2 :: u64

record io_uring_cqe =
  cqe_user_data :: u64
  cqe_res :: int
  cqe_flags :: u32

datatype io_uring_op =
    IORING_OP_NOP | IORING_OP_READV | IORING_OP_WRITEV | IORING_OP_FSYNC
  | IORING_OP_READ_FIXED | IORING_OP_WRITE_FIXED | IORING_OP_POLL_ADD | IORING_OP_POLL_REMOVE
  | IORING_OP_SYNC_FILE_RANGE | IORING_OP_SENDMSG | IORING_OP_RECVMSG | IORING_OP_TIMEOUT
  | IORING_OP_TIMEOUT_REMOVE | IORING_OP_ACCEPT | IORING_OP_ASYNC_CANCEL
  | IORING_OP_LINK_TIMEOUT | IORING_OP_CONNECT | IORING_OP_FALLOCATE | IORING_OP_OPENAT
  | IORING_OP_CLOSE | IORING_OP_FILES_UPDATE | IORING_OP_STATX | IORING_OP_READ
  | IORING_OP_WRITE | IORING_OP_FADVISE | IORING_OP_MADVISE | IORING_OP_SEND | IORING_OP_RECV
  | IORING_OP_OPENAT2 | IORING_OP_EPOLL_CTL | IORING_OP_SPLICE | IORING_OP_PROVIDE_BUFFERS
  | IORING_OP_REMOVE_BUFFERS | IORING_OP_TEE | IORING_OP_SHUTDOWN | IORING_OP_RENAMEAT
  | IORING_OP_UNLINKAT | IORING_OP_LAST

text \<open>The value of an enumerator is its position in the enum.\<close>

definition io_uring_ops :: "io_uring_op list" where
  "io_uring_ops =
    [IORING_OP_NOP, IORING_OP_READV, IORING_OP_WRITEV, IORING_OP_FSYNC, IORING_OP_READ_FIXED,
     IORING_OP_WRITE_FIXED, IORING_OP_POLL_ADD, IORING_OP_POLL_REMOVE,
     IORING_OP_SYNC_FILE_RANGE, IORING_OP_SENDMSG, IORING_OP_RECVMSG, IORING_OP_TIMEOUT,
     IORING_OP_TIMEOUT_REMOVE, IORING_OP_ACCEPT, IORING_OP_ASYNC_CANCEL,
     IORING_OP_LINK_TIMEOUT, IORING_OP_CONNECT, IORING_OP_FALLOCATE, IORING_OP_OPENAT,
     IORING_OP_CLOSE, IORING_OP_FILES_UPDATE, IORING_OP_STATX, IORING_OP_READ,
     IORING_OP_WRITE, IORING_OP_FADVISE, IORING_OP_MADVISE, IORING_OP_SEND, IORING_OP_RECV,
     IORING_OP_OPENAT2, IORING_OP_EPOLL_CTL, IORING_OP_SPLICE, IORING_OP_PROVIDE_BUFFERS,
     IORING_OP_REMOVE_BUFFERS, IORING_OP_TEE, IORING_OP_SHUTDOWN, IORING_OP_RENAMEAT,
     IORING_OP_UNLINKAT, IORING_OP_LAST]"

fun index_of :: "'a list \<Rightarrow> 'a \<Rightarrow> nat" where
  "index_of [] x = 0"
| "index_of (y # ys) x = (if x = y then 0 else Suc (index_of ys x))"

definition op_code :: "io_uring_op \<Rightarrow> int" where
  "op_code op = int (index_of io_uring_ops op)"

definition IOSQE_FIXED_FILE :: u32 where "IOSQE_FIXED_FILE = push_bit 0 1"
definition IOSQE_IO_DRAIN :: u32 where "IOSQE_IO_DRAIN = push_bit 1 1"
definition IOSQE_IO_LINK :: u32 where "IOSQE_IO_LINK = push_bit 2 1"
definition IOSQE_IO_HARDLINK :: u32 where "IOSQE_IO_HARDLINK = push_bit 3 1"
definition IOSQE_ASYNC :: u32 where "IOSQE_ASYNC = push_bit 4 1"
definition IOSQE_BUFFER_SELECT :: u32 where "IOSQE_BUFFER_SELECT = push_bit 5 1"

definition IORING_SETUP_IOPOLL :: u32 where "IORING_SETUP_IOPOLL = push_bit 0 1"
definition IORING_SETUP_SQPOLL :: u32 where "IORING_SETUP_SQPOLL = push_bit 1 1"

definition IORING_TIMEOUT_UPDATE :: u32 where "IORING_TIMEOUT_UPDATE = push_bit 1 1"

definition IORING_SQ_NEED_WAKEUP :: u32 where "IORING_SQ_NEED_WAKEUP = push_bit 0 1"
definition IORING_SQ_CQ_OVERFLOW :: u32 where "IORING_SQ_CQ_OVERFLOW = push_bit 1 1"

definition IORING_CQ_EVENTFD_DISABLED :: u32 where "IORING_CQ_EVENTFD_DISABLED = push_bit 0 1"

definition IORING_ENTER_GETEVENTS :: u32 where "IORING_ENTER_GETEVENTS = push_bit 0 1"
definition IORING_ENTER_SQ_WAKEUP :: u32 where "IORING_ENTER_SQ_WAKEUP = push_bit 1 1"
definition IORING_ENTER_SQ_WAIT :: u32 where "IORING_ENTER_SQ_WAIT = push_bit 2 1"
definition IORING_ENTER_EXT_ARG :: u32 where "IORING_ENTER_EXT_ARG = push_bit 3 1"

definition IORING_FEAT_SINGLE_MMAP :: u32 where "IORING_FEAT_SINGLE_MMAP = push_bit 0 1"
definition IORING_FEAT_EXT_ARG :: u32 where "IORING_FEAT_EXT_ARG = push_bit 8 1"

definition LIBURING_UDATA_TIMEOUT :: u64 where "LIBURING_UDATA_TIMEOUT = - 1"

lemmas uring_flag_defs =
  IOSQE_FIXED_FILE_def IOSQE_IO_DRAIN_def IOSQE_IO_LINK_def IOSQE_IO_HARDLINK_def
  IOSQE_ASYNC_def IOSQE_BUFFER_SELECT_def IORING_SETUP_IOPOLL_def IORING_SETUP_SQPOLL_def
  IORING_TIMEOUT_UPDATE_def IORING_SQ_NEED_WAKEUP_def IORING_SQ_CQ_OVERFLOW_def
  IORING_CQ_EVENTFD_DISABLED_def IORING_ENTER_GETEVENTS_def IORING_ENTER_SQ_WAKEUP_def
  IORING_ENTER_SQ_WAIT_def IORING_ENTER_EXT_ARG_def IORING_FEAT_SINGLE_MMAP_def
  IORING_FEAT_EXT_ARG_def LIBURING_UDATA_TIMEOUT_def

section \<open>The mapped queues and the ring\<close>

record io_uring_sq =
  sq_khead :: u32
  sq_ktail :: u32
  sq_kring_mask :: u32
  sq_kring_entries :: u32
  sq_kflags :: u32
  sq_kdropped :: u32
  sq_array :: "u32 list"
  sq_sqes :: "io_uring_sqe list"
  sq_sqe_head :: u32
  sq_sqe_tail :: u32
  sq_ring_sz :: u64
  sq_ring_ptr :: u64

record io_uring_cq =
  cq_khead :: u32
  cq_ktail :: u32
  cq_kring_mask :: u32
  cq_kring_entries :: u32
  cq_kflags :: "u32 option"  \<comment> \<open>NULL when the kernel does not export the word\<close>
  cq_koverflow :: u32
  cq_cqes :: "io_uring_cqe list"
  cq_ring_sz :: u64
  cq_ring_ptr :: u64

record io_uring =
  ring_sq :: io_uring_sq
  ring_cq :: io_uring_cq
  ring_flags :: u32
  ring_fd :: int
  ring_features :: u32

text \<open>
  The system call \<open>io_uring_enter\<close> is not part of the sources: it is an argument of the
  operations that make it. It takes the descriptor, \<open>to_submit\<close>, \<open>min_complete\<close>, the flags, the
  argument pointer and its size, and the ring with the rest of the world, since the kernel may
  move its ends of the queues; it returns the result, \<open>errno\<close>, and the ring and world after.
\<close>

type_synonym 'w sys_enter =
  "int \<Rightarrow> u32 \<Rightarrow> u32 \<Rightarrow> u32 \<Rightarrow> u64 \<Rightarrow> int \<Rightarrow> io_uring \<Rightarrow> 'w \<Rightarrow> int \<times> int \<times> io_uring \<times> 'w"

lemma op_code_range: "0 \<le> op_code op \<and> op_code op < 256"
  by (cases op) (simp_all add: op_code_def io_uring_ops_def)

lemma nth_index_of: "x \<in> set xs \<Longrightarrow> xs ! index_of xs x = x"
  by (induction xs) auto

lemma op_code_inj: "op_code a = op_code b \<Longrightarrow> a = b"
proof -
  have "x \<in> set io_uring_ops" for x
    by (cases x) (simp_all add: io_uring_ops_def)
  then show "op_code a = op_code b \<Longrightarrow> a = b"
    by (metis op_code_def of_nat_eq_iff nth_index_of)
qed

end
