(* ===== verification/Uring_SQ.thy ===== *)
theory Uring_SQ
  imports Uring_Types
begin

text \<open>
  The submission side of the ring: \<open>__io_uring_get_sqe\<close>, \<open>io_uring_get_sqe\<close> and
  \<open>__io_uring_flush_sq\<close> of \<open>liburing/src/queue.c\<close>, and the accessors of the submission
  queue in \<open>liburing.h\<close>. The application takes entries between \<open>khead\<close> and \<open>sqe_tail\<close>;
  flushing publishes those between \<open>ktail\<close> and \<open>sqe_tail\<close> to the kernel through the index
  array. The invariant \<open>sq_inv\<close> relates the four counters; under it the queue refines a bounded
  FIFO of requests, stated once as the locale \<open>submission_queue\<close> and interpreted for the code.
\<close>

section \<open>Operations\<close>

definition sq_ring_needs_enter :: "io_uring \<Rightarrow> u32 \<Rightarrow> bool \<times> u32" where
  "sq_ring_needs_enter ring flags =
     (if ring_flags ring AND IORING_SETUP_SQPOLL = 0 then (True, flags)
      else if sq_kflags (ring_sq ring) AND IORING_SQ_NEED_WAKEUP \<noteq> 0
        then (True, flags OR IORING_ENTER_SQ_WAKEUP)
      else (False, flags))"

text \<open>\<open>__io_uring_get_sqe\<close>: the pointer it returns is the index of the slot in \<open>sqes\<close>.\<close>

definition io_uring_get_sqe_sq :: "io_uring_sq \<Rightarrow> u32 \<Rightarrow> io_uring_sq \<times> nat option" where
  "io_uring_get_sqe_sq sq head =
     (let next = sq_sqe_tail sq + 1
      in if next - head \<le> sq_kring_entries sq
         then (sq\<lparr>sq_sqe_tail := next\<rparr>, Some (slot (sq_kring_mask sq) (sq_sqe_tail sq)))
         else (sq, None))"

definition io_uring_get_sqe :: "io_uring \<Rightarrow> io_uring \<times> nat option" where
  "io_uring_get_sqe ring =
     (let (sq, sqe) = io_uring_get_sqe_sq (ring_sq ring) (sq_khead (ring_sq ring))
      in (ring\<lparr>ring_sq := sq\<rparr>, sqe))"

text \<open>The \<open>while (to_submit--)\<close> loop of \<open>__io_uring_flush_sq\<close>, with \<open>ktail\<close> as its accumulator.\<close>

primrec flush_sq_loop :: "nat \<Rightarrow> u32 \<Rightarrow> u32 \<Rightarrow> io_uring_sq \<Rightarrow> u32 \<times> io_uring_sq" where
  "flush_sq_loop 0 m ktail sq = (ktail, sq)"
| "flush_sq_loop (Suc to_submit) m ktail sq =
     flush_sq_loop to_submit m (ktail + 1)
       (sq\<lparr>sq_array := (sq_array sq)[slot m ktail := sq_sqe_head sq AND m],
           sq_sqe_head := sq_sqe_head sq + 1\<rparr>)"

definition io_uring_flush_sq_sq :: "io_uring_sq \<Rightarrow> io_uring_sq \<times> int" where
  "io_uring_flush_sq_sq sq =
     (if sq_sqe_head sq = sq_sqe_tail sq then (sq, sint (sq_ktail sq - sq_khead sq))
      else let to_submit = sq_sqe_tail sq - sq_sqe_head sq;
               (ktail, sq1) = flush_sq_loop (unat to_submit) (sq_kring_mask sq) (sq_ktail sq) sq;
               sq2 = sq1\<lparr>sq_ktail := ktail\<rparr>
           in (sq2, sint (ktail - sq_khead sq2)))"

definition io_uring_flush_sq :: "io_uring \<Rightarrow> io_uring \<times> int" where
  "io_uring_flush_sq ring =
     (let (sq, n) = io_uring_flush_sq_sq (ring_sq ring) in (ring\<lparr>ring_sq := sq\<rparr>, n))"

definition io_uring_sq_ready :: "io_uring \<Rightarrow> u32" where
  "io_uring_sq_ready ring =
     (if ring_flags ring AND IORING_SETUP_SQPOLL \<noteq> 0
      then sq_sqe_tail (ring_sq ring) - sq_khead (ring_sq ring)
      else sq_sqe_tail (ring_sq ring) - sq_khead (ring_sq ring))"

definition io_uring_sq_space_left :: "io_uring \<Rightarrow> u32" where
  "io_uring_sq_space_left ring = sq_kring_entries (ring_sq ring) - io_uring_sq_ready ring"

section \<open>Invariant and abstraction\<close>

definition sq_inv :: "nat \<Rightarrow> io_uring_sq \<Rightarrow> bool" where
  "sq_inv n sq \<longleftrightarrow>
     ring_size n (sq_kring_entries sq) (sq_kring_mask sq) \<and>
     length (sq_array sq) = 2 ^ n \<and> length (sq_sqes sq) = 2 ^ n \<and>
     sq_sqe_head sq = sq_ktail sq \<and>
     unat (sq_sqe_tail sq - sq_khead sq) \<le> 2 ^ n \<and>
     unat (sq_ktail sq - sq_khead sq) \<le> unat (sq_sqe_tail sq - sq_khead sq) \<and>
     ring_list (sq_array sq) (sq_kring_mask sq) (sq_khead sq) (unat (sq_ktail sq - sq_khead sq)) =
       map (\<lambda>i. (sq_khead sq + of_nat i) AND sq_kring_mask sq)
         [0..<unat (sq_ktail sq - sq_khead sq)]"

text \<open>
  All requests taken and not yet consumed, in the order they were taken, and the requests the
  kernel sees: those it reaches through the index array between its head and the tail.
\<close>

definition sq_queued :: "io_uring_sq \<Rightarrow> io_uring_sqe list" where
  "sq_queued sq =
     ring_list (sq_sqes sq) (sq_kring_mask sq) (sq_khead sq) (unat (sq_sqe_tail sq - sq_khead sq))"

definition sq_visible :: "io_uring_sq \<Rightarrow> io_uring_sqe list" where
  "sq_visible sq =
     map (\<lambda>idx. sq_sqes sq ! unat idx)
       (ring_list (sq_array sq) (sq_kring_mask sq) (sq_khead sq)
         (unat (sq_ktail sq - sq_khead sq)))"

text \<open>Taking an entry and filling it, as every caller does.\<close>

definition sq_put :: "io_uring_sq \<Rightarrow> io_uring_sqe \<Rightarrow> io_uring_sq option" where
  "sq_put sq req =
     (case io_uring_get_sqe_sq sq (sq_khead sq) of
        (sq', Some i) \<Rightarrow> Some (sq'\<lparr>sq_sqes := (sq_sqes sq')[i := req]\<rparr>)
      | (sq', None) \<Rightarrow> None)"

text \<open>The kernel consumes visible entries from the front by moving its head.\<close>

definition sq_consume :: "nat \<Rightarrow> io_uring_sq \<Rightarrow> io_uring_sq" where
  "sq_consume k sq = sq\<lparr>sq_khead := sq_khead sq + of_nat k\<rparr>"

lemma sq_visible_queued:
  assumes "sq_inv n sq"
  shows "sq_visible sq = take (unat (sq_ktail sq - sq_khead sq)) (sq_queued sq)"
proof (rule nth_equalityI)
  fix i assume "i < length (sq_visible sq)"
  then have i: "i < unat (sq_ktail sq - sq_khead sq)" by (simp add: sq_visible_def)
  then have "ring_list (sq_array sq) (sq_kring_mask sq) (sq_khead sq)
      (unat (sq_ktail sq - sq_khead sq)) ! i = (sq_khead sq + of_nat i) AND sq_kring_mask sq"
    using assms unfolding sq_inv_def by (metis (no_types, lifting) nth_map_upt add_0 diff_zero)
  with i assms show "sq_visible sq ! i =
      take (unat (sq_ktail sq - sq_khead sq)) (sq_queued sq) ! i"
    by (simp add: sq_visible_def sq_queued_def sq_inv_def slot_def)
qed (use assms in \<open>simp add: sq_visible_def sq_queued_def sq_inv_def\<close>)

section \<open>Taking an entry\<close>

lemma ring_count_lt: "ring_size n e m \<Longrightarrow> unat (t - h :: u32) \<le> 2 ^ n \<Longrightarrow> unat (t - h) + 1 < 2 ^ 32"
proof -
  assume "ring_size n e m" "unat (t - h :: u32) \<le> 2 ^ n"
  moreover from this have "(2::nat) ^ n \<le> 2 ^ 31"
    by (intro power_increasing) (auto simp: ring_size_def)
  ultimately show ?thesis by simp
qed

lemma get_sqe_room:
  assumes "sq_inv n sq"
  shows "sq_sqe_tail sq + 1 - sq_khead sq \<le> sq_kring_entries sq \<longleftrightarrow>
     unat (sq_sqe_tail sq - sq_khead sq) < 2 ^ n"
proof -
  have r: "ring_size n (sq_kring_entries sq) (sq_kring_mask sq)"
    and le: "unat (sq_sqe_tail sq - sq_khead sq) \<le> 2 ^ n"
    using assms by (auto simp: sq_inv_def)
  show ?thesis
    by (simp only: word_le_nat_alt dist_Suc [OF ring_count_lt [OF r le]] ring_size_unat [OF r]
        Suc_le_eq)
qed

lemma io_uring_get_sqe_sq_eq:
  assumes "sq_inv n sq"
  shows "io_uring_get_sqe_sq sq (sq_khead sq) =
     (if unat (sq_sqe_tail sq - sq_khead sq) < 2 ^ n
      then (sq\<lparr>sq_sqe_tail := sq_sqe_tail sq + 1\<rparr>, Some (slot (sq_kring_mask sq) (sq_sqe_tail sq)))
      else (sq, None))"
  using get_sqe_room [OF assms] by (simp add: io_uring_get_sqe_sq_def Let_def)

lemma sq_put_None_iff:
  assumes "sq_inv n sq"
  shows "sq_put sq req = None \<longleftrightarrow> length (sq_queued sq) = 2 ^ n"
proof -
  have "unat (sq_sqe_tail sq - sq_khead sq) \<le> 2 ^ n" using assms by (simp add: sq_inv_def)
  then show ?thesis
    by (auto simp: sq_put_def io_uring_get_sqe_sq_eq [OF assms] sq_queued_def)
qed

lemma sq_put_queued:
  assumes "sq_inv n sq" "sq_put sq req = Some sq'"
  shows "sq_queued sq' = sq_queued sq @ [req]"
proof -
  let ?k = "unat (sq_sqe_tail sq - sq_khead sq)"
  have r: "ring_size n (sq_kring_entries sq) (sq_kring_mask sq)" and le: "?k \<le> 2 ^ n"
    and len: "length (sq_sqes sq) = 2 ^ n"
    using assms(1) by (auto simp: sq_inv_def)
  have k: "?k < 2 ^ n" and sq': "sq' = sq\<lparr>sq_sqe_tail := sq_sqe_tail sq + 1,
      sq_sqes := (sq_sqes sq)[slot (sq_kring_mask sq) (sq_sqe_tail sq) := req]\<rparr>"
    using assms by (auto simp: sq_put_def io_uring_get_sqe_sq_eq split: if_splits)
  have "unat (sq_sqe_tail sq + 1 - sq_khead sq) = Suc ?k"
    by (rule dist_Suc [OF ring_count_lt [OF r le]])
  then show ?thesis
    using ring_list_push [OF r k len, of "sq_khead sq" req] by (simp add: sq' sq_queued_def)
qed

lemma sq_put_inv:
  assumes "sq_inv n sq" "sq_put sq req = Some sq'"
  shows "sq_inv n sq'"
proof -
  have r: "ring_size n (sq_kring_entries sq) (sq_kring_mask sq)"
    and le: "unat (sq_sqe_tail sq - sq_khead sq) \<le> 2 ^ n"
    using assms(1) by (auto simp: sq_inv_def)
  have "unat (sq_sqe_tail sq - sq_khead sq) < 2 ^ n" and "sq' = sq\<lparr>sq_sqe_tail := sq_sqe_tail sq + 1,
      sq_sqes := (sq_sqes sq)[slot (sq_kring_mask sq) (sq_sqe_tail sq) := req]\<rparr>"
    using assms by (auto simp: sq_put_def io_uring_get_sqe_sq_eq split: if_splits)
  then show ?thesis
    using assms(1) by (simp add: sq_inv_def dist_Suc [OF ring_count_lt [OF r le]])
qed

lemma sq_put_visible:
  assumes "sq_inv n sq" "sq_put sq req = Some sq'"
  shows "sq_visible sq' = sq_visible sq"
proof -
  have "sq_visible sq' = take (unat (sq_ktail sq' - sq_khead sq')) (sq_queued sq @ [req])"
    using sq_visible_queued [OF sq_put_inv [OF assms]] sq_put_queued [OF assms] by simp
  moreover have "sq_ktail sq' = sq_ktail sq" "sq_khead sq' = sq_khead sq"
    using assms by (auto simp: sq_put_def io_uring_get_sqe_sq_eq split: if_splits)
  ultimately show ?thesis
    using assms(1) sq_visible_queued [OF assms(1)] by (simp add: sq_inv_def sq_queued_def)
qed

section \<open>Publishing\<close>

lemma flush_sq_loop_frame:
  "flush_sq_loop k m t sq = (t', sq') \<Longrightarrow>
     t' = t + of_nat k \<and> sq_sqe_head sq' = sq_sqe_head sq + of_nat k \<and>
     sq' = sq\<lparr>sq_array := sq_array sq', sq_sqe_head := sq_sqe_head sq'\<rparr> \<and>
     length (sq_array sq') = length (sq_array sq)"
  by (induction k arbitrary: t sq) (simp, fastforce)

lemma flush_sq_loop_array:
  assumes "flush_sq_loop k m (h + of_nat c) sq = (t', sq')"
    and "ring_size n e m" "c + k \<le> 2 ^ n" "length (sq_array sq) = 2 ^ n"
    and "sq_sqe_head sq = h + of_nat c"
    and "ring_list (sq_array sq) m h c = map (\<lambda>i. (h + of_nat i) AND m) [0..<c]"
  shows "ring_list (sq_array sq') m h (c + k) = map (\<lambda>i. (h + of_nat i) AND m) [0..<c + k]"
  using assms
proof (induction k arbitrary: c sq)
  case 0
  then show ?case by simp
next
  case (Suc k)
  let ?sq1 = "sq\<lparr>sq_array := (sq_array sq)[slot m (h + of_nat c) := sq_sqe_head sq AND m],
      sq_sqe_head := sq_sqe_head sq + 1\<rparr>"
  have step: "flush_sq_loop k m (h + of_nat (Suc c)) ?sq1 = (t', sq')"
    using Suc.prems(1) by (simp add: algebra_simps)
  have "ring_list (sq_array ?sq1) m h (Suc c) = map (\<lambda>i. (h + of_nat i) AND m) [0..<Suc c]"
    using ring_list_push [OF Suc.prems(2), of c "sq_array sq" h "sq_sqe_head sq AND m"] Suc.prems
    by simp
  then have "ring_list (sq_array sq') m h (Suc c + k) = map (\<lambda>i. (h + of_nat i) AND m) [0..<Suc c + k]"
    using Suc.prems by (intro Suc.IH [OF step]) (simp_all add: algebra_simps)
  then show ?case by simp
qed

lemma flush_pending:
  assumes "sq_inv n sq"
  shows "unat (sq_ktail sq - sq_khead sq) + unat (sq_sqe_tail sq - sq_sqe_head sq) =
     unat (sq_sqe_tail sq - sq_khead sq)"
  using assms dist_split [of "sq_ktail sq" "sq_khead sq" "sq_sqe_tail sq"]
  by (simp add: sq_inv_def)

text \<open>Flushing leaves every counter but \<open>ktail\<close> and \<open>sqe_head\<close>, which meet at \<open>sqe_tail\<close>.\<close>

lemma io_uring_flush_sq_sq_eq:
  assumes "sq_inv n sq" "io_uring_flush_sq_sq sq = (sq', r)"
  shows "sq' = sq\<lparr>sq_array := sq_array sq', sq_ktail := sq_sqe_tail sq, sq_sqe_head := sq_sqe_tail sq\<rparr> \<and>
     r = sint (sq_sqe_tail sq - sq_khead sq) \<and> sq_inv n sq'"
proof (cases "sq_sqe_head sq = sq_sqe_tail sq")
  case True
  then have "sq' = sq" "r = sint (sq_sqe_tail sq - sq_khead sq)" "sq_ktail sq = sq_sqe_tail sq"
    using assms by (auto simp: io_uring_flush_sq_sq_def sq_inv_def)
  with True assms(1) show ?thesis by simp
next
  case False
  let ?m = "sq_kring_mask sq" and ?h = "sq_khead sq" and ?c = "unat (sq_ktail sq - sq_khead sq)"
    and ?k = "unat (sq_sqe_tail sq - sq_sqe_head sq)"
  obtain t sq1 where loop: "flush_sq_loop ?k ?m (sq_ktail sq) sq = (t, sq1)" by fastforce
  note inv = assms(1) [unfolded sq_inv_def]
  obtain A where t: "t = sq_sqe_tail sq" and len: "length A = 2 ^ n"
    and sq1: "sq1 = sq\<lparr>sq_array := A, sq_sqe_head := sq_sqe_tail sq\<rparr>"
    using flush_sq_loop_frame [OF loop] inv by (metis tail_eq)
  have sum: "?c + ?k = unat (sq_sqe_tail sq - ?h)" by (rule flush_pending [OF assms(1)])
  have "flush_sq_loop ?k ?m (?h + of_nat ?c) sq = (t, sq1)" using loop by simp
  then have "ring_list (sq_array sq1) ?m ?h (?c + ?k) =
      map (\<lambda>i. (?h + of_nat i) AND ?m) [0..<?c + ?k]"
    by (rule flush_sq_loop_array) (use inv sum in auto)
  then have arr: "ring_list A ?m ?h (unat (sq_sqe_tail sq - ?h)) =
      map (\<lambda>i. (?h + of_nat i) AND ?m) [0..<unat (sq_sqe_tail sq - ?h)]"
    by (simp add: sq1 sum)
  have sq': "sq' = sq\<lparr>sq_array := A, sq_ktail := sq_sqe_tail sq, sq_sqe_head := sq_sqe_tail sq\<rparr>"
    and r: "r = sint (sq_sqe_tail sq - sq_khead sq)"
    using assms(2) False loop by (auto simp: io_uring_flush_sq_sq_def Let_def t sq1)
  have "sq_inv n sq'" using inv arr len by (simp add: sq_inv_def sq')
  with r show ?thesis by (simp add: sq')
qed

lemma flush_publishes:
  assumes "sq_inv n sq" "io_uring_flush_sq_sq sq = (sq', r)"
  shows "sq_queued sq' = sq_queued sq" "sq_visible sq' = sq_queued sq"
proof -
  obtain A where sq': "sq' = sq\<lparr>sq_array := A, sq_ktail := sq_sqe_tail sq, sq_sqe_head := sq_sqe_tail sq\<rparr>"
    and inv': "sq_inv n sq'"
    using io_uring_flush_sq_sq_eq [OF assms] by metis
  show q: "sq_queued sq' = sq_queued sq" by (simp add: sq' sq_queued_def)
  show "sq_visible sq' = sq_queued sq"
    using sq_visible_queued [OF inv'] q by (simp add: sq' sq_queued_def)
qed

section \<open>Consumption by the kernel\<close>

lemma sq_consume_inv:
  assumes "sq_inv n sq" "k \<le> length (sq_visible sq)"
  shows "sq_inv n (sq_consume k sq)" "sq_visible (sq_consume k sq) = drop k (sq_visible sq)"
    "sq_queued (sq_consume k sq) = drop k (sq_queued sq)"
proof -
  let ?c = "unat (sq_ktail sq - sq_khead sq)" and ?q = "unat (sq_sqe_tail sq - sq_khead sq)"
  have k: "k \<le> ?c" "k \<le> ?q" using assms by (auto simp: sq_visible_def sq_inv_def)
  have "?q < 2 ^ 32" by (rule unat_u32_bound)
  then have "unat (of_nat k :: u32) = k" using k by (simp add: unat_of_nat)
  then have dist: "unat (sq_ktail sq - (sq_khead sq + of_nat k)) = ?c - k"
    "unat (sq_sqe_tail sq - (sq_khead sq + of_nat k)) = ?q - k"
    using dist_advance [of "of_nat k"] k by auto
  show inv: "sq_inv n (sq_consume k sq)"
    using assms(1) k ring_list_drop [OF k(1), of "sq_array sq" "sq_kring_mask sq" "sq_khead sq"]
    by (auto simp: sq_inv_def sq_consume_def dist ring_indices_drop)
  show "sq_queued (sq_consume k sq) = drop k (sq_queued sq)"
    using ring_list_drop [OF k(2)] by (simp add: sq_queued_def sq_consume_def dist)
  show "sq_visible (sq_consume k sq) = drop k (sq_visible sq)"
    by (simp add: sq_visible_def sq_consume_def dist drop_map ring_list_drop [OF k(1)])
qed

section \<open>The queue contract\<close>

text \<open>
  What a submission queue promises its users: requests are put in order until the capacity is
  reached, publishing makes all of them visible to the consumer in that order, and the
  consumer takes them from the front.
\<close>

primrec put_all :: "('q \<Rightarrow> 'r \<Rightarrow> 'q option) \<Rightarrow> 'q \<Rightarrow> 'r list \<Rightarrow> 'q option" where
  "put_all put q [] = Some q"
| "put_all put q (r # rs) = (case put q r of None \<Rightarrow> None | Some q' \<Rightarrow> put_all put q' rs)"

locale submission_queue =
  fixes put :: "'q \<Rightarrow> 'r \<Rightarrow> 'q option"
    and publish :: "'q \<Rightarrow> 'q"
    and consume :: "nat \<Rightarrow> 'q \<Rightarrow> 'q"
    and queued :: "'q \<Rightarrow> 'r list"
    and visible :: "'q \<Rightarrow> 'r list"
    and cap :: nat
    and inv :: "'q \<Rightarrow> bool"
  assumes put_None: "inv q \<Longrightarrow> put q r = None \<longleftrightarrow> length (queued q) = cap"
    and queued_cap: "inv q \<Longrightarrow> length (queued q) \<le> cap"
    and visible_prefix: "inv q \<Longrightarrow> visible q = take (length (visible q)) (queued q)"
    and put_inv: "inv q \<Longrightarrow> put q r = Some q' \<Longrightarrow> inv q'"
    and put_queued: "inv q \<Longrightarrow> put q r = Some q' \<Longrightarrow> queued q' = queued q @ [r]"
    and put_visible: "inv q \<Longrightarrow> put q r = Some q' \<Longrightarrow> visible q' = visible q"
    and publish_inv: "inv q \<Longrightarrow> inv (publish q)"
    and publish_queued: "inv q \<Longrightarrow> queued (publish q) = queued q"
    and publish_visible: "inv q \<Longrightarrow> visible (publish q) = queued q"
    and consume_inv: "inv q \<Longrightarrow> k \<le> length (visible q) \<Longrightarrow> inv (consume k q)"
    and consume_queued: "inv q \<Longrightarrow> k \<le> length (visible q) \<Longrightarrow> queued (consume k q) = drop k (queued q)"
    and consume_visible: "inv q \<Longrightarrow> k \<le> length (visible q) \<Longrightarrow> visible (consume k q) = drop k (visible q)"
begin

lemma put_all_Some:
  "inv q \<Longrightarrow> length (queued q) + length rs \<le> cap \<Longrightarrow>
     \<exists>q'. put_all put q rs = Some q' \<and> inv q' \<and> queued q' = queued q @ rs \<and> visible q' = visible q"
proof (induction rs arbitrary: q)
  case Nil
  then show ?case by simp
next
  case (Cons r rs)
  then have "put q r \<noteq> None" using put_None [of q r] by simp
  then obtain q1 where q1: "put q r = Some q1" by blast
  with Cons.prems have "inv q1" "queued q1 = queued q @ [r]" "visible q1 = visible q"
    by (auto intro: put_inv put_queued put_visible)
  with Cons.IH [of q1] Cons.prems q1 show ?case by simp
qed

lemma put_all_overflow:
  "inv q \<Longrightarrow> cap < length (queued q) + length rs \<Longrightarrow> put_all put q rs = None"
proof (induction rs arbitrary: q)
  case Nil
  then show ?case using queued_cap by force
next
  case (Cons r rs)
  show ?case
  proof (cases "put q r")
    case (Some q1)
    then have "inv q1" "queued q1 = queued q @ [r]"
      using Cons.prems(1) by (auto intro: put_inv put_queued)
    then show ?thesis using Cons.IH [of q1] Cons.prems Some by simp
  qed simp
qed

text \<open>A published batch is delivered in order and completely, and frees the room it took.\<close>

lemma batch_delivered:
  assumes "inv q" "queued q = []" "length rs \<le> cap"
  shows "\<exists>q'. put_all put q rs = Some q' \<and> visible q' = [] \<and> visible (publish q') = rs \<and>
     queued (consume (length rs) (publish q')) = [] \<and> inv (consume (length rs) (publish q'))"
proof -
  obtain q' where q': "put_all put q rs = Some q'" "inv q'" "queued q' = rs" "visible q' = visible q"
    using put_all_Some [of q rs] assms by auto
  have "visible q = []" using visible_prefix [of q] assms by simp
  then show ?thesis
    using q' publish_visible publish_queued publish_inv consume_inv consume_queued by auto
qed

end

lemma sq_queued_cap: "sq_inv n sq \<Longrightarrow> length (sq_queued sq) \<le> 2 ^ n"
  by (simp add: sq_queued_def sq_inv_def)

lemma sq_visible_prefix: "sq_inv n sq \<Longrightarrow> sq_visible sq = take (length (sq_visible sq)) (sq_queued sq)"
  by (metis sq_visible_queued append_eq_conv_conj append_take_drop_id)

interpretation liburing_sq: submission_queue
  sq_put "\<lambda>sq. fst (io_uring_flush_sq_sq sq)" sq_consume sq_queued sq_visible "2 ^ n" "sq_inv n" for n
proof (unfold_locales, goal_cases)
  case (3 q)
  then show ?case by (rule sq_visible_prefix)
next
  case (7 q)
  then show ?case using io_uring_flush_sq_sq_eq by (metis prod.collapse)
next
  case (8 q)
  then show ?case using flush_publishes(1) by (metis prod.collapse)
next
  case (9 q)
  then show ?case using flush_publishes(2) by (metis prod.collapse)
qed (simp_all add: sq_put_None_iff sq_queued_cap sq_put_inv sq_put_queued sq_put_visible
    sq_consume_inv)

section \<open>Correctness of the submission side\<close>

lemma sint_count:
  assumes "n < 31" "unat (x :: u32) \<le> 2 ^ n"
  shows "sint x = int (unat x)"
proof -
  have "(2::nat) ^ n < 2 ^ 31" using assms(1) by (intro power_strict_increasing) auto
  with assms(2) have "int (unat x) < int (2 ^ 31)" by linarith
  then have "uint x < 2 ^ 31" by (simp only: uint_nat of_nat_power of_nat_numeral)
  then have "signed_take_bit 31 (uint x) = uint x"
    by (intro signed_take_bit_int_eq_self) (auto intro: order_trans [OF _ uint_ge_0])
  then have "sint x = uint x" by (simp add: sint_uint)
  then show ?thesis by (simp only: uint_nat)
qed

text \<open>
  A ring of two entries whose counters are about to wrap around, with no request queued; the
  witnesses below run on it.
\<close>

definition zero_sqe :: io_uring_sqe where
  "zero_sqe = \<lparr>sqe_opcode = 0, sqe_flags = 0, sqe_ioprio = 0, sqe_fd = 0, sqe_off = 0,
     sqe_addr = 0, sqe_len = 0, sqe_op_flags = 0, sqe_user_data = 0, sqe_buf_index = 0,
     sqe_personality = 0, sqe_splice_fd_in = 0, sqe_pad2_1 = 0, sqe_pad2_2 = 0\<rparr>"

definition wrapping_sq :: io_uring_sq where
  "wrapping_sq = \<lparr>sq_khead = - 1, sq_ktail = - 1, sq_kring_mask = 1, sq_kring_entries = 2,
     sq_kflags = 0, sq_kdropped = 0, sq_array = [0, 0], sq_sqes = [zero_sqe, zero_sqe],
     sq_sqe_head = - 1, sq_sqe_tail = - 1, sq_ring_sz = 0, sq_ring_ptr = 0\<rparr>"

lemma wrapping_sq_inv: "sq_inv 1 wrapping_sq"
  by (simp add: sq_inv_def wrapping_sq_def ring_size_def mask_eq_exp_minus_1)

lemma wrapping_sq_empty: "sq_queued wrapping_sq = []"
  by (simp add: sq_queued_def wrapping_sq_def)

text \<open>
  C12. \<open>io_uring_get_sqe\<close> returns NULL, leaving the ring as it was, exactly when all entries
  are taken; otherwise the slot it hands out is inside the array and none of the slots still
  waiting for the kernel, and filling it appends the request to the queue without making
  anything visible to the kernel. This holds for every value of the free-running 32-bit
  counters, across their wrap-around.
\<close>

theorem io_uring_get_sqe_correct:
  assumes inv: "sq_inv n (ring_sq ring)"
  shows "case io_uring_get_sqe ring of
       (ring', None) \<Rightarrow> ring' = ring \<and> length (sq_queued (ring_sq ring)) = 2 ^ n
     | (ring', Some i) \<Rightarrow>
         length (sq_queued (ring_sq ring)) < 2 ^ n \<and> i < 2 ^ n \<and>
         (\<forall>j < length (sq_queued (ring_sq ring)).
            i \<noteq> slot (sq_kring_mask (ring_sq ring)) (sq_khead (ring_sq ring) + of_nat j)) \<and>
         (\<forall>req. let sq' = (ring_sq ring')\<lparr>sq_sqes := (sq_sqes (ring_sq ring'))[i := req]\<rparr>
                in sq_inv n sq' \<and> sq_queued sq' = sq_queued (ring_sq ring) @ [req] \<and>
                   sq_visible sq' = sq_visible (ring_sq ring))"
proof -
  let ?sq = "ring_sq ring"
  let ?k = "unat (sq_sqe_tail ?sq - sq_khead ?sq)" and ?i = "slot (sq_kring_mask ?sq) (sq_sqe_tail ?sq)"
  have r: "ring_size n (sq_kring_entries ?sq) (sq_kring_mask ?sq)" and le: "?k \<le> 2 ^ n"
    using inv by (auto simp: sq_inv_def)
  show ?thesis
  proof (cases "?k < 2 ^ n")
    case True
    have put: "sq_put ?sq req = Some (?sq\<lparr>sq_sqe_tail := sq_sqe_tail ?sq + 1,
        sq_sqes := (sq_sqes ?sq)[?i := req]\<rparr>)" for req
      using True by (simp add: sq_put_def io_uring_get_sqe_sq_eq [OF inv])
    have fresh: "?i \<noteq> slot (sq_kring_mask ?sq) (sq_khead ?sq + of_nat j)" if "j < ?k" for j
      using slot_inj [OF r, of ?k j "sq_khead ?sq"] True that by auto
    show ?thesis
      using True fresh sq_put_inv [OF inv put] sq_put_queued [OF inv put] sq_put_visible [OF inv put]
      by (simp add: io_uring_get_sqe_def io_uring_get_sqe_sq_eq [OF inv] slot_less [OF r]
          Let_def sq_queued_def)
  next
    case False
    with le show ?thesis
      by (simp add: io_uring_get_sqe_def io_uring_get_sqe_sq_eq [OF inv] sq_queued_def)
  qed
qed

theorem io_uring_get_sqe_correct_witness:
  "case io_uring_get_sqe \<lparr>ring_sq = wrapping_sq, ring_cq = undefined, ring_flags = 0,
       ring_fd = 3, ring_features = 0\<rparr> of
     (ring', None) \<Rightarrow> False | (ring', Some i) \<Rightarrow> i < 2 \<and> sq_sqe_tail (ring_sq ring') = 0"
  using io_uring_get_sqe_correct [of 1 "\<lparr>ring_sq = wrapping_sq, ring_cq = undefined,
      ring_flags = 0, ring_fd = 3, ring_features = 0\<rparr>"] wrapping_sq_inv wrapping_sq_empty
  by (simp add: io_uring_get_sqe_def io_uring_get_sqe_sq_def wrapping_sq_def split: if_splits)

text \<open>
  C13. Requests reach the kernel completely and in order: putting a batch that fits succeeds, and
  after \<open>__io_uring_flush_sq\<close> the kernel sees the requests that were queued before followed by
  the batch; the flush returns their number and keeps the invariant. A batch that does not fit
  is refused.
\<close>

theorem submission_in_order:
  assumes "sq_inv n sq" "n < 31"
  shows "if length (sq_queued sq) + length reqs \<le> 2 ^ n
         then \<exists>sq' sq'' r. put_all sq_put sq reqs = Some sq' \<and>
                io_uring_flush_sq_sq sq' = (sq'', r) \<and> sq_inv n sq'' \<and>
                sq_visible sq'' = sq_queued sq @ reqs \<and>
                r = int (length (sq_queued sq) + length reqs)
         else put_all sq_put sq reqs = None"
proof (cases "length (sq_queued sq) + length reqs \<le> 2 ^ n")
  case True
  then obtain sq' where sq': "put_all sq_put sq reqs = Some sq'" "sq_inv n sq'"
    "sq_queued sq' = sq_queued sq @ reqs"
    using liburing_sq.put_all_Some assms(1) by blast
  obtain sq'' r where fl: "io_uring_flush_sq_sq sq' = (sq'', r)" by fastforce
  have "r = int (length (sq_queued sq'))"
    using io_uring_flush_sq_sq_eq [OF sq'(2) fl] sint_count [OF assms(2)] sq'(2)
    by (simp add: sq_queued_def sq_inv_def)
  moreover have "sq_visible sq'' = sq_queued sq'" "sq_inv n sq''"
    using flush_publishes(2) [OF sq'(2) fl] io_uring_flush_sq_sq_eq [OF sq'(2) fl] by auto
  ultimately show ?thesis using True sq' fl by auto
next
  case False
  then show ?thesis using liburing_sq.put_all_overflow [OF assms(1), of reqs] by simp
qed

theorem submission_in_order_witness:
  "\<exists>sq' sq'' r. put_all sq_put wrapping_sq [zero_sqe, zero_sqe\<lparr>sqe_fd := 7\<rparr>] = Some sq' \<and>
     io_uring_flush_sq_sq sq' = (sq'', r) \<and>
     sq_visible sq'' = [zero_sqe, zero_sqe\<lparr>sqe_fd := 7\<rparr>] \<and> r = 2"
  using submission_in_order [OF wrapping_sq_inv, of "[zero_sqe, zero_sqe\<lparr>sqe_fd := 7\<rparr>]"]
  by (auto simp: wrapping_sq_empty)

end
