(* ===== verification/Uring_CQ.thy ===== *)
theory Uring_CQ
  imports Uring_SQ
begin

text \<open>
  The completion side of the ring: advancing and peeking in \<open>liburing.h\<close> and
  \<open>liburing/src/queue.c\<close>, the loop of \<open>_io_uring_get_cqe\<close> that enters the kernel, and
  batch peeking. A pointer to a completion entry is its slot in the array. Completions that
  carry the library's own timeout tag are consumed inside the library; \<open>cq_pending\<close> is the
  list of completions between head and tail, and the lemmas describe each operation on it.

  The kernel may append completions at any time between two operations; within an operation it
  acts when it is entered.
\<close>

section \<open>Operations\<close>

definition cq_ring_needs_flush :: "io_uring \<Rightarrow> bool" where
  "cq_ring_needs_flush ring \<longleftrightarrow> sq_kflags (ring_sq ring) AND IORING_SQ_CQ_OVERFLOW \<noteq> 0"

definition io_uring_cq_advance :: "io_uring \<Rightarrow> u32 \<Rightarrow> io_uring" where
  "io_uring_cq_advance ring nr =
     (if nr \<noteq> 0 then ring\<lparr>ring_cq := (ring_cq ring)\<lparr>cq_khead := cq_khead (ring_cq ring) + nr\<rparr>\<rparr>
      else ring)"

definition io_uring_cqe_seen :: "io_uring \<Rightarrow> nat option \<Rightarrow> io_uring" where
  "io_uring_cqe_seen ring cqe =
     (case cqe of None \<Rightarrow> ring | Some _ \<Rightarrow> io_uring_cq_advance ring 1)"

definition io_uring_cq_ready :: "io_uring \<Rightarrow> u32" where
  "io_uring_cq_ready ring = cq_ktail (ring_cq ring) - cq_khead (ring_cq ring)"

definition io_uring_cq_eventfd_enabled :: "io_uring \<Rightarrow> bool" where
  "io_uring_cq_eventfd_enabled ring =
     (case cq_kflags (ring_cq ring) of
        None \<Rightarrow> True
      | Some f \<Rightarrow> f AND IORING_CQ_EVENTFD_DISABLED = 0)"

definition io_uring_cq_eventfd_toggle :: "io_uring \<Rightarrow> bool \<Rightarrow> io_uring \<times> int" where
  "io_uring_cq_eventfd_toggle ring enabled =
     (if enabled = io_uring_cq_eventfd_enabled ring then (ring, 0)
      else case cq_kflags (ring_cq ring) of
        None \<Rightarrow> (ring, - EOPNOTSUPP)
      | Some f \<Rightarrow>
          (ring\<lparr>ring_cq := (ring_cq ring)\<lparr>cq_kflags :=
             Some (if enabled then f AND NOT IORING_CQ_EVENTFD_DISABLED
                   else f OR IORING_CQ_EVENTFD_DISABLED)\<rparr>\<rparr>, 0))"

text \<open>
  \<open>__io_uring_peek_cqe\<close>: the result is the ring, the entry (a slot or NULL), the number of
  available entries and the error. Every turn of the loop consumes an entry, so it ends.
\<close>

lemma peek_decreases:
  "cq_ktail (ring_cq ring) - cq_khead (ring_cq ring) \<noteq> 0 \<Longrightarrow>
     unat (cq_ktail (ring_cq (io_uring_cq_advance ring 1)) -
       cq_khead (ring_cq (io_uring_cq_advance ring 1)))
     < unat (cq_ktail (ring_cq ring) - cq_khead (ring_cq ring))"
proof -
  let ?d = "cq_ktail (ring_cq ring) - cq_khead (ring_cq ring)"
  assume "?d \<noteq> 0"
  then have "unat (1 :: u32) \<le> unat ?d" by (simp add: Suc_leI unat_gt_0)
  then show ?thesis
    using dist_advance [of 1 "cq_ktail (ring_cq ring)" "cq_khead (ring_cq ring)"]
    by (simp add: io_uring_cq_advance_def)
qed

function io_uring_peek_cqe_internal :: "io_uring \<Rightarrow> io_uring \<times> nat option \<times> u32 \<times> int" where
  "io_uring_peek_cqe_internal ring =
     (let cq = ring_cq ring;
          available = cq_ktail cq - cq_khead cq
      in if available = 0 then (ring, None, available, 0)
         else let i = slot (cq_kring_mask cq) (cq_khead cq);
                  cqe = cq_cqes cq ! i
              in if cqe_user_data cqe = LIBURING_UDATA_TIMEOUT then
                   (if cqe_res cqe < 0
                    then (io_uring_cq_advance ring 1, None, available, cqe_res cqe)
                    else io_uring_peek_cqe_internal (io_uring_cq_advance ring 1))
                 else (ring, Some i, available, 0))"
  by pat_completeness auto

termination
  by (relation "measure (\<lambda>ring. unat (cq_ktail (ring_cq ring) - cq_khead (ring_cq ring)))")
    (simp_all only: wf_measure in_measure peek_decreases not_False_eq_True)

declare io_uring_peek_cqe_internal.simps [simp del]

text \<open>\<open>struct get_data\<close>.\<close>

record get_data =
  gd_submit :: u32
  gd_wait_nr :: u32
  gd_get_flags :: u32
  gd_sz :: int
  gd_arg :: u64

text \<open>
  The loop of \<open>_io_uring_get_cqe\<close>. Whether it ends depends on the kernel, so it is a partial
  function: \<open>None\<close> is a loop that never returns. \<open>ret\<close> is declared outside the C loop and keeps
  its value through turns that do not enter the kernel.
\<close>

partial_function (option) get_cqe_loop ::
  "'w sys_enter \<Rightarrow> int \<Rightarrow> int \<Rightarrow> get_data \<Rightarrow> io_uring \<Rightarrow> 'w \<Rightarrow> (int \<times> nat option \<times> io_uring \<times> 'w) option"
where
  "get_cqe_loop enter to_wait ret d ring w =
     (case io_uring_peek_cqe_internal ring of (ring1, cqe, nr_available, err) \<Rightarrow>
      if err \<noteq> 0 then Some (err, cqe, ring1, w)
      else if cqe = None \<and> to_wait = 0 \<and> gd_submit d = 0 \<and> \<not> cq_ring_needs_flush ring1
        then Some (- EAGAIN, cqe, ring1, w)
      else
        let cq_overflow_flush = (cqe = None \<and> to_wait = 0 \<and> gd_submit d = 0);
            wait_nr = (if gd_wait_nr d \<noteq> 0 \<and> cqe \<noteq> None then gd_wait_nr d - 1 else gd_wait_nr d);
            flags1 = (if wait_nr \<noteq> 0 \<or> cq_overflow_flush
                      then IORING_ENTER_GETEVENTS OR gd_get_flags d else 0);
            flags = (if gd_submit d \<noteq> 0 then snd (sq_ring_needs_enter ring1 flags1) else flags1)
        in case (if wait_nr > nr_available \<or> gd_submit d \<noteq> 0 \<or> cq_overflow_flush
                 then enter (ring_fd ring1) (gd_submit d) wait_nr flags (gd_arg d) (gd_sz d) ring1 w
                 else (ret, 0, ring1, w)) of (ret', errno, ring2, w2) \<Rightarrow>
           let (err', d') =
                 (if ret' < 0 then (- errno, d\<lparr>gd_wait_nr := wait_nr\<rparr>)
                  else if ret' = sint (gd_submit d)
                    then (0, d\<lparr>gd_submit := 0,
                        gd_wait_nr := (if ring_flags ring2 AND IORING_SETUP_IOPOLL = 0 then 0 else wait_nr)\<rparr>)
                  else (0, d\<lparr>gd_submit := gd_submit d - word_of_int ret', gd_wait_nr := wait_nr\<rparr>))
           in if cqe \<noteq> None then Some (err', cqe, ring2, w2)
              else if err' = 0 then get_cqe_loop enter to_wait ret' d' ring2 w2
              else Some (err', cqe, ring2, w2))"

definition io_uring_get_cqe_data ::
  "'w sys_enter \<Rightarrow> get_data \<Rightarrow> io_uring \<Rightarrow> 'w \<Rightarrow> (int \<times> nat option \<times> io_uring \<times> 'w) option" where
  "io_uring_get_cqe_data enter d ring w = get_cqe_loop enter (sint (gd_wait_nr d)) 0 d ring w"

text \<open>\<open>_NSIG / 8\<close> is 8 on Linux (64 signals).\<close>

definition io_uring_get_cqe ::
  "'w sys_enter \<Rightarrow> u32 \<Rightarrow> u32 \<Rightarrow> u64 \<Rightarrow> io_uring \<Rightarrow> 'w \<Rightarrow> (int \<times> nat option \<times> io_uring \<times> 'w) option" where
  "io_uring_get_cqe enter submit wait_nr sigmask ring w =
     io_uring_get_cqe_data enter
       \<lparr>gd_submit = submit, gd_wait_nr = wait_nr, gd_get_flags = 0, gd_sz = 8, gd_arg = sigmask\<rparr> ring w"

definition io_uring_wait_cqe_nr ::
  "'w sys_enter \<Rightarrow> u32 \<Rightarrow> io_uring \<Rightarrow> 'w \<Rightarrow> (int \<times> nat option \<times> io_uring \<times> 'w) option" where
  "io_uring_wait_cqe_nr enter wait_nr ring w = io_uring_get_cqe enter 0 wait_nr 0 ring w"

definition io_uring_peek_cqe ::
  "'w sys_enter \<Rightarrow> io_uring \<Rightarrow> 'w \<Rightarrow> (int \<times> nat option \<times> io_uring \<times> 'w) option" where
  "io_uring_peek_cqe enter ring w = io_uring_wait_cqe_nr enter 0 ring w"

definition io_uring_wait_cqe ::
  "'w sys_enter \<Rightarrow> io_uring \<Rightarrow> 'w \<Rightarrow> (int \<times> nat option \<times> io_uring \<times> 'w) option" where
  "io_uring_wait_cqe enter ring w = io_uring_wait_cqe_nr enter 1 ring w"

text \<open>The \<open>for (; head != last; head++, i++)\<close> loop of \<open>io_uring_peek_batch_cqe\<close>.\<close>

lemma fill_cqes_decreases: "head \<noteq> stop \<Longrightarrow> unat (stop - (head + 1) :: u32) < unat (stop - head)"
proof -
  assume "head \<noteq> stop"
  then have "unat (1 :: u32) \<le> unat (stop - head)" by (simp add: Suc_leI unat_gt_0)
  then show ?thesis using dist_advance [of 1 stop head] by simp
qed

function fill_cqes :: "u32 \<Rightarrow> u32 \<Rightarrow> u32 \<Rightarrow> nat list" where
  "fill_cqes m head stop =
     (if head = stop then [] else slot m head # fill_cqes m (head + 1) stop)"
  by pat_completeness auto

termination
  by (relation "measure (\<lambda>(m, head, stop). unat (stop - head))") (simp_all add: fill_cqes_decreases)

declare fill_cqes.simps [simp del]

definition peek_batch_ready :: "io_uring \<Rightarrow> u32 \<Rightarrow> nat list option" where
  "peek_batch_ready ring count =
     (let ready = io_uring_cq_ready ring
      in if ready \<noteq> 0
         then let head = cq_khead (ring_cq ring);
                  count' = (if count > ready then ready else count)
              in Some (fill_cqes (cq_kring_mask (ring_cq ring)) head (head + count'))
         else None)"

text \<open>
  \<open>io_uring_peek_batch_cqe\<close>: the slots it stores into \<open>cqes\<close> (their number is the value the C
  function returns). The \<open>goto again\<close> is taken at most once, after the kernel was entered.
\<close>

definition io_uring_peek_batch_cqe ::
  "'w sys_enter \<Rightarrow> io_uring \<Rightarrow> u32 \<Rightarrow> 'w \<Rightarrow> nat list \<times> io_uring \<times> 'w" where
  "io_uring_peek_batch_cqe enter ring count w =
     (case peek_batch_ready ring count of
        Some cqes \<Rightarrow> (cqes, ring, w)
      | None \<Rightarrow>
          if cq_ring_needs_flush ring then
            (case enter (ring_fd ring) 0 0 IORING_ENTER_GETEVENTS 0 8 ring w of (_, _, ring', w') \<Rightarrow>
             case peek_batch_ready ring' count of
               Some cqes \<Rightarrow> (cqes, ring', w')
             | None \<Rightarrow> ([], ring', w'))
          else ([], ring, w))"

section \<open>Pending completions\<close>

definition cq_inv :: "nat \<Rightarrow> io_uring_cq \<Rightarrow> bool" where
  "cq_inv n cq \<longleftrightarrow>
     ring_size n (cq_kring_entries cq) (cq_kring_mask cq) \<and> length (cq_cqes cq) = 2 ^ n \<and>
     unat (cq_ktail cq - cq_khead cq) \<le> 2 ^ n"

definition cq_pending :: "io_uring_cq \<Rightarrow> io_uring_cqe list" where
  "cq_pending cq =
     ring_list (cq_cqes cq) (cq_kring_mask cq) (cq_khead cq) (unat (cq_ktail cq - cq_khead cq))"

text \<open>A completion of the library's own timeout request that ended without an error.\<close>

definition internal_timeout :: "io_uring_cqe \<Rightarrow> bool" where
  "internal_timeout e \<longleftrightarrow> cqe_user_data e = LIBURING_UDATA_TIMEOUT \<and> 0 \<le> cqe_res e"

text \<open>The kernel posts a completion at its tail when there is room.\<close>

definition cq_post :: "io_uring_cq \<Rightarrow> io_uring_cqe \<Rightarrow> io_uring_cq option" where
  "cq_post cq e =
     (if unat (cq_ktail cq - cq_khead cq) < unat (cq_kring_entries cq)
      then Some (cq\<lparr>cq_cqes := (cq_cqes cq)[slot (cq_kring_mask cq) (cq_ktail cq) := e],
                    cq_ktail := cq_ktail cq + 1\<rparr>)
      else None)"

lemma length_cq_pending [simp]: "length (cq_pending cq) = unat (cq_ktail cq - cq_khead cq)"
  by (simp add: cq_pending_def)

lemma cq_pending_nth:
  "i < unat (cq_ktail cq - cq_khead cq) \<Longrightarrow>
     cq_pending cq ! i = cq_cqes cq ! slot (cq_kring_mask cq) (cq_khead cq + of_nat i)"
  by (simp add: cq_pending_def)

lemma cq_pending_Nil: "cq_pending cq = [] \<longleftrightarrow> cq_ktail cq - cq_khead cq = 0"
  by (metis length_0_conv length_cq_pending unat_eq_0)

lemma cq_pending_hd:
  "cq_ktail cq - cq_khead cq \<noteq> 0 \<Longrightarrow> hd (cq_pending cq) = cq_cqes cq ! slot (cq_kring_mask cq) (cq_khead cq)"
  by (simp add: cq_pending_def ring_list_hd unat_gt_0)

lemma cq_advance_frame [simp]:
  "ring_sq (io_uring_cq_advance ring k) = ring_sq ring"
  "ring_flags (io_uring_cq_advance ring k) = ring_flags ring"
  "ring_fd (io_uring_cq_advance ring k) = ring_fd ring"
  "cq_kring_mask (ring_cq (io_uring_cq_advance ring k)) = cq_kring_mask (ring_cq ring)"
  "cq_cqes (ring_cq (io_uring_cq_advance ring k)) = cq_cqes (ring_cq ring)"
  by (simp_all add: io_uring_cq_advance_def)

lemma cq_advance_pending:
  assumes "unat k \<le> length (cq_pending (ring_cq ring))"
  shows "cq_pending (ring_cq (io_uring_cq_advance ring k)) = drop (unat k) (cq_pending (ring_cq ring))"
proof -
  let ?cq = "ring_cq ring"
  have "ring_list (cq_cqes ?cq) (cq_kring_mask ?cq) (cq_khead ?cq + of_nat (unat k))
      (unat (cq_ktail ?cq - cq_khead ?cq) - unat k) = drop (unat k) (cq_pending ?cq)"
    using assms ring_list_drop [of "unat k"] by (simp add: cq_pending_def)
  then show ?thesis
    using assms dist_advance [of k "cq_ktail ?cq" "cq_khead ?cq"]
    by (auto simp: cq_pending_def io_uring_cq_advance_def)
qed

lemma cq_advance_inv:
  assumes "cq_inv n (ring_cq ring)" "unat k \<le> length (cq_pending (ring_cq ring))"
  shows "cq_inv n (ring_cq (io_uring_cq_advance ring k))"
  using assms dist_advance [of k "cq_ktail (ring_cq ring)" "cq_khead (ring_cq ring)"]
  by (auto simp: cq_inv_def io_uring_cq_advance_def)

lemma cq_advance_1:
  assumes "cq_ktail (ring_cq ring) - cq_khead (ring_cq ring) \<noteq> 0"
  shows "cq_pending (ring_cq (io_uring_cq_advance ring 1)) = tl (cq_pending (ring_cq ring))"
    and "cq_inv n (ring_cq ring) \<Longrightarrow> cq_inv n (ring_cq (io_uring_cq_advance ring 1))"
proof -
  have "unat (1 :: u32) \<le> length (cq_pending (ring_cq ring))"
    using assms by (simp add: Suc_leI unat_gt_0)
  then show "cq_pending (ring_cq (io_uring_cq_advance ring 1)) = tl (cq_pending (ring_cq ring))"
    and "cq_inv n (ring_cq ring) \<Longrightarrow> cq_inv n (ring_cq (io_uring_cq_advance ring 1))"
    using cq_advance_pending [of 1 ring] cq_advance_inv [of n ring 1] by (simp_all add: drop_Suc)
qed

section \<open>Peeking\<close>

text \<open>
  What \<open>__io_uring_peek_cqe\<close> does to the pending list: internal timeouts at the front are
  dropped; a failed internal timeout is consumed and its result returned as the error; the
  first completion of the application is returned and stays pending.
\<close>

definition peek_result :: "io_uring \<Rightarrow> io_uring \<Rightarrow> nat option \<Rightarrow> int \<Rightarrow> bool" where
  "peek_result ring ring' cqe err \<longleftrightarrow>
     (case dropWhile internal_timeout (cq_pending (ring_cq ring)) of
        [] \<Rightarrow> cqe = None \<and> err = 0 \<and> cq_pending (ring_cq ring') = []
      | e # es \<Rightarrow>
          if cqe_user_data e = LIBURING_UDATA_TIMEOUT
          then cqe = None \<and> err = cqe_res e \<and> err < 0 \<and> cq_pending (ring_cq ring') = es
          else (\<exists>i. cqe = Some i \<and> cq_cqes (ring_cq ring') ! i = e) \<and> err = 0 \<and>
               cq_pending (ring_cq ring') = e # es)"

lemma peek_internal_result:
  assumes "io_uring_peek_cqe_internal ring = (ring', cqe, nr, err)"
  shows "peek_result ring ring' cqe err \<and> ring_sq ring' = ring_sq ring \<and> ring_fd ring' = ring_fd ring \<and>
     ring_flags ring' = ring_flags ring \<and>
     (cq_inv n (ring_cq ring) \<longrightarrow> cq_inv n (ring_cq ring'))"
  using assms
proof (induction ring rule: io_uring_peek_cqe_internal.induct)
  case (1 ring)
  let ?cq = "ring_cq ring"
  let ?e = "cq_cqes ?cq ! slot (cq_kring_mask ?cq) (cq_khead ?cq)"
  note unfold = io_uring_peek_cqe_internal.simps [of ring]
  show ?case
  proof (cases "cq_ktail ?cq - cq_khead ?cq = 0")
    case True
    then show ?thesis
      using "1.prems" cq_pending_Nil [of ?cq] by (simp add: unfold peek_result_def)
  next
    case False
    then obtain es where L: "cq_pending ?cq = ?e # es"
      using cq_pending_hd cq_pending_Nil by (metis list.collapse)
    note adv = cq_advance_1 [OF False]
    consider (user) "cqe_user_data ?e \<noteq> LIBURING_UDATA_TIMEOUT"
      | (failed) "cqe_user_data ?e = LIBURING_UDATA_TIMEOUT" "cqe_res ?e < 0"
      | (skip) "cqe_user_data ?e = LIBURING_UDATA_TIMEOUT" "\<not> cqe_res ?e < 0" by blast
    then show ?thesis
    proof cases
      case user
      with False "1.prems" L show ?thesis
        by (auto simp: unfold Let_def peek_result_def internal_timeout_def)
    next
      case failed
      with False "1.prems" adv L show ?thesis
        by (auto simp: unfold Let_def peek_result_def internal_timeout_def)
    next
      case skip
      have dw: "dropWhile internal_timeout (cq_pending ?cq) =
          dropWhile internal_timeout (cq_pending (ring_cq (io_uring_cq_advance ring 1)))"
        using skip by (simp add: L internal_timeout_def adv)
      have "io_uring_peek_cqe_internal (io_uring_cq_advance ring 1) = (ring', cqe, nr, err)"
        using skip False "1.prems" by (simp add: unfold Let_def)
      with "1.IH" [OF refl refl False refl refl skip] dw adv(2) show ?thesis
        by (simp add: peek_result_def)
    qed
  qed
qed

lemma peek_no_syscall:
  assumes "\<not> cq_ring_needs_flush ring"
    and "io_uring_peek_cqe_internal ring = (ring', cqe, nr, err)"
  shows "io_uring_peek_cqe enter ring w =
     Some (if err \<noteq> 0 then err else if cqe = None then - EAGAIN else 0, cqe, ring', w)"
proof -
  have "\<not> cq_ring_needs_flush ring'"
    using assms peek_internal_result [OF assms(2)] by (simp add: cq_ring_needs_flush_def)
  with assms(2) show ?thesis
    by (simp add: io_uring_peek_cqe_def io_uring_wait_cqe_nr_def io_uring_get_cqe_def
        io_uring_get_cqe_data_def get_cqe_loop.simps Let_def)
qed

text \<open>
  A ring of two completion slots whose head is about to wrap around, with the given number of
  completions pending; the witnesses run on it.
\<close>

definition wrapping_ring :: "u32 \<Rightarrow> io_uring_cqe list \<Rightarrow> io_uring" where
  "wrapping_ring tail cqes = \<lparr>ring_sq = wrapping_sq,
     ring_cq = \<lparr>cq_khead = - 1, cq_ktail = tail, cq_kring_mask = 1, cq_kring_entries = 2,
       cq_kflags = None, cq_koverflow = 0, cq_cqes = cqes, cq_ring_sz = 0, cq_ring_ptr = 0\<rparr>,
     ring_flags = 0, ring_fd = 3, ring_features = 0\<rparr>"

definition example_cqe :: "u64 \<Rightarrow> int \<Rightarrow> io_uring_cqe" where
  "example_cqe tag res = \<lparr>cqe_user_data = tag, cqe_res = res, cqe_flags = 0\<rparr>"

lemmas wrapping_ring_simps = wrapping_ring_def wrapping_sq_def example_cqe_def cq_inv_def
  ring_size_def mask_eq_exp_minus_1 cq_ring_needs_flush_def uring_flag_defs

lemma wrapping_ring_sel [simp]:
  "ring_flags (wrapping_ring t cqes) = 0" "cq_cqes (ring_cq (wrapping_ring t cqes)) = cqes"
  "cqe_user_data (example_cqe tag res) = tag" "cqe_res (example_cqe tag res) = res"
  by (simp_all add: wrapping_ring_def example_cqe_def)

lemma wrapping_ring_pending_0: "cq_pending (ring_cq (wrapping_ring (- 1) cqes)) = []"
  by (simp add: cq_pending_def wrapping_ring_def)

lemma wrapping_ring_pending_1: "cq_pending (ring_cq (wrapping_ring 0 [a, b])) = [b]"
  by (simp add: cq_pending_def wrapping_ring_def ring_list_def slot_def)

text \<open>
  C15. \<open>io_uring_peek_cqe\<close> on a ring with no overflown completions always returns, never enters
  the kernel, and reports exactly the first application completion: 0 and the slot that holds
  it (which stays pending), \<open>-EAGAIN\<close> when there is none, or the result of a failed internal
  timeout, which it consumes. Completions of the library's own timeouts never reach the caller.
\<close>

theorem io_uring_peek_cqe_correct:
  assumes "\<not> cq_ring_needs_flush ring" "cq_inv n (ring_cq ring)"
  shows "\<exists>err cqe ring'. io_uring_peek_cqe enter ring w = Some (err, cqe, ring', w) \<and>
     cq_inv n (ring_cq ring') \<and> ring_sq ring' = ring_sq ring \<and>
     (case dropWhile internal_timeout (cq_pending (ring_cq ring)) of
        [] \<Rightarrow> err = - EAGAIN \<and> cqe = None \<and> cq_pending (ring_cq ring') = []
      | e # es \<Rightarrow>
          if cqe_user_data e = LIBURING_UDATA_TIMEOUT
          then err = cqe_res e \<and> err < 0 \<and> cqe = None \<and> cq_pending (ring_cq ring') = es
          else err = 0 \<and> (\<exists>i. cqe = Some i \<and> cq_cqes (ring_cq ring') ! i = e) \<and>
               cq_pending (ring_cq ring') = e # es)"
proof -
  obtain ring' cqe nr err where p: "io_uring_peek_cqe_internal ring = (ring', cqe, nr, err)"
    by (metis prod_cases4)
  note res = peek_internal_result [OF p, of n] and eq = peek_no_syscall [OF assms(1) p, of enter w]
  show ?thesis
  proof (cases "dropWhile internal_timeout (cq_pending (ring_cq ring))")
    case Nil
    with res eq assms(2) show ?thesis by (auto simp: peek_result_def simp del: dropWhile_eq_Nil_conv)
  next
    case (Cons e es)
    with res eq assms(2) show ?thesis
      by (cases "cqe_user_data e = LIBURING_UDATA_TIMEOUT") (auto simp: peek_result_def)
  qed
qed

theorem io_uring_peek_cqe_correct_witness:
  "\<exists>i ring'. io_uring_peek_cqe (\<lambda>_ _ _ _ _ _ r w. (0, 0, r, w))
       (wrapping_ring 0 [example_cqe 1 0, example_cqe 8 4096]) (5 :: nat) = Some (0, Some i, ring', 5) \<and>
     cq_cqes (ring_cq ring') ! i = example_cqe 8 4096"
proof -
  let ?r = "wrapping_ring 0 [example_cqe 1 0, example_cqe 8 4096]"
  have "\<not> cq_ring_needs_flush ?r" "cq_inv 1 (ring_cq ?r)" by (simp_all add: wrapping_ring_simps)
  from io_uring_peek_cqe_correct [OF this, of "\<lambda>_ _ _ _ _ _ r w. (0, 0, r, w)" 5]
  show ?thesis
    by (auto simp: wrapping_ring_pending_1 internal_timeout_def LIBURING_UDATA_TIMEOUT_def)
qed

text \<open>
  C19. \<open>io_uring_wait_cqe\<close> returns the completion it waited for: when nothing is pending, it
  enters the kernel once with \<open>min_complete = 1\<close> and \<open>IORING_ENTER_GETEVENTS\<close>, and if that call
  reports success with an application completion posted, it returns 0 with that completion.
\<close>

theorem io_uring_wait_cqe_returns:
  assumes "cq_pending (ring_cq ring) = []"
    and "enter (ring_fd ring) 0 1 IORING_ENTER_GETEVENTS 0 8 ring w = (0, e, ring1, w1)"
    and "ring_flags ring1 AND IORING_SETUP_IOPOLL = 0"
    and "dropWhile internal_timeout (cq_pending (ring_cq ring1)) = c # cs"
    and "cqe_user_data c \<noteq> LIBURING_UDATA_TIMEOUT"
  shows "\<exists>i ring2. io_uring_wait_cqe enter ring w = Some (0, Some i, ring2, w1) \<and>
     cq_cqes (ring_cq ring2) ! i = c \<and> cq_pending (ring_cq ring2) = c # cs"
proof -
  have "cq_ktail (ring_cq ring) - cq_khead (ring_cq ring) = 0"
    using assms(1) cq_pending_Nil by blast
  then have first: "io_uring_peek_cqe_internal ring = (ring, None, 0, 0)"
    by (simp add: io_uring_peek_cqe_internal.simps [of ring])
  obtain ring2 cqe nr err where p: "io_uring_peek_cqe_internal ring1 = (ring2, cqe, nr, err)"
    by (metis prod_cases4)
  obtain i where i: "cqe = Some i" "cq_cqes (ring_cq ring2) ! i = c" "err = 0"
    "cq_pending (ring_cq ring2) = c # cs"
    using peek_internal_result [OF p] assms(4,5) by (auto simp: peek_result_def)
  have flags: "ring_flags ring2 = ring_flags ring1" using peek_internal_result [OF p] by simp
  have one: "sint (1 :: u32) = 1" by simp
  have "get_cqe_loop enter 1 0 \<lparr>gd_submit = 0, gd_wait_nr = 0, gd_get_flags = 0, gd_sz = 8,
      gd_arg = 0\<rparr> ring1 w1 = Some (0, Some i, ring2, w1)"
    using p i flags assms(3) by (subst get_cqe_loop.simps) (simp add: Let_def)
  then have "io_uring_wait_cqe enter ring w = Some (0, Some i, ring2, w1)"
    using first assms(2,3)
    unfolding io_uring_wait_cqe_def io_uring_wait_cqe_nr_def io_uring_get_cqe_def io_uring_get_cqe_data_def
    by (subst get_cqe_loop.simps) (simp add: Let_def one)
  with i show ?thesis by blast
qed

theorem io_uring_wait_cqe_returns_witness:
  "\<exists>i ring2. io_uring_wait_cqe
       (\<lambda>_ _ _ _ _ _ r w. (0, 0, wrapping_ring 0 [example_cqe 1 0, example_cqe 8 4096], Suc w))
       (wrapping_ring (- 1) [example_cqe 1 0, example_cqe 1 0]) 6 = Some (0, Some i, ring2, 7) \<and>
     cq_cqes (ring_cq ring2) ! i = example_cqe 8 4096"
proof -
  let ?enter = "\<lambda>_ _ _ _ _ _ r w. (0, 0, wrapping_ring 0 [example_cqe 1 0, example_cqe 8 4096], Suc w)"
  let ?r = "wrapping_ring (- 1) [example_cqe 1 0, example_cqe 1 0]"
  have "\<exists>i ring2. io_uring_wait_cqe ?enter ?r 6 = Some (0, Some i, ring2, Suc 6) \<and>
     cq_cqes (ring_cq ring2) ! i = example_cqe 8 4096 \<and>
     cq_pending (ring_cq ring2) = [example_cqe 8 4096]"
    by (rule io_uring_wait_cqe_returns [where e = 0 and ?ring1.0 =
          "wrapping_ring 0 [example_cqe 1 0, example_cqe 8 4096]"])
      (simp_all add: wrapping_ring_pending_0 wrapping_ring_pending_1 internal_timeout_def
        LIBURING_UDATA_TIMEOUT_def)
  then show ?thesis by auto
qed

lemma fill_cqes_eq: "fill_cqes m h (h + k) = map (\<lambda>i. slot m (h + of_nat i)) [0..<unat k]"
proof (induction "unat k" arbitrary: h k)
  case 0
  then have "k = 0" by (simp add: unat_eq_0)
  then show ?case by (simp add: fill_cqes.simps)
next
  case (Suc j)
  then have k0: "k \<noteq> 0" by auto
  then have kj: "unat (k - 1) = j" using Suc(2) by (simp add: unat_minus_one)
  have "fill_cqes m h (h + k) = slot m h # fill_cqes m (h + 1) ((h + 1) + (k - 1))"
    using k0 by (subst fill_cqes.simps) simp
  also have "\<dots> = slot m h # map (\<lambda>i. slot m (h + 1 + of_nat i)) [0..<j]"
    using Suc(1) [of "k - 1" "h + 1"] kj by simp
  also have "\<dots> = map (\<lambda>i. slot m (h + of_nat i)) [0..<Suc j]"
    by (simp add: upt_conv_Cons map_Suc_upt [symmetric] algebra_simps del: upt_Suc)
  finally show ?case using Suc(2) by simp
qed

text \<open>
  C20. \<open>io_uring_peek_batch_cqe\<close> hands out the first \<open>min count ready\<close> completions in order,
  without consuming them, when any are ready; it enters the kernel only for an empty ring with
  the overflow flag set.
\<close>

theorem io_uring_peek_batch_correct:
  assumes "cq_pending (ring_cq ring) \<noteq> []"
  shows "\<exists>slots. io_uring_peek_batch_cqe enter ring count w = (slots, ring, w) \<and>
     map (\<lambda>i. cq_cqes (ring_cq ring) ! i) slots =
       take (unat count) (cq_pending (ring_cq ring))"
proof -
  let ?cq = "ring_cq ring" and ?ready = "io_uring_cq_ready ring"
  let ?k = "if count > ?ready then ?ready else count"
  have r: "?ready \<noteq> 0" "length (cq_pending ?cq) = unat ?ready"
    using assms cq_pending_Nil [of ?cq] by (auto simp: io_uring_cq_ready_def)
  have k: "unat ?k = min (unat count) (unat ?ready)"
    by (auto simp: word_less_nat_alt)
  have "map ((!) (cq_cqes ?cq)) (fill_cqes (cq_kring_mask ?cq) (cq_khead ?cq) (cq_khead ?cq + ?k)) =
      take (unat count) (cq_pending ?cq)"
    unfolding fill_cqes_eq k
    by (rule nth_equalityI) (auto simp: io_uring_cq_ready_def cq_pending_nth)
  with r(1) show ?thesis
    by (simp add: io_uring_peek_batch_cqe_def peek_batch_ready_def Let_def)
qed

theorem io_uring_peek_batch_correct_witness:
  "\<exists>slots. io_uring_peek_batch_cqe (\<lambda>_ _ _ _ _ _ r w. (0, 0, r, w))
       (wrapping_ring 0 [example_cqe 1 0, example_cqe 8 4096]) 2 (5 :: nat) =
       (slots, wrapping_ring 0 [example_cqe 1 0, example_cqe 8 4096], 5) \<and>
     map (\<lambda>i. [example_cqe 1 0, example_cqe 8 4096] ! i) slots = [example_cqe 8 4096]"
  using io_uring_peek_batch_correct [of "wrapping_ring 0 [example_cqe 1 0, example_cqe 8 4096]"
      "\<lambda>_ _ _ _ _ _ r w. (0, 0, r, w)" 2 "5 :: nat"]
  by (simp add: wrapping_ring_pending_1)

section \<open>The contract of the completion queue\<close>

text \<open>
  What a completion queue promises the thread that reaps it: posting appends while there is
  room, peeking shows the oldest completion without removing it, and marking it seen removes
  it. \<open>drain\<close> is the reaping loop: peek, process, mark as seen, until nothing is left.
\<close>

primrec drain :: "('q \<Rightarrow> 'e option \<times> 'q) \<Rightarrow> ('q \<Rightarrow> 'q) \<Rightarrow> nat \<Rightarrow> 'q \<Rightarrow> 'e list \<times> 'q" where
  "drain peek seen 0 q = ([], q)"
| "drain peek seen (Suc fuel) q =
     (case peek q of
        (None, q') \<Rightarrow> ([], q')
      | (Some e, q') \<Rightarrow> (case drain peek seen fuel (seen q') of (es, q'') \<Rightarrow> (e # es, q'')))"

locale completion_queue =
  fixes post :: "'q \<Rightarrow> 'e \<Rightarrow> 'q option"
    and peek :: "'q \<Rightarrow> 'e option \<times> 'q"
    and seen :: "'q \<Rightarrow> 'q"
    and pending :: "'q \<Rightarrow> 'e list"
    and cap :: nat
    and app :: "'e \<Rightarrow> bool"
    and inv :: "'q \<Rightarrow> bool"
  assumes pending_app: "inv q \<Longrightarrow> e \<in> set (pending q) \<Longrightarrow> app e"
    and post_None: "inv q \<Longrightarrow> post q e = None \<longleftrightarrow> length (pending q) = cap"
    and pending_cap: "inv q \<Longrightarrow> length (pending q) \<le> cap"
    and post_inv: "inv q \<Longrightarrow> app e \<Longrightarrow> post q e = Some q' \<Longrightarrow> inv q'"
    and post_pending: "inv q \<Longrightarrow> app e \<Longrightarrow> post q e = Some q' \<Longrightarrow> pending q' = pending q @ [e]"
    and peek_Nil: "inv q \<Longrightarrow> pending q = [] \<Longrightarrow> peek q = (None, q)"
    and peek_Cons: "inv q \<Longrightarrow> pending q = e # es \<Longrightarrow> peek q = (Some e, q)"
    and seen_inv: "inv q \<Longrightarrow> pending q \<noteq> [] \<Longrightarrow> inv (seen q)"
    and seen_pending: "inv q \<Longrightarrow> pending q \<noteq> [] \<Longrightarrow> pending (seen q) = tl (pending q)"
begin

lemma drain_all:
  "inv q \<Longrightarrow> length (pending q) < fuel \<Longrightarrow>
     \<exists>q'. drain peek seen fuel q = (pending q, q') \<and> inv q' \<and> pending q' = []"
proof (induction fuel arbitrary: q)
  case 0
  then show ?case by simp
next
  case (Suc fuel)
  show ?case
  proof (cases "pending q")
    case Nil
    then show ?thesis using Suc.prems peek_Nil [of q] by simp
  next
    case (Cons e es)
    then have "inv (seen q)" "pending (seen q) = es"
      using Suc.prems seen_inv [of q] seen_pending [of q] by auto
    with Suc.IH [of "seen q"] Suc.prems Cons peek_Cons [of q] show ?thesis by auto
  qed
qed

lemma post_all_pending:
  "inv q \<Longrightarrow> \<forall>e \<in> set es. app e \<Longrightarrow> length (pending q) + length es \<le> cap \<Longrightarrow>
     \<exists>q'. put_all post q es = Some q' \<and> inv q' \<and> pending q' = pending q @ es"
proof (induction es arbitrary: q)
  case Nil
  then show ?case by simp
next
  case (Cons e es)
  then have "post q e \<noteq> None" using post_None [of q e] by simp
  then obtain q1 where "post q e = Some q1" by blast
  with Cons.prems Cons.IH [of q1] post_inv [of q e q1] post_pending [of q e q1] show ?case by auto
qed

end

text \<open>The instance of the code: the kernel's post, the library's peek and \<open>io_uring_cqe_seen\<close>.\<close>

definition app_cqe :: "io_uring_cqe \<Rightarrow> bool" where
  "app_cqe e \<longleftrightarrow> cqe_user_data e \<noteq> LIBURING_UDATA_TIMEOUT"

definition ring_post :: "io_uring \<Rightarrow> io_uring_cqe \<Rightarrow> io_uring option" where
  "ring_post ring e = map_option (\<lambda>cq. ring\<lparr>ring_cq := cq\<rparr>) (cq_post (ring_cq ring) e)"

definition ring_peek :: "io_uring \<Rightarrow> io_uring_cqe option \<times> io_uring" where
  "ring_peek ring = (case io_uring_peek_cqe_internal ring of (ring', cqe, _, _) \<Rightarrow>
     (map_option (\<lambda>i. cq_cqes (ring_cq ring') ! i) cqe, ring'))"

definition ring_seen :: "io_uring \<Rightarrow> io_uring" where
  "ring_seen ring = io_uring_cqe_seen ring (Some (slot (cq_kring_mask (ring_cq ring)) (cq_khead (ring_cq ring))))"

definition cq_app_inv :: "nat \<Rightarrow> io_uring \<Rightarrow> bool" where
  "cq_app_inv n ring \<longleftrightarrow> cq_inv n (ring_cq ring) \<and> list_all app_cqe (cq_pending (ring_cq ring))"

lemma cq_post_pending:
  assumes "cq_inv n cq" "cq_post cq e = Some cq'"
  shows "cq_inv n cq'" "cq_pending cq' = cq_pending cq @ [e]"
proof -
  let ?k = "unat (cq_ktail cq - cq_khead cq)"
  have r: "ring_size n (cq_kring_entries cq) (cq_kring_mask cq)" and le: "?k \<le> 2 ^ n"
    and len: "length (cq_cqes cq) = 2 ^ n"
    using assms(1) by (auto simp: cq_inv_def)
  have k: "?k < 2 ^ n" and cq': "cq' = cq\<lparr>cq_cqes := (cq_cqes cq)[slot (cq_kring_mask cq) (cq_ktail cq) := e],
      cq_ktail := cq_ktail cq + 1\<rparr>"
    using assms(2) by (auto simp: cq_post_def ring_size_unat [OF r] split: if_splits)
  have d: "unat (cq_ktail cq + 1 - cq_khead cq) = Suc ?k"
    by (rule dist_Suc [OF ring_count_lt [OF r le]])
  show "cq_inv n cq'" using r k len d by (simp add: cq_inv_def cq')
  show "cq_pending cq' = cq_pending cq @ [e]"
    using ring_list_push [OF r k len, of "cq_khead cq" e] d by (simp add: cq_pending_def cq')
qed

lemma ring_peek_app:
  assumes "list_all app_cqe (cq_pending (ring_cq ring))"
  shows "ring_peek ring =
     (case cq_pending (ring_cq ring) of [] \<Rightarrow> (None, ring) | e # es \<Rightarrow> (Some e, ring))"
proof (cases "cq_ktail (ring_cq ring) - cq_khead (ring_cq ring) = 0")
  case True
  then show ?thesis
    using cq_pending_Nil [of "ring_cq ring"]
    by (simp add: ring_peek_def io_uring_peek_cqe_internal.simps [of ring])
next
  case False
  then obtain es where L: "cq_pending (ring_cq ring) =
      cq_cqes (ring_cq ring) ! slot (cq_kring_mask (ring_cq ring)) (cq_khead (ring_cq ring)) # es"
    using cq_pending_hd cq_pending_Nil by (metis list.collapse)
  with False assms show ?thesis
    by (simp add: ring_peek_def io_uring_peek_cqe_internal.simps [of ring] Let_def app_cqe_def)
qed

interpretation liburing_cq: completion_queue
  ring_post ring_peek ring_seen "\<lambda>ring. cq_pending (ring_cq ring)" "2 ^ n" app_cqe "cq_app_inv n" for n
proof (unfold_locales, goal_cases)
  case (1 q e)
  then show ?case by (simp add: cq_app_inv_def list_all_iff)
next
  case (2 q e)
  then show ?case
    by (auto simp: cq_app_inv_def cq_inv_def ring_post_def cq_post_def ring_size_unat)
next
  case (3 q)
  then show ?case by (simp add: cq_app_inv_def cq_inv_def)
next
  case (4 q e q')
  then show ?case
    by (auto simp: cq_app_inv_def ring_post_def dest: cq_post_pending)
next
  case (5 q e q')
  then show ?case
    by (auto simp: cq_app_inv_def ring_post_def dest: cq_post_pending)
next
  case (6 q)
  then show ?case by (simp add: cq_app_inv_def ring_peek_app)
next
  case (7 q e es)
  then show ?case by (simp add: cq_app_inv_def ring_peek_app)
next
  case (8 q)
  then show ?case
    using cq_advance_1 [of q] cq_pending_Nil [of "ring_cq q"]
    by (auto simp: cq_app_inv_def ring_seen_def io_uring_cqe_seen_def list_all_iff
        dest: list.set_sel(2))
next
  case (9 q)
  then show ?case
    using cq_advance_1(1) [of q] cq_pending_Nil [of "ring_cq q"]
    by (simp add: ring_seen_def io_uring_cqe_seen_def)
qed

text \<open>
  C14. No completion is lost, duplicated or reordered: whatever application completions the
  kernel posts while there is room, the reaping loop of peek and \<open>io_uring_cqe_seen\<close> returns
  those already pending followed by the posted ones, in order, and leaves the queue empty.
\<close>

theorem completions_in_order:
  assumes "cq_app_inv n ring" "list_all app_cqe es"
    and "length (cq_pending (ring_cq ring)) + length es \<le> 2 ^ n" "2 ^ n < fuel"
  shows "\<exists>ring1 ring2. put_all ring_post ring es = Some ring1 \<and>
     drain ring_peek ring_seen fuel ring1 = (cq_pending (ring_cq ring) @ es, ring2) \<and>
     cq_pending (ring_cq ring2) = [] \<and> cq_app_inv n ring2"
proof -
  obtain ring1 where r1: "put_all ring_post ring es = Some ring1" "cq_app_inv n ring1"
    "cq_pending (ring_cq ring1) = cq_pending (ring_cq ring) @ es"
    using liburing_cq.post_all_pending [of n ring es] assms by (auto simp: list_all_iff)
  then show ?thesis
    using liburing_cq.drain_all [OF r1(2), of fuel] assms(3,4) by auto
qed

theorem completions_in_order_witness:
  "\<exists>ring1 ring2. put_all ring_post (wrapping_ring 0 [example_cqe 1 0, example_cqe 8 4096])
       [example_cqe 9 (- 5)] = Some ring1 \<and>
     drain ring_peek ring_seen 3 ring1 = ([example_cqe 8 4096, example_cqe 9 (- 5)], ring2)"
proof -
  let ?r = "wrapping_ring 0 [example_cqe 1 0, example_cqe 8 4096]"
  have "cq_inv 1 (ring_cq ?r)" by (simp add: wrapping_ring_simps)
  then have "cq_app_inv 1 ?r" "list_all app_cqe [example_cqe 9 (- 5)]"
    by (simp_all add: cq_app_inv_def wrapping_ring_pending_1 app_cqe_def LIBURING_UDATA_TIMEOUT_def)
  from completions_in_order [OF this, of 3] show ?thesis
    by (auto simp: wrapping_ring_pending_1)
qed

end
