(* ===== verification/Uring_Prep.thy ===== *)
theory Uring_Prep
  imports Uring_Types
begin

text \<open>
  The command preparation helpers of \<open>liburing/src/include/liburing.h\<close>: each takes the
  entry it fills and returns it filled. Pointers are 64-bit addresses; an \<open>off_t\<close> or \<open>int\<close>
  stored into an unsigned field is converted by \<open>word_of_int\<close>. The helpers of a little-endian
  host are modelled (the \<open>__BIG_ENDIAN\<close> word swap of \<open>io_uring_prep_poll_add\<close> is not compiled
  there).

  The lemmas show that a helper leaves nothing of the entry it is given: ring slots are
  recycled without clearing, so a stale flag, buffer index or user pointer would leak from an
  older request into the new one.
\<close>

definition io_uring_sqe_set_data :: "io_uring_sqe \<Rightarrow> u64 \<Rightarrow> io_uring_sqe" where
  "io_uring_sqe_set_data sqe data = sqe\<lparr>sqe_user_data := data\<rparr>"

definition io_uring_cqe_get_data :: "io_uring_cqe \<Rightarrow> u64" where
  "io_uring_cqe_get_data cqe = cqe_user_data cqe"

definition io_uring_sqe_set_flags :: "io_uring_sqe \<Rightarrow> u32 \<Rightarrow> io_uring_sqe" where
  "io_uring_sqe_set_flags sqe flags = sqe\<lparr>sqe_flags := ucast flags\<rparr>"

definition io_uring_prep_rw ::
  "int \<Rightarrow> io_uring_sqe \<Rightarrow> int \<Rightarrow> u64 \<Rightarrow> u32 \<Rightarrow> u64 \<Rightarrow> io_uring_sqe" where
  "io_uring_prep_rw op sqe fd addr len offset =
     sqe\<lparr>sqe_opcode := word_of_int op, sqe_flags := 0, sqe_ioprio := 0, sqe_fd := fd,
         sqe_off := offset, sqe_addr := addr, sqe_len := len, sqe_op_flags := 0,
         sqe_user_data := 0,
         sqe_buf_index := 0, sqe_personality := 0, sqe_splice_fd_in := 0,
         sqe_pad2_1 := 0, sqe_pad2_2 := 0\<rparr>"

definition io_uring_prep_splice :: "io_uring_sqe \<Rightarrow> int \<Rightarrow> int \<Rightarrow> int \<Rightarrow> int \<Rightarrow> u32 \<Rightarrow> u32 \<Rightarrow> io_uring_sqe" where
  "io_uring_prep_splice sqe fd_in off_in fd_out off_out nbytes splice_flags =
     (io_uring_prep_rw (op_code IORING_OP_SPLICE) sqe fd_out 0 nbytes (word_of_int off_out))
       \<lparr>sqe_addr := word_of_int off_in, sqe_splice_fd_in := fd_in, sqe_op_flags := splice_flags\<rparr>"

definition io_uring_prep_tee :: "io_uring_sqe \<Rightarrow> int \<Rightarrow> int \<Rightarrow> u32 \<Rightarrow> u32 \<Rightarrow> io_uring_sqe" where
  "io_uring_prep_tee sqe fd_in fd_out nbytes splice_flags =
     (io_uring_prep_rw (op_code IORING_OP_TEE) sqe fd_out 0 nbytes 0)
       \<lparr>sqe_addr := 0, sqe_splice_fd_in := fd_in, sqe_op_flags := splice_flags\<rparr>"

definition io_uring_prep_readv :: "io_uring_sqe \<Rightarrow> int \<Rightarrow> u64 \<Rightarrow> u32 \<Rightarrow> int \<Rightarrow> io_uring_sqe" where
  "io_uring_prep_readv sqe fd iovecs nr_vecs offset =
     io_uring_prep_rw (op_code IORING_OP_READV) sqe fd iovecs nr_vecs (word_of_int offset)"

definition io_uring_prep_read_fixed :: "io_uring_sqe \<Rightarrow> int \<Rightarrow> u64 \<Rightarrow> u32 \<Rightarrow> int \<Rightarrow> int \<Rightarrow> io_uring_sqe" where
  "io_uring_prep_read_fixed sqe fd buf nbytes offset buf_index =
     (io_uring_prep_rw (op_code IORING_OP_READ_FIXED) sqe fd buf nbytes (word_of_int offset))
       \<lparr>sqe_buf_index := word_of_int buf_index\<rparr>"

definition io_uring_prep_writev :: "io_uring_sqe \<Rightarrow> int \<Rightarrow> u64 \<Rightarrow> u32 \<Rightarrow> int \<Rightarrow> io_uring_sqe" where
  "io_uring_prep_writev sqe fd iovecs nr_vecs offset =
     io_uring_prep_rw (op_code IORING_OP_WRITEV) sqe fd iovecs nr_vecs (word_of_int offset)"

definition io_uring_prep_write_fixed :: "io_uring_sqe \<Rightarrow> int \<Rightarrow> u64 \<Rightarrow> u32 \<Rightarrow> int \<Rightarrow> int \<Rightarrow> io_uring_sqe" where
  "io_uring_prep_write_fixed sqe fd buf nbytes offset buf_index =
     (io_uring_prep_rw (op_code IORING_OP_WRITE_FIXED) sqe fd buf nbytes (word_of_int offset))
       \<lparr>sqe_buf_index := word_of_int buf_index\<rparr>"

definition io_uring_prep_recvmsg :: "io_uring_sqe \<Rightarrow> int \<Rightarrow> u64 \<Rightarrow> u32 \<Rightarrow> io_uring_sqe" where
  "io_uring_prep_recvmsg sqe fd msg flags =
     (io_uring_prep_rw (op_code IORING_OP_RECVMSG) sqe fd msg 1 0)
       \<lparr>sqe_op_flags := flags\<rparr>"

definition io_uring_prep_sendmsg :: "io_uring_sqe \<Rightarrow> int \<Rightarrow> u64 \<Rightarrow> u32 \<Rightarrow> io_uring_sqe" where
  "io_uring_prep_sendmsg sqe fd msg flags =
     (io_uring_prep_rw (op_code IORING_OP_SENDMSG) sqe fd msg 1 0)
       \<lparr>sqe_op_flags := flags\<rparr>"

definition io_uring_prep_poll_add :: "io_uring_sqe \<Rightarrow> int \<Rightarrow> u32 \<Rightarrow> io_uring_sqe" where
  "io_uring_prep_poll_add sqe fd poll_mask =
     (io_uring_prep_rw (op_code IORING_OP_POLL_ADD) sqe fd 0 0 0)
       \<lparr>sqe_op_flags := poll_mask\<rparr>"

definition io_uring_prep_poll_remove :: "io_uring_sqe \<Rightarrow> u64 \<Rightarrow> io_uring_sqe" where
  "io_uring_prep_poll_remove sqe user_data =
     io_uring_prep_rw (op_code IORING_OP_POLL_REMOVE) sqe (- 1) user_data 0 0"

definition io_uring_prep_fsync :: "io_uring_sqe \<Rightarrow> int \<Rightarrow> u32 \<Rightarrow> io_uring_sqe" where
  "io_uring_prep_fsync sqe fd fsync_flags =
     (io_uring_prep_rw (op_code IORING_OP_FSYNC) sqe fd 0 0 0)
       \<lparr>sqe_op_flags := fsync_flags\<rparr>"

definition io_uring_prep_nop :: "io_uring_sqe \<Rightarrow> io_uring_sqe" where
  "io_uring_prep_nop sqe =
     io_uring_prep_rw (op_code IORING_OP_NOP) sqe (- 1) 0 0 0"

definition io_uring_prep_timeout :: "io_uring_sqe \<Rightarrow> u64 \<Rightarrow> u32 \<Rightarrow> u32 \<Rightarrow> io_uring_sqe" where
  "io_uring_prep_timeout sqe ts count flags =
     (io_uring_prep_rw (op_code IORING_OP_TIMEOUT) sqe (- 1) ts 1 (ucast count))
       \<lparr>sqe_op_flags := flags\<rparr>"

definition io_uring_prep_timeout_remove :: "io_uring_sqe \<Rightarrow> u64 \<Rightarrow> u32 \<Rightarrow> io_uring_sqe" where
  "io_uring_prep_timeout_remove sqe user_data flags =
     (io_uring_prep_rw (op_code IORING_OP_TIMEOUT_REMOVE) sqe (- 1) user_data 0 0)
       \<lparr>sqe_op_flags := flags\<rparr>"

definition io_uring_prep_timeout_update :: "io_uring_sqe \<Rightarrow> u64 \<Rightarrow> u64 \<Rightarrow> u32 \<Rightarrow> io_uring_sqe" where
  "io_uring_prep_timeout_update sqe ts user_data flags =
     (io_uring_prep_rw (op_code IORING_OP_TIMEOUT_REMOVE) sqe (- 1) user_data 0 ts)
       \<lparr>sqe_op_flags := flags OR IORING_TIMEOUT_UPDATE\<rparr>"

definition io_uring_prep_accept :: "io_uring_sqe \<Rightarrow> int \<Rightarrow> u64 \<Rightarrow> u64 \<Rightarrow> int \<Rightarrow> io_uring_sqe" where
  "io_uring_prep_accept sqe fd addr addrlen flags =
     (io_uring_prep_rw (op_code IORING_OP_ACCEPT) sqe fd addr 0 addrlen)
       \<lparr>sqe_op_flags := word_of_int flags\<rparr>"

definition io_uring_prep_cancel :: "io_uring_sqe \<Rightarrow> u64 \<Rightarrow> int \<Rightarrow> io_uring_sqe" where
  "io_uring_prep_cancel sqe user_data flags =
     (io_uring_prep_rw (op_code IORING_OP_ASYNC_CANCEL) sqe (- 1) user_data 0 0)
       \<lparr>sqe_op_flags := word_of_int flags\<rparr>"

definition io_uring_prep_link_timeout :: "io_uring_sqe \<Rightarrow> u64 \<Rightarrow> u32 \<Rightarrow> io_uring_sqe" where
  "io_uring_prep_link_timeout sqe ts flags =
     (io_uring_prep_rw (op_code IORING_OP_LINK_TIMEOUT) sqe (- 1) ts 1 0)
       \<lparr>sqe_op_flags := flags\<rparr>"

definition io_uring_prep_connect :: "io_uring_sqe \<Rightarrow> int \<Rightarrow> u64 \<Rightarrow> u32 \<Rightarrow> io_uring_sqe" where
  "io_uring_prep_connect sqe fd addr addrlen =
     io_uring_prep_rw (op_code IORING_OP_CONNECT) sqe fd addr 0 (ucast addrlen)"

definition io_uring_prep_files_update :: "io_uring_sqe \<Rightarrow> u64 \<Rightarrow> u32 \<Rightarrow> int \<Rightarrow> io_uring_sqe" where
  "io_uring_prep_files_update sqe fds nr_fds offset =
     io_uring_prep_rw (op_code IORING_OP_FILES_UPDATE) sqe (- 1) fds nr_fds (word_of_int offset)"

definition io_uring_prep_fallocate :: "io_uring_sqe \<Rightarrow> int \<Rightarrow> int \<Rightarrow> int \<Rightarrow> int \<Rightarrow> io_uring_sqe" where
  "io_uring_prep_fallocate sqe fd mode offset len =
     io_uring_prep_rw (op_code IORING_OP_FALLOCATE) sqe fd (word_of_int len) (word_of_int mode) (word_of_int offset)"

definition io_uring_prep_openat :: "io_uring_sqe \<Rightarrow> int \<Rightarrow> u64 \<Rightarrow> int \<Rightarrow> u32 \<Rightarrow> io_uring_sqe" where
  "io_uring_prep_openat sqe dfd path flags mode =
     (io_uring_prep_rw (op_code IORING_OP_OPENAT) sqe dfd path mode 0)
       \<lparr>sqe_op_flags := word_of_int flags\<rparr>"

definition io_uring_prep_close :: "io_uring_sqe \<Rightarrow> int \<Rightarrow> io_uring_sqe" where
  "io_uring_prep_close sqe fd =
     io_uring_prep_rw (op_code IORING_OP_CLOSE) sqe fd 0 0 0"

definition io_uring_prep_read :: "io_uring_sqe \<Rightarrow> int \<Rightarrow> u64 \<Rightarrow> u32 \<Rightarrow> int \<Rightarrow> io_uring_sqe" where
  "io_uring_prep_read sqe fd buf nbytes offset =
     io_uring_prep_rw (op_code IORING_OP_READ) sqe fd buf nbytes (word_of_int offset)"

definition io_uring_prep_write :: "io_uring_sqe \<Rightarrow> int \<Rightarrow> u64 \<Rightarrow> u32 \<Rightarrow> int \<Rightarrow> io_uring_sqe" where
  "io_uring_prep_write sqe fd buf nbytes offset =
     io_uring_prep_rw (op_code IORING_OP_WRITE) sqe fd buf nbytes (word_of_int offset)"

definition io_uring_prep_statx :: "io_uring_sqe \<Rightarrow> int \<Rightarrow> u64 \<Rightarrow> int \<Rightarrow> u32 \<Rightarrow> u64 \<Rightarrow> io_uring_sqe" where
  "io_uring_prep_statx sqe dfd path flags stx_mask statxbuf =
     (io_uring_prep_rw (op_code IORING_OP_STATX) sqe dfd path stx_mask statxbuf)
       \<lparr>sqe_op_flags := word_of_int flags\<rparr>"

definition io_uring_prep_fadvise :: "io_uring_sqe \<Rightarrow> int \<Rightarrow> int \<Rightarrow> int \<Rightarrow> int \<Rightarrow> io_uring_sqe" where
  "io_uring_prep_fadvise sqe fd offset len advice =
     (io_uring_prep_rw (op_code IORING_OP_FADVISE) sqe fd 0 (word_of_int len) (word_of_int offset))
       \<lparr>sqe_op_flags := word_of_int advice\<rparr>"

definition io_uring_prep_madvise :: "io_uring_sqe \<Rightarrow> u64 \<Rightarrow> int \<Rightarrow> int \<Rightarrow> io_uring_sqe" where
  "io_uring_prep_madvise sqe addr len advice =
     (io_uring_prep_rw (op_code IORING_OP_MADVISE) sqe (- 1) addr (word_of_int len) 0)
       \<lparr>sqe_op_flags := word_of_int advice\<rparr>"

definition io_uring_prep_send :: "io_uring_sqe \<Rightarrow> int \<Rightarrow> u64 \<Rightarrow> u64 \<Rightarrow> int \<Rightarrow> io_uring_sqe" where
  "io_uring_prep_send sqe sockfd buf len flags =
     (io_uring_prep_rw (op_code IORING_OP_SEND) sqe sockfd buf (ucast len) 0)
       \<lparr>sqe_op_flags := word_of_int flags\<rparr>"

definition io_uring_prep_recv :: "io_uring_sqe \<Rightarrow> int \<Rightarrow> u64 \<Rightarrow> u64 \<Rightarrow> int \<Rightarrow> io_uring_sqe" where
  "io_uring_prep_recv sqe sockfd buf len flags =
     (io_uring_prep_rw (op_code IORING_OP_RECV) sqe sockfd buf (ucast len) 0)
       \<lparr>sqe_op_flags := word_of_int flags\<rparr>"

text \<open>\<open>sizeof(struct open_how)\<close> is 24: three 64-bit members.\<close>

definition io_uring_prep_openat2 :: "io_uring_sqe \<Rightarrow> int \<Rightarrow> u64 \<Rightarrow> u64 \<Rightarrow> io_uring_sqe" where
  "io_uring_prep_openat2 sqe dfd path how =
     io_uring_prep_rw (op_code IORING_OP_OPENAT2) sqe dfd path 24 how"

definition io_uring_prep_epoll_ctl :: "io_uring_sqe \<Rightarrow> int \<Rightarrow> int \<Rightarrow> int \<Rightarrow> u64 \<Rightarrow> io_uring_sqe" where
  "io_uring_prep_epoll_ctl sqe epfd fd op ev =
     io_uring_prep_rw (op_code IORING_OP_EPOLL_CTL) sqe epfd ev (word_of_int op) (word_of_int fd)"

definition io_uring_prep_provide_buffers :: "io_uring_sqe \<Rightarrow> u64 \<Rightarrow> int \<Rightarrow> int \<Rightarrow> int \<Rightarrow> int \<Rightarrow> io_uring_sqe" where
  "io_uring_prep_provide_buffers sqe addr len nr bgid bid =
     (io_uring_prep_rw (op_code IORING_OP_PROVIDE_BUFFERS) sqe nr addr (word_of_int len) (word_of_int bid))
       \<lparr>sqe_buf_index := word_of_int bgid\<rparr>"

definition io_uring_prep_remove_buffers :: "io_uring_sqe \<Rightarrow> int \<Rightarrow> int \<Rightarrow> io_uring_sqe" where
  "io_uring_prep_remove_buffers sqe nr bgid =
     (io_uring_prep_rw (op_code IORING_OP_REMOVE_BUFFERS) sqe nr 0 0 0)
       \<lparr>sqe_buf_index := word_of_int bgid\<rparr>"

definition io_uring_prep_shutdown :: "io_uring_sqe \<Rightarrow> int \<Rightarrow> int \<Rightarrow> io_uring_sqe" where
  "io_uring_prep_shutdown sqe fd how =
     io_uring_prep_rw (op_code IORING_OP_SHUTDOWN) sqe fd 0 (word_of_int how) 0"

definition io_uring_prep_unlinkat :: "io_uring_sqe \<Rightarrow> int \<Rightarrow> u64 \<Rightarrow> int \<Rightarrow> io_uring_sqe" where
  "io_uring_prep_unlinkat sqe dfd path flags =
     (io_uring_prep_rw (op_code IORING_OP_UNLINKAT) sqe dfd path 0 0)
       \<lparr>sqe_op_flags := word_of_int flags\<rparr>"

definition io_uring_prep_renameat :: "io_uring_sqe \<Rightarrow> int \<Rightarrow> u64 \<Rightarrow> int \<Rightarrow> u64 \<Rightarrow> int \<Rightarrow> io_uring_sqe" where
  "io_uring_prep_renameat sqe olddfd oldpath newdfd newpath flags =
     (io_uring_prep_rw (op_code IORING_OP_RENAMEAT) sqe olddfd oldpath (word_of_int newdfd) newpath)
       \<lparr>sqe_op_flags := word_of_int flags\<rparr>"

lemmas io_uring_prep_defs = io_uring_prep_rw_def
  io_uring_prep_splice_def
  io_uring_prep_tee_def
  io_uring_prep_readv_def
  io_uring_prep_read_fixed_def
  io_uring_prep_writev_def
  io_uring_prep_write_fixed_def
  io_uring_prep_recvmsg_def
  io_uring_prep_sendmsg_def
  io_uring_prep_poll_add_def
  io_uring_prep_poll_remove_def
  io_uring_prep_fsync_def
  io_uring_prep_nop_def
  io_uring_prep_timeout_def
  io_uring_prep_timeout_remove_def
  io_uring_prep_timeout_update_def
  io_uring_prep_accept_def
  io_uring_prep_cancel_def
  io_uring_prep_link_timeout_def
  io_uring_prep_connect_def
  io_uring_prep_files_update_def
  io_uring_prep_fallocate_def
  io_uring_prep_openat_def
  io_uring_prep_close_def
  io_uring_prep_read_def
  io_uring_prep_write_def
  io_uring_prep_statx_def
  io_uring_prep_fadvise_def
  io_uring_prep_madvise_def
  io_uring_prep_send_def
  io_uring_prep_recv_def
  io_uring_prep_openat2_def
  io_uring_prep_epoll_ctl_def
  io_uring_prep_provide_buffers_def
  io_uring_prep_remove_buffers_def
  io_uring_prep_shutdown_def
  io_uring_prep_unlinkat_def
  io_uring_prep_renameat_def

text \<open>
  A record is determined by its fields, so two fillings agree when the fields do. The common
  helper \<open>io_uring_prep_rw\<close> already overwrites the whole entry; every other helper is a
  composition with it.
\<close>

lemma io_uring_prep_rw_overwrites:
  "io_uring_prep_rw op s fd addr len off = io_uring_prep_rw op s' fd addr len off"
  by (simp add: io_uring_prep_rw_def)

lemma io_uring_prep_rw_fields [simp]:
  "sqe_opcode (io_uring_prep_rw op s fd addr len off) = word_of_int op"
  "sqe_flags (io_uring_prep_rw op s fd addr len off) = 0"
  "sqe_fd (io_uring_prep_rw op s fd addr len off) = fd"
  "sqe_off (io_uring_prep_rw op s fd addr len off) = off"
  "sqe_addr (io_uring_prep_rw op s fd addr len off) = addr"
  "sqe_len (io_uring_prep_rw op s fd addr len off) = len"
  "sqe_user_data (io_uring_prep_rw op s fd addr len off) = 0"
  by (simp_all add: io_uring_prep_rw_def)

text \<open>
  C30. No preparation helper lets a field of the recycled entry through: for all 37 commands
  the filled entry is the same function of the arguments, whatever the entry held before.
\<close>

theorem prep_leaks_nothing:
  "io_uring_prep_splice s = io_uring_prep_splice s' \<and>
   io_uring_prep_tee s = io_uring_prep_tee s' \<and>
   io_uring_prep_readv s = io_uring_prep_readv s' \<and>
   io_uring_prep_read_fixed s = io_uring_prep_read_fixed s' \<and>
   io_uring_prep_writev s = io_uring_prep_writev s' \<and>
   io_uring_prep_write_fixed s = io_uring_prep_write_fixed s' \<and>
   io_uring_prep_recvmsg s = io_uring_prep_recvmsg s' \<and>
   io_uring_prep_sendmsg s = io_uring_prep_sendmsg s' \<and>
   io_uring_prep_poll_add s = io_uring_prep_poll_add s' \<and>
   io_uring_prep_poll_remove s = io_uring_prep_poll_remove s' \<and>
   io_uring_prep_fsync s = io_uring_prep_fsync s' \<and>
   io_uring_prep_nop s = io_uring_prep_nop s' \<and>
   io_uring_prep_timeout s = io_uring_prep_timeout s' \<and>
   io_uring_prep_timeout_remove s = io_uring_prep_timeout_remove s' \<and>
   io_uring_prep_timeout_update s = io_uring_prep_timeout_update s' \<and>
   io_uring_prep_accept s = io_uring_prep_accept s' \<and>
   io_uring_prep_cancel s = io_uring_prep_cancel s' \<and>
   io_uring_prep_link_timeout s = io_uring_prep_link_timeout s' \<and>
   io_uring_prep_connect s = io_uring_prep_connect s' \<and>
   io_uring_prep_files_update s = io_uring_prep_files_update s' \<and>
   io_uring_prep_fallocate s = io_uring_prep_fallocate s' \<and>
   io_uring_prep_openat s = io_uring_prep_openat s' \<and>
   io_uring_prep_close s = io_uring_prep_close s' \<and>
   io_uring_prep_read s = io_uring_prep_read s' \<and>
   io_uring_prep_write s = io_uring_prep_write s' \<and>
   io_uring_prep_statx s = io_uring_prep_statx s' \<and>
   io_uring_prep_fadvise s = io_uring_prep_fadvise s' \<and>
   io_uring_prep_madvise s = io_uring_prep_madvise s' \<and>
   io_uring_prep_send s = io_uring_prep_send s' \<and>
   io_uring_prep_recv s = io_uring_prep_recv s' \<and>
   io_uring_prep_openat2 s = io_uring_prep_openat2 s' \<and>
   io_uring_prep_epoll_ctl s = io_uring_prep_epoll_ctl s' \<and>
   io_uring_prep_provide_buffers s = io_uring_prep_provide_buffers s' \<and>
   io_uring_prep_remove_buffers s = io_uring_prep_remove_buffers s' \<and>
   io_uring_prep_shutdown s = io_uring_prep_shutdown s' \<and>
   io_uring_prep_unlinkat s = io_uring_prep_unlinkat s' \<and>
   io_uring_prep_renameat s = io_uring_prep_renameat s'"
  by (intro conjI ext) (simp_all add: io_uring_prep_defs)



end
