(* ===== verification/Uring_Submit.thy ===== *)
theory Uring_Submit
  imports Uring_CQ Uring_Prep
begin

text \<open>
  Submitting and waiting: the rest of \<open>liburing/src/queue.c\<close> and the waiting helpers of
  \<open>liburing.h\<close>. The lemmas say what the kernel is asked for: a submit enters it once, with
  every queued request published in order and counted.
\<close>

section \<open>Operations\<close>

definition io_uring_submit_internal ::
  "'w sys_enter \<Rightarrow> io_uring \<Rightarrow> u32 \<Rightarrow> u32 \<Rightarrow> 'w \<Rightarrow> int \<times> io_uring \<times> 'w" where
  "io_uring_submit_internal enter ring submitted wait_nr w =
     (case sq_ring_needs_enter ring 0 of (needs, flags) \<Rightarrow>
      if needs \<or> wait_nr \<noteq> 0 then
        let flags' = (if wait_nr \<noteq> 0 \<or> ring_flags ring AND IORING_SETUP_IOPOLL \<noteq> 0
                      then flags OR IORING_ENTER_GETEVENTS else flags)
        in case enter (ring_fd ring) submitted wait_nr flags' 0 8 ring w of
             (ret, errno, ring', w') \<Rightarrow> (if ret < 0 then - errno else ret, ring', w')
      else (sint submitted, ring, w))"

definition io_uring_submit_and_wait ::
  "'w sys_enter \<Rightarrow> io_uring \<Rightarrow> u32 \<Rightarrow> 'w \<Rightarrow> int \<times> io_uring \<times> 'w" where
  "io_uring_submit_and_wait enter ring wait_nr w =
     (case io_uring_flush_sq ring of (ring', n) \<Rightarrow>
        io_uring_submit_internal enter ring' (word_of_int n) wait_nr w)"

definition io_uring_submit :: "'w sys_enter \<Rightarrow> io_uring \<Rightarrow> 'w \<Rightarrow> int \<times> io_uring \<times> 'w" where
  "io_uring_submit enter ring w = io_uring_submit_and_wait enter ring 0 w"

text \<open>\<open>__io_uring_sqring_wait\<close> and its wrapper.\<close>

definition io_uring_sqring_wait_internal :: "'w sys_enter \<Rightarrow> io_uring \<Rightarrow> 'w \<Rightarrow> int \<times> io_uring \<times> 'w" where
  "io_uring_sqring_wait_internal enter ring w =
     (case enter (ring_fd ring) 0 0 IORING_ENTER_SQ_WAIT 0 8 ring w of
        (ret, errno, ring', w') \<Rightarrow> (if ret < 0 then - errno else ret, ring', w'))"

definition io_uring_sqring_wait :: "'w sys_enter \<Rightarrow> io_uring \<Rightarrow> 'w \<Rightarrow> int \<times> io_uring \<times> 'w" where
  "io_uring_sqring_wait enter ring w =
     (if ring_flags ring AND IORING_SETUP_SQPOLL = 0 then (0, ring, w)
      else if io_uring_sq_space_left ring \<noteq> 0 then (0, ring, w)
      else io_uring_sqring_wait_internal enter ring w)"

text \<open>
  \<open>io_uring_wait_cqes_new\<close> passes the address of its argument block (24 bytes: two 64-bit
  words and two 32-bit words) to the kernel; the block's address is the argument \<open>arg\<close>.
\<close>

definition io_uring_wait_cqes_new ::
  "'w sys_enter \<Rightarrow> u32 \<Rightarrow> u64 \<Rightarrow> io_uring \<Rightarrow> 'w \<Rightarrow> (int \<times> nat option \<times> io_uring \<times> 'w) option" where
  "io_uring_wait_cqes_new enter wait_nr arg ring w =
     (case io_uring_flush_sq ring of (ring', n) \<Rightarrow>
        io_uring_get_cqe_data enter
          \<lparr>gd_submit = word_of_int n, gd_wait_nr = wait_nr, gd_get_flags = IORING_ENTER_EXT_ARG,
           gd_sz = 24, gd_arg = arg\<rparr> ring' w)"

definition prep_internal_timeout :: "io_uring \<Rightarrow> nat \<Rightarrow> u64 \<Rightarrow> u32 \<Rightarrow> io_uring" where
  "prep_internal_timeout ring i ts wait_nr =
     ring\<lparr>ring_sq := (ring_sq ring)\<lparr>sq_sqes := (sq_sqes (ring_sq ring))[i :=
        (io_uring_prep_timeout (sq_sqes (ring_sq ring) ! i) ts wait_nr 0)
          \<lparr>sqe_user_data := LIBURING_UDATA_TIMEOUT\<rparr>]\<rparr>\<rparr>"

definition wait_cqes_timeout ::
  "'w sys_enter \<Rightarrow> u32 \<Rightarrow> u64 \<Rightarrow> u64 \<Rightarrow> nat \<Rightarrow> io_uring \<Rightarrow> 'w \<Rightarrow> (int \<times> nat option \<times> io_uring \<times> 'w) option" where
  "wait_cqes_timeout enter wait_nr ts sigmask i ring w =
     (case io_uring_flush_sq (prep_internal_timeout ring i ts wait_nr) of (ring', n) \<Rightarrow>
        io_uring_get_cqe enter (word_of_int n) wait_nr sigmask ring' w)"

text \<open>
  \<open>io_uring_wait_cqes\<close>; \<open>ts = 0\<close> is a NULL timespec. Where the function returns before
  reaching \<open>__io_uring_get_cqe\<close> the entry pointer is not written: NULL here.
\<close>

definition io_uring_wait_cqes ::
  "'w sys_enter \<Rightarrow> u32 \<Rightarrow> u64 \<Rightarrow> u64 \<Rightarrow> u64 \<Rightarrow> io_uring \<Rightarrow> 'w \<Rightarrow> (int \<times> nat option \<times> io_uring \<times> 'w) option" where
  "io_uring_wait_cqes enter wait_nr ts sigmask arg ring w =
     (if ts \<noteq> 0 then
        if ring_features ring AND IORING_FEAT_EXT_ARG \<noteq> 0
        then io_uring_wait_cqes_new enter wait_nr arg ring w
        else case io_uring_get_sqe ring of
            (ring1, Some i) \<Rightarrow> wait_cqes_timeout enter wait_nr ts sigmask i ring1 w
          | (ring1, None) \<Rightarrow>
              (case io_uring_submit enter ring1 w of (ret, ring2, w2) \<Rightarrow>
               if ret < 0 then Some (ret, None, ring2, w2)
               else case io_uring_get_sqe ring2 of
                   (ring3, Some i) \<Rightarrow> wait_cqes_timeout enter wait_nr ts sigmask i ring3 w2
                 | (ring3, None) \<Rightarrow> Some (- EAGAIN, None, ring3, w2))
      else io_uring_get_cqe enter 0 wait_nr sigmask ring w)"

definition io_uring_wait_cqe_timeout ::
  "'w sys_enter \<Rightarrow> u64 \<Rightarrow> u64 \<Rightarrow> io_uring \<Rightarrow> 'w \<Rightarrow> (int \<times> nat option \<times> io_uring \<times> 'w) option" where
  "io_uring_wait_cqe_timeout enter ts arg ring w = io_uring_wait_cqes enter 1 ts 0 arg ring w"

section \<open>What the kernel is asked for\<close>

lemma flush_sq_ring:
  assumes "sq_inv n (ring_sq ring)" "n < 31"
  shows "\<exists>sq'. io_uring_flush_sq ring = (ring\<lparr>ring_sq := sq'\<rparr>, int (length (sq_queued (ring_sq ring)))) \<and>
     sq_inv n sq' \<and> sq_visible sq' = sq_queued (ring_sq ring) \<and> sq_kflags sq' = sq_kflags (ring_sq ring)"
proof -
  obtain sq' r where fl: "io_uring_flush_sq_sq (ring_sq ring) = (sq', r)" by fastforce
  obtain A where sq': "sq' = (ring_sq ring)\<lparr>sq_array := A, sq_ktail := sq_sqe_tail (ring_sq ring),
      sq_sqe_head := sq_sqe_tail (ring_sq ring)\<rparr>"
    and "sq_inv n sq'" "r = sint (sq_sqe_tail (ring_sq ring) - sq_khead (ring_sq ring))"
    using io_uring_flush_sq_sq_eq [OF assms(1) fl] by metis
  moreover have "sq_kflags sq' = sq_kflags (ring_sq ring)" by (simp add: sq')
  moreover have "sq_visible sq' = sq_queued (ring_sq ring)"
    by (rule flush_publishes(2) [OF assms(1) fl])
  ultimately show ?thesis
    using fl sint_count [OF assms(2)] assms(1)
    by (auto simp: io_uring_flush_sq_def sq_queued_def sq_inv_def)
qed

text \<open>
  C16. \<open>io_uring_submit\<close> on a ring without a kernel polling thread enters the kernel exactly
  once: with all queued requests published in submission order, their number as \<open>to_submit\<close>,
  no completions awaited, and no flag; its result is the kernel's, or \<open>-errno\<close> on failure.
\<close>

theorem io_uring_submit_correct:
  assumes "sq_inv n (ring_sq ring)" "n < 31"
    and "ring_flags ring AND (IORING_SETUP_SQPOLL OR IORING_SETUP_IOPOLL) = 0"
  shows "\<exists>sq'. sq_inv n sq' \<and> sq_visible sq' = sq_queued (ring_sq ring) \<and>
     io_uring_submit enter ring w =
       (case enter (ring_fd ring) (of_nat (length (sq_queued (ring_sq ring)))) 0 0 0 8
               (ring\<lparr>ring_sq := sq'\<rparr>) w of
          (ret, errno, ring', w') \<Rightarrow> (if ret < 0 then - errno else ret, ring', w'))"
proof -
  have flags: "ring_flags ring AND IORING_SETUP_SQPOLL = 0" "ring_flags ring AND IORING_SETUP_IOPOLL = 0"
    using assms(3) by (simp_all add: bit.conj_disj_distrib or_eq_0_iff)
  obtain sq' where "io_uring_flush_sq ring = (ring\<lparr>ring_sq := sq'\<rparr>, int (length (sq_queued (ring_sq ring))))"
    "sq_inv n sq'" "sq_visible sq' = sq_queued (ring_sq ring)"
    using flush_sq_ring [OF assms(1,2)] by blast
  with flags show ?thesis
    by (auto simp: io_uring_submit_def io_uring_submit_and_wait_def io_uring_submit_internal_def
        sq_ring_needs_enter_def)
qed

theorem io_uring_submit_correct_witness:
  "fst (io_uring_submit (\<lambda>fd n _ _ _ _ r w. (- 1, 11, r, w)) (wrapping_ring 0 []) (5 :: nat)) = - 11"
proof -
  have "sq_inv 1 (ring_sq (wrapping_ring 0 []))" "(1::nat) < 31"
    "ring_flags (wrapping_ring 0 []) AND (IORING_SETUP_SQPOLL OR IORING_SETUP_IOPOLL) = 0"
    using wrapping_sq_inv by (simp_all add: wrapping_ring_def)
  from io_uring_submit_correct [OF this, of "\<lambda>fd n _ _ _ _ r w. (- 1, 11, r, w)" "5 :: nat"]
  show ?thesis by auto
qed

text \<open>
  With a kernel polling thread that is awake, \<open>io_uring_submit\<close> makes no system call: it
  publishes the queued requests in order and returns their number.
\<close>

theorem io_uring_submit_sqpoll:
  assumes "sq_inv n (ring_sq ring)" "n < 31"
    and "ring_flags ring AND IORING_SETUP_SQPOLL \<noteq> 0"
    and "sq_kflags (ring_sq ring) AND IORING_SQ_NEED_WAKEUP = 0"
  shows "\<exists>sq'. sq_inv n sq' \<and> sq_visible sq' = sq_queued (ring_sq ring) \<and>
     io_uring_submit enter ring w =
       (int (length (sq_queued (ring_sq ring))), ring\<lparr>ring_sq := sq'\<rparr>, w)"
proof -
  obtain sq' where fl: "io_uring_flush_sq ring = (ring\<lparr>ring_sq := sq'\<rparr>, int (length (sq_queued (ring_sq ring))))"
    "sq_inv n sq'" "sq_visible sq' = sq_queued (ring_sq ring)" "sq_kflags sq' = sq_kflags (ring_sq ring)"
    using flush_sq_ring [OF assms(1,2)] by blast
  let ?k = "sq_sqe_tail (ring_sq ring) - sq_khead (ring_sq ring)"
  have "sint ?k = int (unat ?k)"
    using sint_count [OF assms(2)] assms(1) by (simp add: sq_inv_def)
  then have "sint (of_nat (unat ?k) :: u32) = int (unat ?k)" by simp
  then show ?thesis
    using assms(3,4) fl
    by (auto simp: io_uring_submit_def io_uring_submit_and_wait_def io_uring_submit_internal_def
        sq_ring_needs_enter_def sq_queued_def)
qed

theorem io_uring_submit_sqpoll_witness:
  "fst (io_uring_submit (\<lambda>_ _ _ _ _ _ r w. (0, 0, r, w))
     ((wrapping_ring 0 [])\<lparr>ring_flags := IORING_SETUP_SQPOLL\<rparr>) (5 :: nat)) = 0"
proof -
  let ?r = "(wrapping_ring 0 [])\<lparr>ring_flags := IORING_SETUP_SQPOLL\<rparr>"
  have "sq_inv 1 (ring_sq ?r)" "(1::nat) < 31" "ring_flags ?r AND IORING_SETUP_SQPOLL \<noteq> 0"
    "sq_kflags (ring_sq ?r) AND IORING_SQ_NEED_WAKEUP = 0" "sq_queued (ring_sq ?r) = []"
    using wrapping_sq_inv wrapping_sq_empty
    by (simp_all add: wrapping_ring_def) (simp_all add: uring_flag_defs wrapping_sq_def)
  with io_uring_submit_sqpoll [of 1 ?r "\<lambda>_ _ _ _ _ _ r w. (0, 0, r, w)" "5 :: nat"]
  show ?thesis by auto
qed

end
