(* ===== verification/Uring_Register.thy ===== *)
theory Uring_Register
  imports Uring_Types
begin

text \<open>
  The registration calls of \<open>liburing/src/register.c\<close>. Each makes one \<open>io_uring_register\<close>
  system call, an argument of the model, and maps its result to the library's convention:
  \<open>-errno\<close> for a failure, and on success 0 or, for the calls that return a count or an
  identifier, the kernel's value. A caller's pointer is passed
  on as an address; a pointer to a local block (\<open>&up\<close>, \<open>&event_fd\<close>) is the block it points to.
\<close>

datatype io_uring_register_op =
    IORING_REGISTER_BUFFERS | IORING_UNREGISTER_BUFFERS | IORING_REGISTER_FILES
  | IORING_UNREGISTER_FILES | IORING_REGISTER_EVENTFD | IORING_UNREGISTER_EVENTFD
  | IORING_REGISTER_FILES_UPDATE | IORING_REGISTER_EVENTFD_ASYNC | IORING_REGISTER_PROBE
  | IORING_REGISTER_PERSONALITY | IORING_UNREGISTER_PERSONALITY | IORING_REGISTER_RESTRICTIONS
  | IORING_REGISTER_ENABLE_RINGS

fun register_code :: "io_uring_register_op \<Rightarrow> u32" where
  "register_code IORING_REGISTER_BUFFERS = 0"
| "register_code IORING_UNREGISTER_BUFFERS = 1"
| "register_code IORING_REGISTER_FILES = 2"
| "register_code IORING_UNREGISTER_FILES = 3"
| "register_code IORING_REGISTER_EVENTFD = 4"
| "register_code IORING_UNREGISTER_EVENTFD = 5"
| "register_code IORING_REGISTER_FILES_UPDATE = 6"
| "register_code IORING_REGISTER_EVENTFD_ASYNC = 7"
| "register_code IORING_REGISTER_PROBE = 8"
| "register_code IORING_REGISTER_PERSONALITY = 9"
| "register_code IORING_UNREGISTER_PERSONALITY = 10"
| "register_code IORING_REGISTER_RESTRICTIONS = 11"
| "register_code IORING_REGISTER_ENABLE_RINGS = 12"

text \<open>
  The argument pointer of the call: NULL, an address of the caller, a local
  \<open>struct io_uring_files_update\<close> (offset and descriptor array), or a local descriptor.
\<close>

datatype register_arg = Null | Addr u64 | Files_Update u32 u64 | Event_Fd int

text \<open>The system call: descriptor, opcode, argument, number of arguments.\<close>

type_synonym 'w sys_register = "int \<Rightarrow> u32 \<Rightarrow> register_arg \<Rightarrow> u32 \<Rightarrow> 'w \<Rightarrow> int \<times> int \<times> 'w"

definition io_uring_register_buffers ::
  "'w sys_register \<Rightarrow> io_uring \<Rightarrow> u64 \<Rightarrow> u32 \<Rightarrow> 'w \<Rightarrow> int \<times> 'w" where
  "io_uring_register_buffers sys ring iovecs nr_iovecs w =
     (case sys (ring_fd ring) (register_code IORING_REGISTER_BUFFERS) (Addr iovecs) nr_iovecs w of
        (ret, errno, w') \<Rightarrow> (if ret < 0 then - errno else 0, w'))"

definition io_uring_unregister_buffers ::
  "'w sys_register \<Rightarrow> io_uring \<Rightarrow> 'w \<Rightarrow> int \<times> 'w" where
  "io_uring_unregister_buffers sys ring w =
     (case sys (ring_fd ring) (register_code IORING_UNREGISTER_BUFFERS) Null 0 w of
        (ret, errno, w') \<Rightarrow> (if ret < 0 then - errno else 0, w'))"

definition io_uring_register_files_update ::
  "'w sys_register \<Rightarrow> io_uring \<Rightarrow> u32 \<Rightarrow> u64 \<Rightarrow> u32 \<Rightarrow> 'w \<Rightarrow> int \<times> 'w" where
  "io_uring_register_files_update sys ring off files nr_files w =
     (case sys (ring_fd ring) (register_code IORING_REGISTER_FILES_UPDATE) (Files_Update off files) nr_files w of
        (ret, errno, w') \<Rightarrow> (if ret < 0 then - errno else ret, w'))"

definition io_uring_register_files ::
  "'w sys_register \<Rightarrow> io_uring \<Rightarrow> u64 \<Rightarrow> u32 \<Rightarrow> 'w \<Rightarrow> int \<times> 'w" where
  "io_uring_register_files sys ring files nr_files w =
     (case sys (ring_fd ring) (register_code IORING_REGISTER_FILES) (Addr files) nr_files w of
        (ret, errno, w') \<Rightarrow> (if ret < 0 then - errno else 0, w'))"

definition io_uring_unregister_files ::
  "'w sys_register \<Rightarrow> io_uring \<Rightarrow> 'w \<Rightarrow> int \<times> 'w" where
  "io_uring_unregister_files sys ring w =
     (case sys (ring_fd ring) (register_code IORING_UNREGISTER_FILES) Null 0 w of
        (ret, errno, w') \<Rightarrow> (if ret < 0 then - errno else 0, w'))"

definition io_uring_register_eventfd ::
  "'w sys_register \<Rightarrow> io_uring \<Rightarrow> int \<Rightarrow> 'w \<Rightarrow> int \<times> 'w" where
  "io_uring_register_eventfd sys ring event_fd w =
     (case sys (ring_fd ring) (register_code IORING_REGISTER_EVENTFD) (Event_Fd event_fd) 1 w of
        (ret, errno, w') \<Rightarrow> (if ret < 0 then - errno else 0, w'))"

definition io_uring_unregister_eventfd ::
  "'w sys_register \<Rightarrow> io_uring \<Rightarrow> 'w \<Rightarrow> int \<times> 'w" where
  "io_uring_unregister_eventfd sys ring w =
     (case sys (ring_fd ring) (register_code IORING_UNREGISTER_EVENTFD) Null 0 w of
        (ret, errno, w') \<Rightarrow> (if ret < 0 then - errno else 0, w'))"

definition io_uring_register_eventfd_async ::
  "'w sys_register \<Rightarrow> io_uring \<Rightarrow> int \<Rightarrow> 'w \<Rightarrow> int \<times> 'w" where
  "io_uring_register_eventfd_async sys ring event_fd w =
     (case sys (ring_fd ring) (register_code IORING_REGISTER_EVENTFD_ASYNC) (Event_Fd event_fd) 1 w of
        (ret, errno, w') \<Rightarrow> (if ret < 0 then - errno else 0, w'))"

definition io_uring_register_probe ::
  "'w sys_register \<Rightarrow> io_uring \<Rightarrow> u64 \<Rightarrow> u32 \<Rightarrow> 'w \<Rightarrow> int \<times> 'w" where
  "io_uring_register_probe sys ring p nr_ops w =
     (case sys (ring_fd ring) (register_code IORING_REGISTER_PROBE) (Addr p) nr_ops w of
        (ret, errno, w') \<Rightarrow> (if ret < 0 then - errno else 0, w'))"

definition io_uring_register_personality ::
  "'w sys_register \<Rightarrow> io_uring \<Rightarrow> 'w \<Rightarrow> int \<times> 'w" where
  "io_uring_register_personality sys ring w =
     (case sys (ring_fd ring) (register_code IORING_REGISTER_PERSONALITY) Null 0 w of
        (ret, errno, w') \<Rightarrow> (if ret < 0 then - errno else ret, w'))"

definition io_uring_unregister_personality ::
  "'w sys_register \<Rightarrow> io_uring \<Rightarrow> int \<Rightarrow> 'w \<Rightarrow> int \<times> 'w" where
  "io_uring_unregister_personality sys ring pers w =
     (case sys (ring_fd ring) (register_code IORING_UNREGISTER_PERSONALITY) Null (word_of_int pers) w of
        (ret, errno, w') \<Rightarrow> (if ret < 0 then - errno else ret, w'))"

definition io_uring_register_restrictions ::
  "'w sys_register \<Rightarrow> io_uring \<Rightarrow> u64 \<Rightarrow> u32 \<Rightarrow> 'w \<Rightarrow> int \<times> 'w" where
  "io_uring_register_restrictions sys ring res nr_res w =
     (case sys (ring_fd ring) (register_code IORING_REGISTER_RESTRICTIONS) (Addr res) nr_res w of
        (ret, errno, w') \<Rightarrow> (if ret < 0 then - errno else 0, w'))"

definition io_uring_enable_rings ::
  "'w sys_register \<Rightarrow> io_uring \<Rightarrow> 'w \<Rightarrow> int \<times> 'w" where
  "io_uring_enable_rings sys ring w =
     (case sys (ring_fd ring) (register_code IORING_REGISTER_ENABLE_RINGS) Null 0 w of
        (ret, errno, w') \<Rightarrow> (if ret < 0 then - errno else ret, w'))"

lemmas io_uring_register_defs =
  io_uring_register_buffers_def
  io_uring_unregister_buffers_def
  io_uring_register_files_update_def
  io_uring_register_files_def
  io_uring_unregister_files_def
  io_uring_register_eventfd_def
  io_uring_unregister_eventfd_def
  io_uring_register_eventfd_async_def
  io_uring_register_probe_def
  io_uring_register_personality_def
  io_uring_unregister_personality_def
  io_uring_register_restrictions_def
  io_uring_enable_rings_def

text \<open>The two result conventions of the library.\<close>

definition zero_or_errno :: "int \<times> int \<times> 'w \<Rightarrow> int \<times> 'w" where
  "zero_or_errno r = (case r of (ret, errno, w) \<Rightarrow> (if ret < 0 then - errno else 0, w))"

definition ret_or_errno :: "int \<times> int \<times> 'w \<Rightarrow> int \<times> 'w" where
  "ret_or_errno r = (case r of (ret, errno, w) \<Rightarrow> (if ret < 0 then - errno else ret, w))"

lemma register_code_inj: "register_code a = register_code b \<Longrightarrow> a = b"
  by (cases a; cases b) simp_all

text \<open>
  C32. Failure is never reported as success, for each of the thirteen registration functions:
  it makes its own call once, and when the kernel refuses (a negative result with a positive
  \<open>errno\<close>) it returns that error number negated, otherwise a result that is not negative.
\<close>

theorem register_errors_reported:
  fixes sys :: "'w sys_register"
  assumes pos: "\<And>fd op arg nr w ret errno w'.
      sys fd op arg nr w = (ret, errno, w') \<Longrightarrow> ret < 0 \<Longrightarrow> 0 < errno"
    and mem: "(op, f) \<in> {(IORING_REGISTER_BUFFERS, io_uring_register_buffers sys ring iovecs nr_iovecs),
     (IORING_UNREGISTER_BUFFERS, io_uring_unregister_buffers sys ring),
     (IORING_REGISTER_FILES_UPDATE, io_uring_register_files_update sys ring off files nr_files),
     (IORING_REGISTER_FILES, io_uring_register_files sys ring files nr_files),
     (IORING_UNREGISTER_FILES, io_uring_unregister_files sys ring),
     (IORING_REGISTER_EVENTFD, io_uring_register_eventfd sys ring event_fd),
     (IORING_UNREGISTER_EVENTFD, io_uring_unregister_eventfd sys ring),
     (IORING_REGISTER_EVENTFD_ASYNC, io_uring_register_eventfd_async sys ring event_fd),
     (IORING_REGISTER_PROBE, io_uring_register_probe sys ring p nr_ops),
     (IORING_REGISTER_PERSONALITY, io_uring_register_personality sys ring),
     (IORING_UNREGISTER_PERSONALITY, io_uring_unregister_personality sys ring pers),
     (IORING_REGISTER_RESTRICTIONS, io_uring_register_restrictions sys ring res nr_res),
     (IORING_REGISTER_ENABLE_RINGS, io_uring_enable_rings sys ring)}"
  shows "\<exists>arg nr. let (ret, errno, w') = sys (ring_fd ring) (register_code op) arg nr w
      in snd (f w) = w' \<and> (ret < 0 \<longleftrightarrow> fst (f w) < 0) \<and> (ret < 0 \<longrightarrow> fst (f w) = - errno)"
proof -
  have key: "\<exists>arg nr. let (ret, errno, w') = sys (ring_fd ring) (register_code op) arg nr w
      in snd (f w) = w' \<and> (ret < 0 \<longleftrightarrow> fst (f w) < 0) \<and> (ret < 0 \<longrightarrow> fst (f w) = - errno)"
    if "f w = zero_or_errno (sys (ring_fd ring) (register_code op) arg nr w) \<or>
        f w = ret_or_errno (sys (ring_fd ring) (register_code op) arg nr w)" for arg nr
  proof -
    obtain ret errno w' where r: "sys (ring_fd ring) (register_code op) arg nr w = (ret, errno, w')"
      by (metis prod_cases3)
    with that pos [OF r] show ?thesis
      by (intro exI [of _ arg] exI [of _ nr])
        (auto simp: zero_or_errno_def ret_or_errno_def split: if_splits)
  qed
  have "\<exists>arg nr. f w = zero_or_errno (sys (ring_fd ring) (register_code op) arg nr w) \<or>
      f w = ret_or_errno (sys (ring_fd ring) (register_code op) arg nr w)"
    using mem
    by (elim insertE emptyE Pair_inject; simp add: io_uring_register_defs zero_or_errno_def ret_or_errno_def; blast)
  then show ?thesis using key by blast
qed

theorem register_errors_reported_witness:
  "\<exists>arg nr. let (ret, errno, w') = (\<lambda>fd op arg nr w. (- 1, 16, w)) (3 :: int)
        (register_code IORING_REGISTER_PERSONALITY) (arg :: register_arg) (nr :: u32) (0 :: nat)
      in snd (io_uring_register_personality (\<lambda>fd op arg nr w. (- 1, 16, w))
            (undefined\<lparr>ring_fd := 3\<rparr>) 0) = w' \<and>
         fst (io_uring_register_personality (\<lambda>fd op arg nr w. (- 1, 16, w))
            (undefined\<lparr>ring_fd := 3\<rparr>) (0 :: nat)) = - errno"
  using register_errors_reported [where sys = "\<lambda>fd op arg nr w. (- 1, 16, w)"
      and op = IORING_REGISTER_PERSONALITY and ring = "undefined\<lparr>ring_fd := 3\<rparr>"
      and f = "io_uring_register_personality (\<lambda>fd op arg nr w. (- 1, 16, w)) (undefined\<lparr>ring_fd := 3\<rparr>)"
      and w = "0 :: nat"]
  by simp

end
