(* ===== verification/Uring_Setup.thy ===== *)
theory Uring_Setup
  imports Uring_Register
begin

text \<open>
  Setting a ring up and tearing it down: \<open>liburing/src/setup.c\<close>. Here the queues are seen
  as they are mapped: the records hold the addresses that \<open>io_uring_mmap\<close> computes from the
  offsets the kernel returned. \<open>mmap\<close>, \<open>munmap\<close>, \<open>close\<close>, \<open>madvise\<close> and
  \<open>io_uring_setup\<close> are arguments that thread the world. The theorems account for every mapping
  and descriptor: none is left behind by a failed setup or after \<open>io_uring_queue_exit\<close>.
\<close>

section \<open>Parameters and mapped addresses\<close>

record io_sqring_offsets =
  sqo_head :: u32
  sqo_tail :: u32
  sqo_ring_mask :: u32
  sqo_ring_entries :: u32
  sqo_flags :: u32
  sqo_dropped :: u32
  sqo_array :: u32

record io_cqring_offsets =
  cqo_head :: u32
  cqo_tail :: u32
  cqo_ring_mask :: u32
  cqo_ring_entries :: u32
  cqo_overflow :: u32
  cqo_cqes :: u32
  cqo_flags :: u32

record io_uring_params =
  p_sq_entries :: u32
  p_cq_entries :: u32
  p_flags :: u32
  p_features :: u32
  p_sq_off :: io_sqring_offsets
  p_cq_off :: io_cqring_offsets

record sq_map =
  sqm_khead :: u64
  sqm_ktail :: u64
  sqm_kring_mask :: u64
  sqm_kring_entries :: u64
  sqm_kflags :: u64
  sqm_kdropped :: u64
  sqm_array :: u64
  sqm_sqes :: u64
  sqm_ring_sz :: u64
  sqm_ring_ptr :: u64

record cq_map =
  cqm_khead :: u64
  cqm_ktail :: u64
  cqm_kring_mask :: u64
  cqm_kring_entries :: u64
  cqm_kflags :: u64
  cqm_koverflow :: u64
  cqm_cqes :: u64
  cqm_ring_sz :: u64
  cqm_ring_ptr :: u64

record ring_map =
  rm_sq :: sq_map
  rm_cq :: cq_map
  rm_flags :: u32
  rm_ring_fd :: int
  rm_features :: u32

text \<open>The state after \<open>memset(ring, 0, sizeof(*ring))\<close>.\<close>

definition zero_ring :: ring_map where
  "zero_ring = \<lparr>
     rm_sq = \<lparr>sqm_khead = 0, sqm_ktail = 0, sqm_kring_mask = 0, sqm_kring_entries = 0,
       sqm_kflags = 0, sqm_kdropped = 0, sqm_array = 0, sqm_sqes = 0, sqm_ring_sz = 0, sqm_ring_ptr = 0\<rparr>,
     rm_cq = \<lparr>cqm_khead = 0, cqm_ktail = 0, cqm_kring_mask = 0, cqm_kring_entries = 0,
       cqm_kflags = 0, cqm_koverflow = 0, cqm_cqes = 0, cqm_ring_sz = 0, cqm_ring_ptr = 0\<rparr>,
     rm_flags = 0, rm_ring_fd = 0, rm_features = 0\<rparr>"

definition IORING_OFF_SQ_RING :: u64 where "IORING_OFF_SQ_RING = 0"
definition IORING_OFF_CQ_RING :: u64 where "IORING_OFF_CQ_RING = 0x8000000"
definition IORING_OFF_SQES :: u64 where "IORING_OFF_SQES = 0x10000000"

text \<open>\<open>sizeof(struct io_uring_sqe)\<close>, \<open>sizeof(struct io_uring_cqe)\<close>, \<open>sizeof(unsigned)\<close>.\<close>

definition sizeof_sqe :: u64 where "sizeof_sqe = 64"
definition sizeof_cqe :: u64 where "sizeof_cqe = 16"
definition sizeof_unsigned :: u64 where "sizeof_unsigned = 4"

text \<open>
  \<open>mmap\<close> of a length, a descriptor and an offset returns an address or, for \<open>MAP_FAILED\<close>, an
  error number; the protection and flags are the same in every call of the file.
\<close>

type_synonym 'w sys_mmap = "u64 \<Rightarrow> int \<Rightarrow> u64 \<Rightarrow> 'w \<Rightarrow> (int + u64) \<times> 'w"
type_synonym 'w sys_munmap = "u64 \<Rightarrow> u64 \<Rightarrow> 'w \<Rightarrow> 'w"

section \<open>Operations\<close>

definition io_uring_unmap_rings :: "'w sys_munmap \<Rightarrow> sq_map \<Rightarrow> cq_map \<Rightarrow> 'w \<Rightarrow> 'w" where
  "io_uring_unmap_rings munmap sq cq w =
     (let w1 = munmap (sqm_ring_ptr sq) (sqm_ring_sz sq) w
      in if cqm_ring_ptr cq \<noteq> 0 \<and> cqm_ring_ptr cq \<noteq> sqm_ring_ptr sq
         then munmap (cqm_ring_ptr cq) (cqm_ring_sz cq) w1 else w1)"

text \<open>The two ring sizes that \<open>io_uring_mmap\<close> computes first.\<close>

definition ring_sizes :: "io_uring_params \<Rightarrow> u64 \<times> u64" where
  "ring_sizes p =
     (let sz1 = ucast (sqo_array (p_sq_off p)) + ucast (p_sq_entries p) * sizeof_unsigned;
          cz1 = ucast (cqo_cqes (p_cq_off p)) + ucast (p_cq_entries p) * sizeof_cqe
      in if p_features p AND IORING_FEAT_SINGLE_MMAP \<noteq> 0
         then let sz2 = (if cz1 > sz1 then cz1 else sz1) in (sz2, sz2)
         else (sz1, cz1))"

text \<open>The pointer assignments, once the addresses of the mappings are known.\<close>

definition sq_pointers :: "io_uring_params \<Rightarrow> u64 \<Rightarrow> sq_map \<Rightarrow> sq_map" where
  "sq_pointers p base sq =
     sq\<lparr>sqm_khead := base + ucast (sqo_head (p_sq_off p)),
        sqm_ktail := base + ucast (sqo_tail (p_sq_off p)),
        sqm_kring_mask := base + ucast (sqo_ring_mask (p_sq_off p)),
        sqm_kring_entries := base + ucast (sqo_ring_entries (p_sq_off p)),
        sqm_kflags := base + ucast (sqo_flags (p_sq_off p)),
        sqm_kdropped := base + ucast (sqo_dropped (p_sq_off p)),
        sqm_array := base + ucast (sqo_array (p_sq_off p))\<rparr>"

definition cq_pointers :: "io_uring_params \<Rightarrow> u64 \<Rightarrow> cq_map \<Rightarrow> cq_map" where
  "cq_pointers p base cq =
     cq\<lparr>cqm_khead := base + ucast (cqo_head (p_cq_off p)),
        cqm_ktail := base + ucast (cqo_tail (p_cq_off p)),
        cqm_kring_mask := base + ucast (cqo_ring_mask (p_cq_off p)),
        cqm_kring_entries := base + ucast (cqo_ring_entries (p_cq_off p)),
        cqm_koverflow := base + ucast (cqo_overflow (p_cq_off p)),
        cqm_cqes := base + ucast (cqo_cqes (p_cq_off p)),
        cqm_kflags := (if cqo_flags (p_cq_off p) \<noteq> 0 then base + ucast (cqo_flags (p_cq_off p))
                       else cqm_kflags cq)\<rparr>"

text \<open>The address \<open>MAP_FAILED\<close> is \<open>(void *) -1\<close>; it stays in the record where the C leaves it.\<close>

definition io_uring_mmap ::
  "'w sys_mmap \<Rightarrow> 'w sys_munmap \<Rightarrow> int \<Rightarrow> io_uring_params \<Rightarrow> sq_map \<Rightarrow> cq_map \<Rightarrow> 'w \<Rightarrow>
     int \<times> sq_map \<times> cq_map \<times> 'w" where
  "io_uring_mmap mmap munmap fd p sq0 cq0 w =
     (case ring_sizes p of (ssz, csz) \<Rightarrow>
      let sq1 = sq0\<lparr>sqm_ring_sz := ssz\<rparr>; cq1 = cq0\<lparr>cqm_ring_sz := csz\<rparr>
      in case mmap ssz fd IORING_OFF_SQ_RING w of
        (Inl e, w1) \<Rightarrow> (- e, sq1\<lparr>sqm_ring_ptr := - 1\<rparr>, cq1, w1)
      | (Inr sp, w1) \<Rightarrow>
          let sq2 = sq1\<lparr>sqm_ring_ptr := sp\<rparr>;
              cqr = (if p_features p AND IORING_FEAT_SINGLE_MMAP \<noteq> 0 then (Inr sp, w1)
                     else mmap csz fd IORING_OFF_CQ_RING w1)
          in case cqr of
            (Inl e, w2) \<Rightarrow>
              let cq2 = cq1\<lparr>cqm_ring_ptr := 0\<rparr>
              in (- e, sq2, cq2, io_uring_unmap_rings munmap sq2 cq2 w2)
          | (Inr cp, w2) \<Rightarrow>
              let cq2 = cq1\<lparr>cqm_ring_ptr := cp\<rparr>;
                  sq3 = sq_pointers p sp sq2
              in case mmap (ucast (p_sq_entries p) * sizeof_sqe) fd IORING_OFF_SQES w2 of
                (Inl e, w3) \<Rightarrow>
                  (- e, sq3\<lparr>sqm_sqes := - 1\<rparr>, cq2, io_uring_unmap_rings munmap sq3 cq2 w3)
              | (Inr a, w3) \<Rightarrow> (0, sq3\<lparr>sqm_sqes := a\<rparr>, cq_pointers p cp cq2, w3))"

definition io_uring_queue_mmap ::
  "'w sys_mmap \<Rightarrow> 'w sys_munmap \<Rightarrow> int \<Rightarrow> io_uring_params \<Rightarrow> 'w \<Rightarrow> int \<times> ring_map \<times> 'w" where
  "io_uring_queue_mmap mmap munmap fd p w =
     (case io_uring_mmap mmap munmap fd p (rm_sq zero_ring) (rm_cq zero_ring) w of
        (ret, sq, cq, w') \<Rightarrow>
          let ring = zero_ring\<lparr>rm_sq := sq, rm_cq := cq\<rparr>
          in (ret, if ret = 0 then ring\<lparr>rm_flags := p_flags p, rm_ring_fd := fd\<rparr> else ring, w'))"

text \<open>
  \<open>io_uring_setup\<close> takes the entries and the parameter block and returns the descriptor,
  \<open>errno\<close>, and the block as the kernel filled it in.
\<close>

type_synonym 'w sys_setup = "u32 \<Rightarrow> io_uring_params \<Rightarrow> 'w \<Rightarrow> int \<times> int \<times> io_uring_params \<times> 'w"

definition io_uring_queue_init_params ::
  "'w sys_setup \<Rightarrow> 'w sys_mmap \<Rightarrow> 'w sys_munmap \<Rightarrow> (int \<Rightarrow> 'w \<Rightarrow> 'w) \<Rightarrow> u32 \<Rightarrow> ring_map \<Rightarrow>
     io_uring_params \<Rightarrow> 'w \<Rightarrow> int \<times> ring_map \<times> io_uring_params \<times> 'w" where
  "io_uring_queue_init_params setup mmap munmap close entries ring p w =
     (case setup entries p w of (fd, errno, p', w1) \<Rightarrow>
      if fd < 0 then (- errno, ring, p', w1)
      else case io_uring_queue_mmap mmap munmap fd p' w1 of (ret, ring', w2) \<Rightarrow>
        if ret \<noteq> 0 then (ret, ring', p', close fd w2)
        else (0, ring'\<lparr>rm_features := p_features p'\<rparr>, p', w2))"

definition zero_params :: io_uring_params where
  "zero_params = \<lparr>p_sq_entries = 0, p_cq_entries = 0, p_flags = 0, p_features = 0,
     p_sq_off = \<lparr>sqo_head = 0, sqo_tail = 0, sqo_ring_mask = 0, sqo_ring_entries = 0,
       sqo_flags = 0, sqo_dropped = 0, sqo_array = 0\<rparr>,
     p_cq_off = \<lparr>cqo_head = 0, cqo_tail = 0, cqo_ring_mask = 0, cqo_ring_entries = 0,
       cqo_overflow = 0, cqo_cqes = 0, cqo_flags = 0\<rparr>\<rparr>"

definition io_uring_queue_init ::
  "'w sys_setup \<Rightarrow> 'w sys_mmap \<Rightarrow> 'w sys_munmap \<Rightarrow> (int \<Rightarrow> 'w \<Rightarrow> 'w) \<Rightarrow> u32 \<Rightarrow> ring_map \<Rightarrow> u32 \<Rightarrow>
     'w \<Rightarrow> int \<times> ring_map \<times> io_uring_params \<times> 'w" where
  "io_uring_queue_init setup mmap munmap close entries ring flags w =
     io_uring_queue_init_params setup mmap munmap close entries ring (zero_params\<lparr>p_flags := flags\<rparr>) w"

text \<open>\<open>entries\<close> is the value of \<open>*sq->kring_entries\<close>, read from the mapped ring.\<close>

definition io_uring_queue_exit ::
  "'w sys_munmap \<Rightarrow> (int \<Rightarrow> 'w \<Rightarrow> 'w) \<Rightarrow> u32 \<Rightarrow> ring_map \<Rightarrow> 'w \<Rightarrow> 'w" where
  "io_uring_queue_exit munmap close entries ring w =
     close (rm_ring_fd ring)
       (io_uring_unmap_rings munmap (rm_sq ring) (rm_cq ring)
         (munmap (sqm_sqes (rm_sq ring)) (ucast entries * sizeof_sqe) w))"

text \<open>\<open>madvise(addr, len, MADV_DONTFORK)\<close> returns \<open>-1\<close> and sets \<open>errno\<close>, or returns 0.\<close>

definition io_uring_ring_dontfork ::
  "(u64 \<Rightarrow> u64 \<Rightarrow> 'w \<Rightarrow> int \<times> int \<times> 'w) \<Rightarrow> u32 \<Rightarrow> ring_map \<Rightarrow> 'w \<Rightarrow> int \<times> 'w" where
  "io_uring_ring_dontfork madvise entries ring w =
     (let sq = rm_sq ring; cq = rm_cq ring
      in if sqm_ring_ptr sq = 0 \<or> sqm_sqes sq = 0 \<or> cqm_ring_ptr cq = 0 then (- EINVAL, w)
         else case madvise (sqm_sqes sq) (ucast entries * sizeof_sqe) w of (r1, e1, w1) \<Rightarrow>
           if r1 = - 1 then (- e1, w1)
           else case madvise (sqm_ring_ptr sq) (sqm_ring_sz sq) w1 of (r2, e2, w2) \<Rightarrow>
             if r2 = - 1 then (- e2, w2)
             else if cqm_ring_ptr cq \<noteq> sqm_ring_ptr sq then
               (case madvise (cqm_ring_ptr cq) (cqm_ring_sz cq) w2 of (r3, e3, w3) \<Rightarrow>
                if r3 = - 1 then (- e3, w3) else (0, w3))
             else (0, w2))"

section \<open>Probing\<close>

text \<open>
  The block that the kernel fills with the operations it supports. \<open>malloc\<close>, \<open>free\<close> and
  \<open>memset(p, 0, n)\<close> are arguments; NULL is address 0. The result of \<open>malloc\<close> is not checked.
\<close>

record io_uring_probe_op =
  po_op :: u8
  po_flags :: u16

record io_uring_probe =
  pr_last_op :: u8
  pr_ops_len :: u8
  pr_ops :: "io_uring_probe_op list"

abbreviation (input) IO_URING_OP_SUPPORTED :: u16 where "IO_URING_OP_SUPPORTED \<equiv> 1"

definition io_uring_opcode_supported :: "io_uring_probe \<Rightarrow> int \<Rightarrow> int outcome" where
  "io_uring_opcode_supported p op =
     (if op > uint (pr_last_op p) then Inr 0
      else defined_if ''p->ops[op]'' (0 \<le> op \<and> nat op < length (pr_ops p))
        (Inr (of_bool (po_flags (pr_ops p ! nat op) AND IO_URING_OP_SUPPORTED \<noteq> 0))))"

definition io_uring_get_probe_ring ::
  "(u64 \<Rightarrow> 'w \<Rightarrow> u64 \<times> 'w) \<Rightarrow> (u64 \<Rightarrow> 'w \<Rightarrow> 'w) \<Rightarrow> (u64 \<Rightarrow> u64 \<Rightarrow> 'w \<Rightarrow> 'w) \<Rightarrow> 'w sys_register \<Rightarrow> io_uring \<Rightarrow> 'w \<Rightarrow>
     (u64 \<times> 'w) outcome" where
  "io_uring_get_probe_ring malloc free zero sys ring w =
     (let len = 16 + 256 * 8
      in case malloc len w of (probe, w) \<Rightarrow>
        defined_if ''memset(probe, 0, len)'' (probe \<noteq> 0)
          (case io_uring_register_probe sys ring probe 256 (zero probe len w) of (r, w) \<Rightarrow>
             if r < 0 then Inr (0, free probe w) else Inr (probe, w)))"

definition io_uring_get_probe ::
  "'w sys_setup \<Rightarrow> 'w sys_mmap \<Rightarrow> 'w sys_munmap \<Rightarrow> (int \<Rightarrow> 'w \<Rightarrow> 'w) \<Rightarrow> (ring_map \<Rightarrow> 'w \<Rightarrow> io_uring) \<Rightarrow>
     (u64 \<Rightarrow> 'w \<Rightarrow> u64 \<times> 'w) \<Rightarrow> (u64 \<Rightarrow> 'w \<Rightarrow> 'w) \<Rightarrow> (u64 \<Rightarrow> u64 \<Rightarrow> 'w \<Rightarrow> 'w) \<Rightarrow> 'w sys_register \<Rightarrow> 'w \<Rightarrow>
     (u64 \<times> 'w) outcome" where
  "io_uring_get_probe setup mmap munmap close contents malloc free zero sys w =
     (case io_uring_queue_init setup mmap munmap close 2 zero_ring 0 w of (r, rm, p, w) \<Rightarrow>
      if r < 0 then Inr (0, w)
      else and_then (io_uring_get_probe_ring malloc free zero sys (contents rm w) w) (\<lambda>(probe, w).
        Inr (probe, io_uring_queue_exit munmap close (sq_kring_entries (ring_sq (contents rm w))) rm w)))"

definition io_uring_free_probe :: "(u64 \<Rightarrow> 'w \<Rightarrow> 'w) \<Rightarrow> u64 \<Rightarrow> 'w \<Rightarrow> 'w" where
  "io_uring_free_probe free probe w = free probe w"

text \<open>A probe that returns NULL has given its block back; one that returns a block has just this one.\<close>

lemma probe_ring_block:
  assumes "\<And>n w. blocks (snd (malloc n w)) = insert (fst (malloc n w)) (blocks w) \<and> fst (malloc n w) \<notin> blocks w"
    and "\<And>p w. blocks (free p w) = blocks w - {p}" "\<And>p n w. blocks (zero p n w) = blocks w"
    and "\<And>fd op a n w. blocks (snd (snd (sys fd op a n w))) = blocks w"
    and "io_uring_get_probe_ring malloc free zero sys ring w = Inr (probe, w')" "0 \<notin> blocks w"
  shows "blocks w' = (if probe = 0 then blocks w else insert probe (blocks w))"
proof -
  obtain a w1 where m: "malloc (16 + 256 * 8) w = (a, w1)" by (metis surj_pair)
  have w1: "blocks w1 = insert a (blocks w)" "a \<notin> blocks w" using assms(1) [of "16 + 256 * 8" w] m by auto
  obtain r w2 where p: "io_uring_register_probe sys ring a 256 (zero a (16 + 256 * 8) w1) = (r, w2)" by (metis surj_pair)
  have "w2 = snd (snd (sys (ring_fd ring) (register_code IORING_REGISTER_PROBE) (Addr a) 256 (zero a (16 + 256 * 8) w1)))"
    using p by (simp add: io_uring_register_probe_def split: prod.splits)
  then have "blocks w2 = blocks w1" by (simp only: assms(3,4))
  moreover have "a \<noteq> 0" "(if r < 0 then (0, free a w2) else (a, w2)) = (probe, w')"
    using assms(5) m p by (auto simp: io_uring_get_probe_ring_def Let_def outcome_simps split: if_splits)
  ultimately show ?thesis using w1 assms(2) by (auto split: if_splits)
qed

section \<open>Accounting for mappings and descriptors\<close>

text \<open>
  The behaviour of the system calls that the accounting relies on, with \<open>live\<close> the mapped
  regions (base address to length) and \<open>fds\<close> the open descriptors of a world: a mapping is made
  at a fresh address that is neither NULL nor \<open>MAP_FAILED\<close> or fails with a positive error,
  unmapping a whole region removes it, a new ring has a fresh descriptor, and closing removes
  that descriptor.
\<close>

definition mmap_law :: "('w \<Rightarrow> u64 \<rightharpoonup> u64) \<Rightarrow> ('w \<Rightarrow> int set) \<Rightarrow> 'w sys_mmap \<Rightarrow> bool" where
  "mmap_law live fds mmap \<longleftrightarrow>
     (\<forall>len fd off w. case mmap len fd off w of
        (Inl e, w') \<Rightarrow> 0 < e \<and> live w' = live w \<and> fds w' = fds w
      | (Inr a, w') \<Rightarrow> live w a = None \<and> a \<noteq> 0 \<and> a \<noteq> - 1 \<and> live w' = (live w)(a \<mapsto> len) \<and> fds w' = fds w)"

definition munmap_law :: "('w \<Rightarrow> u64 \<rightharpoonup> u64) \<Rightarrow> ('w \<Rightarrow> int set) \<Rightarrow> 'w sys_munmap \<Rightarrow> bool" where
  "munmap_law live fds munmap \<longleftrightarrow>
     (\<forall>a len w. live w a = Some len \<longrightarrow>
        live (munmap a len w) = (live w)(a := None) \<and> fds (munmap a len w) = fds w)"

definition setup_law :: "('w \<Rightarrow> u64 \<rightharpoonup> u64) \<Rightarrow> ('w \<Rightarrow> int set) \<Rightarrow> 'w sys_setup \<Rightarrow> bool" where
  "setup_law live fds setup \<longleftrightarrow>
     (\<forall>n p w. case setup n p w of (fd, e, p', w') \<Rightarrow> live w' = live w \<and>
        (if fd < 0 then 0 < e \<and> fds w' = fds w else fd \<notin> fds w \<and> fds w' = insert fd (fds w)))"

definition close_law :: "('w \<Rightarrow> u64 \<rightharpoonup> u64) \<Rightarrow> ('w \<Rightarrow> int set) \<Rightarrow> (int \<Rightarrow> 'w \<Rightarrow> 'w) \<Rightarrow> bool" where
  "close_law live fds close \<longleftrightarrow>
     (\<forall>fd w. live (close fd w) = live w \<and> fds (close fd w) = fds w - {fd})"

lemma mmap_cases:
  assumes "mmap_law live fds mmap"
  obtains e w' where "mmap len fd off w = (Inl e, w')" "0 < e" "live w' = live w" "fds w' = fds w"
  | a w' where "mmap len fd off w = (Inr a, w')" "live w a = None" "a \<noteq> 0" "a \<noteq> - 1"
      "live w' = (live w)(a \<mapsto> len)" "fds w' = fds w"
proof -
  obtain r w' where r: "mmap len fd off w = (r, w')" by fastforce
  have "case mmap len fd off w of
      (Inl e, w') \<Rightarrow> 0 < e \<and> live w' = live w \<and> fds w' = fds w
    | (Inr a, w') \<Rightarrow> live w a = None \<and> a \<noteq> 0 \<and> a \<noteq> - 1 \<and> live w' = (live w)(a \<mapsto> len) \<and> fds w' = fds w"
    using assms by (simp add: mmap_law_def)
  then show ?thesis using r that by (cases r) auto
qed

text \<open>The regions a mapped ring owns.\<close>

definition owned :: "io_uring_params \<Rightarrow> sq_map \<Rightarrow> cq_map \<Rightarrow> (u64 \<rightharpoonup> u64) \<Rightarrow> u64 \<rightharpoonup> u64" where
  "owned p sq cq m =
     (let m1 = m(sqm_ring_ptr sq \<mapsto> sqm_ring_sz sq);
          m2 = (if cqm_ring_ptr cq = sqm_ring_ptr sq then m1 else m1(cqm_ring_ptr cq \<mapsto> cqm_ring_sz cq))
      in m2(sqm_sqes sq \<mapsto> ucast (p_sq_entries p) * sizeof_sqe))"

lemma unmap_rings_live:
  assumes "munmap_law live fds munmap" "live w (sqm_ring_ptr sq) = Some (sqm_ring_sz sq)"
    and "cqm_ring_ptr cq \<noteq> 0 \<Longrightarrow> cqm_ring_ptr cq \<noteq> sqm_ring_ptr sq \<Longrightarrow>
       live w (cqm_ring_ptr cq) = Some (cqm_ring_sz cq)"
  shows "live (io_uring_unmap_rings munmap sq cq w) =
       (if cqm_ring_ptr cq = 0 then (live w)(sqm_ring_ptr sq := None)
        else (live w)(sqm_ring_ptr sq := None, cqm_ring_ptr cq := None))"
    and "fds (io_uring_unmap_rings munmap sq cq w) = fds w"
  using assms by (auto simp: io_uring_unmap_rings_def munmap_law_def Let_def fun_upd_twist)

lemma io_uring_mmap_live:
  assumes mm: "mmap_law live fds mmap" and um: "munmap_law live fds munmap"
    and r: "io_uring_mmap mmap munmap fd p sq0 cq0 w = (ret, sq, cq, w')"
  shows "fds w' = fds w \<and>
     (if ret = 0
      then live w' = owned p sq cq (live w) \<and> live w (sqm_ring_ptr sq) = None \<and>
           live w (cqm_ring_ptr cq) = None \<and> live w (sqm_sqes sq) = None \<and>
           sqm_sqes sq \<noteq> sqm_ring_ptr sq \<and> sqm_sqes sq \<noteq> cqm_ring_ptr cq \<and> cqm_ring_ptr cq \<noteq> 0
      else ret < 0 \<and> live w' = live w)"
proof -
  obtain ssz csz where sz: "ring_sizes p = (ssz, csz)" by fastforce
  note defs = io_uring_mmap_def Let_def sz
  consider (sqfail) e w1 where "mmap ssz fd IORING_OFF_SQ_RING w = (Inl e, w1)" "0 < e"
      "live w1 = live w" "fds w1 = fds w"
    | (sqok) sp w1 where "mmap ssz fd IORING_OFF_SQ_RING w = (Inr sp, w1)" "live w sp = None" "sp \<noteq> 0"
      "live w1 = (live w)(sp \<mapsto> ssz)" "fds w1 = fds w"
    by (rule mmap_cases [OF mm, of ssz fd IORING_OFF_SQ_RING w]) auto
  then show ?thesis
  proof cases
    case sqfail
    then show ?thesis using r by (auto simp: defs)
  next
    case sqok
    let ?sq2 = "sq0\<lparr>sqm_ring_sz := ssz, sqm_ring_ptr := sp\<rparr>"
    have cqm: "\<exists>x w2. (if p_features p AND IORING_FEAT_SINGLE_MMAP \<noteq> 0 then (Inr sp, w1)
        else mmap csz fd IORING_OFF_CQ_RING w1) = (x, w2) \<and> fds w2 = fds w \<and>
        (case x of Inl e \<Rightarrow> 0 < e \<and> live w2 = live w1
         | Inr cp \<Rightarrow> cp \<noteq> 0 \<and> live w cp = None \<and>
             live w2 = (if cp = sp then live w1 else (live w1)(cp \<mapsto> csz)))"
      using sqok by (cases "p_features p AND IORING_FEAT_SINGLE_MMAP = 0";
        cases rule: mmap_cases [OF mm, of csz fd IORING_OFF_CQ_RING w1]) auto
    then obtain x w2 where x: "(if p_features p AND IORING_FEAT_SINGLE_MMAP \<noteq> 0 then (Inr sp, w1)
        else mmap csz fd IORING_OFF_CQ_RING w1) = (x, w2)" "fds w2 = fds w"
      "case x of Inl e \<Rightarrow> 0 < e \<and> live w2 = live w1
         | Inr cp \<Rightarrow> cp \<noteq> 0 \<and> live w cp = None \<and>
             live w2 = (if cp = sp then live w1 else (live w1)(cp \<mapsto> csz))" by blast
    show ?thesis
    proof (cases x)
      case (Inl e)
      then show ?thesis
        using r sqok x unmap_rings_live [OF um, of w2 ?sq2 "cq0\<lparr>cqm_ring_sz := csz, cqm_ring_ptr := 0\<rparr>"]
        by (auto simp: defs)
    next
      case (Inr cp)
      let ?sq3 = "sq_pointers p sp ?sq2" and ?cq2 = "cq0\<lparr>cqm_ring_sz := csz, cqm_ring_ptr := cp\<rparr>"
      have ptrs: "sqm_ring_ptr ?sq3 = sp" "sqm_ring_sz ?sq3 = ssz" by (simp_all add: sq_pointers_def)
      show ?thesis
      proof (cases rule: mmap_cases [OF mm, of "ucast (p_sq_entries p) * sizeof_sqe" fd IORING_OFF_SQES w2])
        case (1 e w3)
        then show ?thesis
          using r sqok x Inr ptrs unmap_rings_live [OF um, of w3 ?sq3 ?cq2]
          by (auto simp: defs fun_upd_twist)
      next
        case (2 a w3)
        then show ?thesis
          using r sqok x Inr
          by (auto simp: defs owned_def sq_pointers_def cq_pointers_def split: if_splits)
      qed
    qed
  qed
qed

lemma queue_mmap_live:
  assumes "mmap_law live fds mmap" "munmap_law live fds munmap"
    and r: "io_uring_queue_mmap mmap munmap fd p w = (ret, ring, w')"
  shows "fds w' = fds w \<and> (ret \<noteq> 0 \<longrightarrow> ret < 0 \<and> live w' = live w) \<and>
     (ret = 0 \<longrightarrow> rm_ring_fd ring = fd \<and> live w' = owned p (rm_sq ring) (rm_cq ring) (live w) \<and>
        live w (sqm_ring_ptr (rm_sq ring)) = None \<and> live w (cqm_ring_ptr (rm_cq ring)) = None \<and>
        live w (sqm_sqes (rm_sq ring)) = None \<and> sqm_sqes (rm_sq ring) \<noteq> sqm_ring_ptr (rm_sq ring) \<and>
        sqm_sqes (rm_sq ring) \<noteq> cqm_ring_ptr (rm_cq ring) \<and> cqm_ring_ptr (rm_cq ring) \<noteq> 0)"
proof -
  obtain ret' sq cq w1 where m: "io_uring_mmap mmap munmap fd p (rm_sq zero_ring) (rm_cq zero_ring) w
      = (ret', sq, cq, w1)" by (metis prod_cases4)
  have eq: "ret = ret'" "w' = w1" "rm_sq ring = sq" "rm_cq ring = cq" "ret' = 0 \<longrightarrow> rm_ring_fd ring = fd"
    using r m by (auto simp: io_uring_queue_mmap_def Let_def split: if_splits)
  show ?thesis using io_uring_mmap_live [OF assms(1,2) m] by (simp add: eq split: if_splits)
qed

text \<open>
  C22. A failed ring setup leaks nothing: when \<open>io_uring_queue_init_params\<close> does not return 0
  (the setup call, the mapping of either ring or the mapping of the entries failed), its result
  is negative and the mapped regions and open descriptors are those from before the call.
\<close>

theorem failed_init_leaks_nothing:
  assumes laws: "mmap_law live fds mmap" "munmap_law live fds munmap" "setup_law live fds setup"
      "close_law live fds close"
    and r: "io_uring_queue_init_params setup mmap munmap close entries ring0 p0 w = (ret, ring, p, w')"
    and fail: "ret \<noteq> 0"
  shows "ret < 0 \<and> live w' = live w \<and> fds w' = fds w"
proof -
  obtain fd e p1 w1 where s: "setup entries p0 w = (fd, e, p1, w1)" by (metis prod_cases4)
  have st: "live w1 = live w" "if fd < 0 then 0 < e \<and> fds w1 = fds w
      else fd \<notin> fds w \<and> fds w1 = insert fd (fds w)"
    using laws(3) s unfolding setup_law_def by (metis (mono_tags, lifting) case_prod_conv)+
  show ?thesis
  proof (cases "fd < 0")
    case True
    with r s st show ?thesis by (auto simp: io_uring_queue_init_params_def)
  next
    case False
    obtain ret' ring' w2 where m: "io_uring_queue_mmap mmap munmap fd p1 w1 = (ret', ring', w2)"
      by (metis prod_cases3)
    have ret': "ret' = ret" "w' = close fd w2" "ret' \<noteq> 0"
      using r s m False fail by (auto simp: io_uring_queue_init_params_def split: if_splits)
    have "ret' < 0" "live w2 = live w1" "fds w2 = fds w1"
      using queue_mmap_live [OF laws(1,2) m] ret'(3) by auto
    with ret' False st laws(4) show ?thesis by (simp add: close_law_def)
  qed
qed

text \<open>
  C21. \<open>io_uring_queue_exit\<close> undoes a successful setup: after it, with the ring's entry count
  still the one the kernel reported at setup, the mapped regions and the open descriptors are
  those from before \<open>io_uring_queue_init_params\<close>, with one shared mapping or two.
\<close>

theorem init_exit_roundtrip:
  assumes laws: "mmap_law live fds mmap" "munmap_law live fds munmap" "setup_law live fds setup"
      "close_law live fds close"
    and r: "io_uring_queue_init_params setup mmap munmap close entries ring0 p0 w = (0, ring, p, w')"
  shows "live (io_uring_queue_exit munmap close (p_sq_entries p) ring w') = live w \<and>
     fds (io_uring_queue_exit munmap close (p_sq_entries p) ring w') = fds w"
proof -
  obtain fd e p1 w1 where s: "setup entries p0 w = (fd, e, p1, w1)" by (metis prod_cases4)
  have st: "live w1 = live w" "if fd < 0 then 0 < e \<and> fds w1 = fds w
      else fd \<notin> fds w \<and> fds w1 = insert fd (fds w)"
    using laws(3) s unfolding setup_law_def by (metis (mono_tags, lifting) case_prod_conv)+
  have fd: "0 \<le> fd" using r s st by (auto simp: io_uring_queue_init_params_def split: if_splits)
  obtain ret' ring' w2 where m: "io_uring_queue_mmap mmap munmap fd p1 w1 = (ret', ring', w2)"
    by (metis prod_cases3)
  have eq: "ret' = 0" "w' = w2" "p = p1" "ring = ring'\<lparr>rm_features := p_features p1\<rparr>"
    using r s m fd by (auto simp: io_uring_queue_init_params_def split: if_splits)
  let ?sq = "rm_sq ring" and ?cq = "rm_cq ring"
  note own = queue_mmap_live [OF laws(1,2) m]
  have own': "rm_ring_fd ring = fd" "live w2 = owned p ?sq ?cq (live w1)" "fds w2 = fds w1"
    "live w1 (sqm_ring_ptr ?sq) = None" "live w1 (cqm_ring_ptr ?cq) = None" "live w1 (sqm_sqes ?sq) = None"
    "sqm_sqes ?sq \<noteq> sqm_ring_ptr ?sq" "sqm_sqes ?sq \<noteq> cqm_ring_ptr ?cq" "cqm_ring_ptr ?cq \<noteq> 0"
    using own eq by simp_all
  define w3 where "w3 = munmap (sqm_sqes ?sq) (ucast (p_sq_entries p) * sizeof_sqe) w2"
  have w3: "live w3 = (owned p ?sq ?cq (live w1))(sqm_sqes ?sq := None)" "fds w3 = fds w2"
    using laws(2) own'(2) unfolding munmap_law_def w3_def owned_def Let_def by simp_all
  have "live (io_uring_unmap_rings munmap ?sq ?cq w3) = live w1"
    "fds (io_uring_unmap_rings munmap ?sq ?cq w3) = fds w1"
    using unmap_rings_live [OF laws(2), of w3 ?sq ?cq] w3 own'
    by (auto simp: owned_def Let_def fun_upd_idem_iff split: if_splits)
  with laws(4) own'(1,3) eq st fd show ?thesis
    by (auto simp: io_uring_queue_exit_def close_law_def w3_def)
qed

section \<open>An address space for the witnesses\<close>

text \<open>A world of mapped regions, open descriptors and the next address and descriptor to hand out.\<close>

type_synonym toy_world = "(u64 \<rightharpoonup> u64) \<times> int set \<times> u64 \<times> int"

definition toy_mmap :: "toy_world sys_mmap" where
  "toy_mmap len fd off w = (case w of (m, f, a, d) \<Rightarrow>
     if m a = None \<and> a \<noteq> 0 \<and> a \<noteq> - 1 then (Inr a, (m(a \<mapsto> len), f, a + 4096, d)) else (Inl 12, w))"

definition toy_munmap :: "toy_world sys_munmap" where
  "toy_munmap a len w = (case w of (m, f, n, d) \<Rightarrow> (m(a := None), f, n, d))"

definition toy_setup :: "toy_world sys_setup" where
  "toy_setup n p w = (case w of (m, f, a, d) \<Rightarrow>
     if d \<notin> f \<and> 0 \<le> d then (d, 0, p\<lparr>p_sq_entries := n, p_cq_entries := 2 * n\<rparr>, (m, insert d f, a, d + 1))
     else (- 1, 24, p, w))"

definition toy_close :: "int \<Rightarrow> toy_world \<Rightarrow> toy_world" where
  "toy_close fd w = (case w of (m, f, n, d) \<Rightarrow> (m, f - {fd}, n, d))"

lemma toy_laws:
  "mmap_law fst (\<lambda>w. fst (snd w)) toy_mmap" "munmap_law fst (\<lambda>w. fst (snd w)) toy_munmap"
  "setup_law fst (\<lambda>w. fst (snd w)) toy_setup" "close_law fst (\<lambda>w. fst (snd w)) toy_close"
  by (auto simp: mmap_law_def munmap_law_def setup_law_def close_law_def toy_mmap_def toy_munmap_def
      toy_setup_def toy_close_def split: prod.splits)

theorem failed_init_leaks_nothing_witness:
  "case io_uring_queue_init_params toy_setup toy_mmap toy_munmap toy_close 8 zero_ring zero_params
       (Map.empty, {0}, - 4096 - 1, 3) of
     (ret, ring, p, w') \<Rightarrow> ret = - 12 \<and> fst w' = Map.empty \<and> fst (snd w') = {0}"
proof -
  let ?w = "(Map.empty, {0}, - 4096 - 1, 3) :: toy_world"
  obtain ret ring p w' where r: "io_uring_queue_init_params toy_setup toy_mmap toy_munmap toy_close
      8 zero_ring zero_params ?w = (ret, ring, p, w')" by (metis prod_cases4)
  then have ret: "ret = - 12"
    by (simp add: io_uring_queue_init_params_def io_uring_queue_mmap_def io_uring_mmap_def ring_sizes_def
        toy_setup_def toy_mmap_def Let_def zero_params_def zero_ring_def IORING_FEAT_SINGLE_MMAP_def)
  have "ret < 0 \<and> fst w' = fst ?w \<and> fst (snd w') = fst (snd ?w)"
    by (rule failed_init_leaks_nothing [OF toy_laws r]) (simp add: ret)
  with r ret show ?thesis by simp
qed

theorem init_exit_roundtrip_witness:
  "case io_uring_queue_init_params toy_setup toy_mmap toy_munmap toy_close 8 zero_ring zero_params
       (Map.empty, {0}, 4096, 3) of
     (ret, ring, p, w') \<Rightarrow> ret = 0 \<and> fst w' \<noteq> Map.empty \<and>
       fst (io_uring_queue_exit toy_munmap toy_close (p_sq_entries p) ring w') = Map.empty \<and>
       fst (snd (io_uring_queue_exit toy_munmap toy_close (p_sq_entries p) ring w')) = {0}"
proof -
  let ?w = "(Map.empty, {0}, 4096, 3) :: toy_world"
  obtain ret ring p w' where r: "io_uring_queue_init_params toy_setup toy_mmap toy_munmap toy_close
      8 zero_ring zero_params ?w = (ret, ring, p, w')" by (metis prod_cases4)
  then have ret: "ret = 0" "fst w' \<noteq> Map.empty"
    by (auto simp: io_uring_queue_init_params_def io_uring_queue_mmap_def io_uring_mmap_def ring_sizes_def
        toy_setup_def toy_mmap_def Let_def zero_params_def zero_ring_def IORING_FEAT_SINGLE_MMAP_def)
  have "fst (io_uring_queue_exit toy_munmap toy_close (p_sq_entries p) ring w') = fst ?w \<and>
     fst (snd (io_uring_queue_exit toy_munmap toy_close (p_sq_entries p) ring w')) = fst (snd ?w)"
    by (rule init_exit_roundtrip [OF toy_laws r [unfolded ret(1)]])
  with r ret show ?thesis by simp
qed

end
