(* ===== verification/Slab_Heap.thy ===== *)
theory Slab_Heap
  imports Wcp_Prelude
begin

text \<open>
  \<open>src/Heap.cpp\<close>: the thread safe slab allocator that hands out the copy buffers. The first part
  models the class with the operations as they run in one thread; the second part gives the
  contract of a block allocator as a locale, with an interpretation for \<open>Heap\<close>; the third part
  lets any number of threads run \<open>getBlock\<close> and \<open>returnBlock\<close> concurrently, one atomic
  access at a time. \<open>Config::VALGRIND_MODE\<close> is a constant \<open>false\<close> of the sources, so its
  branches are not part of the program.
\<close>

section \<open>The class\<close>

text \<open>
  A pointer is its address (0 is \<open>nullptr\<close>); the array \<open>usedList\<close> of atomic flags is a list, and
  its null pointer after a move is the empty list.
\<close>

record Heap =
  usedList :: "bool list"
  data :: u64
  blocks :: u64
  blockSize :: u64
  alignment :: u64

definition getFreeBlocksCount :: "Heap \<Rightarrow> u64" where
  "getFreeBlocksCount h = of_nat (length (filter (\<lambda>i. \<not> usedList h ! i) [0..<unat (blocks h)]))"

text \<open>The constructor. \<open>aligned_alloc\<close> is an argument: the address it returns, or 0.\<close>

definition Heap_ctor :: "bool \<Rightarrow> (u64 \<Rightarrow> u64 \<Rightarrow> u64) \<Rightarrow> u64 \<Rightarrow> u64 \<Rightarrow> u64 \<Rightarrow> Heap outcome" where
  "Heap_ctor ndebug aligned_alloc n bytes align =
     debug_assert ndebug ''alignment > 0 && !(alignment & (alignment-1))''
       (0 < align \<and> align AND (align - 1) = 0)
       (let h = \<lparr>usedList = replicate (unat n) False,
                 data = aligned_alloc align (n * bytes),
                 blocks = n, blockSize = bytes, alignment = align\<rparr>
        in debug_assert ndebug ''this->getFreeBlocksCount() == this->blocks''
             (getFreeBlocksCount h = blocks h) (Inr h))"

text \<open>The move constructor: the new object and what is left of the old one.\<close>

definition Heap_move :: "Heap \<Rightarrow> Heap \<times> Heap" where
  "Heap_move other =
     (other, other\<lparr>usedList := [], data := 0, blocks := 0, blockSize := 0, alignment := 0\<rparr>)"

text \<open>The destructor: the address it gives to \<open>free\<close>.\<close>

definition Heap_dtor :: "bool \<Rightarrow> Heap \<Rightarrow> u64 outcome" where
  "Heap_dtor ndebug h =
     debug_assert ndebug ''!this->usedList[i]''
       (list_all (\<lambda>i. \<not> usedList h ! i) [0..<unat (blocks h)]) (Inr (data h))"

text \<open>
  One turn of the loop of \<open>getBlock\<close>: the compare-and-exchange on flag \<open>i\<close>. \<open>None\<close> when the
  flag was already set.
\<close>

definition getBlock_body :: "Heap \<Rightarrow> nat \<Rightarrow> (Heap \<times> u64) option" where
  "getBlock_body h i =
     (if usedList h ! i then None
      else Some (h\<lparr>usedList := (usedList h)[i := True]\<rparr>, data h + blockSize h * of_nat i))"

function getBlock_from :: "Heap \<Rightarrow> nat \<Rightarrow> Heap \<times> u64 option" where
  "getBlock_from h i =
     (if i < unat (blocks h) then
        (case getBlock_body h i of
           Some (h', p) \<Rightarrow> (h', Some p)
         | None \<Rightarrow> getBlock_from h (i + 1))
      else (h, None))"
  by pat_completeness auto

termination
  by (relation "measure (\<lambda>(h, i). unat (blocks h) - i)") auto

declare getBlock_from.simps [simp del]

definition getBlock :: "Heap \<Rightarrow> Heap \<times> u64 option" where
  "getBlock h = getBlock_from h 0"

definition returnBlock :: "bool \<Rightarrow> u64 \<Rightarrow> Heap \<Rightarrow> Heap outcome" where
  "returnBlock ndebug block h =
     debug_assert ndebug ''block >= this->data && block < this->data + (this->blocks * this->blockSize)''
       (data h \<le> block \<and> block < data h + blocks h * blockSize h)
    (debug_assert ndebug ''(intptr_t(block) - intptr_t(this->data)) % this->blockSize == 0''
       ((block - data h) mod blockSize h = 0)
    (defined_if ''division by zero'' (blockSize h \<noteq> 0)
    (let i = unat ((block - data h) div blockSize h)
     in debug_assert ndebug ''i < this->blocks && usedList[i]''
          (i < unat (blocks h) \<and> usedList h ! i)
       (defined_if ''usedList[i]'' (i < length (usedList h))
          (Inr (h\<lparr>usedList := (usedList h)[i := False]\<rparr>))))))"

section \<open>Well-formed heaps\<close>

definition heap_wf :: "Heap \<Rightarrow> bool" where
  "heap_wf h \<longleftrightarrow>
     length (usedList h) = unat (blocks h) \<and>
     0 < unat (blockSize h) \<and> 0 < unat (data h) \<and> 0 < unat (alignment h) \<and>
     unat (data h) + unat (blocks h) * unat (blockSize h) < 2 ^ 64 \<and>
     unat (alignment h) dvd unat (data h) \<and> unat (alignment h) dvd unat (blockSize h)"

definition block_addr :: "Heap \<Rightarrow> nat \<Rightarrow> u64" where
  "block_addr h i = data h + blockSize h * of_nat i"

definition held_idx :: "Heap \<Rightarrow> nat set" where
  "held_idx h = {i. i < length (usedList h) \<and> usedList h ! i}"

definition held :: "Heap \<Rightarrow> u64 set" where
  "held h = block_addr h ` held_idx h"

text \<open>The bytes of a block, and the shape of a heap: everything but the flags.\<close>

definition block_bytes :: "Heap \<Rightarrow> u64 \<Rightarrow> nat set" where
  "block_bytes h p = {unat p ..< unat p + unat (blockSize h)}"

definition same_slab :: "Heap \<Rightarrow> Heap \<Rightarrow> bool" where
  "same_slab h h' \<longleftrightarrow> data h' = data h \<and> blocks h' = blocks h \<and> blockSize h' = blockSize h
     \<and> alignment h' = alignment h"

lemma same_slab_refl [simp]: "same_slab h h"
  by (simp add: same_slab_def)

lemma heap_wfD:
  assumes "heap_wf h"
  shows "length (usedList h) = unat (blocks h)" "0 < unat (blockSize h)" "0 < unat (data h)"
    "0 < unat (alignment h)" "unat (data h) + unat (blocks h) * unat (blockSize h) < 2 ^ 64"
    "unat (alignment h) dvd unat (data h)" "unat (alignment h) dvd unat (blockSize h)"
  using assms by (simp_all add: heap_wf_def)

lemma block_offset_bound:
  assumes "heap_wf h" "i < unat (blocks h)"
  shows "unat (data h) + unat (blockSize h) * i < 2 ^ 64"
    and "unat (data h) + unat (blockSize h) * i + unat (blockSize h) \<le>
      unat (data h) + unat (blocks h) * unat (blockSize h)"
proof -
  have "(i + 1) * unat (blockSize h) \<le> unat (blocks h) * unat (blockSize h)"
    using assms by (intro mult_le_mono1) simp
  then show le: "unat (data h) + unat (blockSize h) * i + unat (blockSize h) \<le>
      unat (data h) + unat (blocks h) * unat (blockSize h)"
    by (simp add: mult.commute)
  show "unat (data h) + unat (blockSize h) * i < 2 ^ 64"
    using le heap_wfD(2,5) [OF assms(1)] by linarith
qed

lemma unat_block_addr:
  assumes "heap_wf h" "i < unat (blocks h)"
  shows "unat (block_addr h i) = unat (data h) + unat (blockSize h) * i"
proof -
  have lt: "unat (data h) + unat (blockSize h) * i < 2 ^ 64"
    by (rule block_offset_bound [OF assms])
  have i64: "unat (of_nat i :: u64) = i"
    using assms(2) unat_u64_bound [of "blocks h"] by (simp add: unat_of_nat)
  have m: "unat (blockSize h * of_nat i) = unat (blockSize h) * i"
    using lt i64 by (simp add: unat_word_ariths)
  show ?thesis using lt m by (simp add: block_addr_def unat_word_ariths)
qed

lemma block_addr_inj:
  assumes "heap_wf h" "i < unat (blocks h)" "j < unat (blocks h)" "block_addr h i = block_addr h j"
  shows "i = j"
proof -
  have "unat (blockSize h) * i = unat (blockSize h) * j"
    using unat_block_addr [OF assms(1,2)] unat_block_addr [OF assms(1,3)] assms(4) by (metis add_left_cancel)
  then show ?thesis using heap_wfD(2) [OF assms(1)] by simp
qed

lemma index_of_block:
  assumes "heap_wf h" "i < unat (blocks h)"
  shows "unat ((block_addr h i - data h) div blockSize h) = i"
    and "(block_addr h i - data h) mod blockSize h = 0"
    and "data h \<le> block_addr h i" and "block_addr h i < data h + blocks h * blockSize h"
proof -
  have a: "unat (block_addr h i) = unat (data h) + unat (blockSize h) * i"
    by (rule unat_block_addr [OF assms])
  then show le: "data h \<le> block_addr h i" by (simp add: word_le_nat_alt)
  have d: "unat (block_addr h i - data h) = unat (blockSize h) * i"
    using a le by (simp add: unat_sub)
  show "unat ((block_addr h i - data h) div blockSize h) = i"
    using d heap_wfD(2) [OF assms(1)] by (simp add: unat_div)
  have "unat ((block_addr h i - data h) mod blockSize h) = 0"
    using d by (simp add: unat_mod)
  then show "(block_addr h i - data h) mod blockSize h = 0" by (simp add: unat_eq_0)
  have "unat (blocks h * blockSize h) = unat (blocks h) * unat (blockSize h)"
    using heap_wfD(5) [OF assms(1)] by (simp add: unat_word_ariths)
  then have "unat (data h + blocks h * blockSize h) = unat (data h) + unat (blocks h) * unat (blockSize h)"
    using heap_wfD(5) [OF assms(1)] by (simp add: unat_word_ariths)
  then show "block_addr h i < data h + blocks h * blockSize h"
    using a assms(2) by (simp add: word_less_nat_alt mult.commute heap_wfD(2) [OF assms(1)])
qed


section \<open>Behaviour of the operations\<close>

lemma getBlock_from_spec:
  assumes "length (usedList h) = unat (blocks h)" "\<And>j. j < i \<Longrightarrow> j < unat (blocks h) \<Longrightarrow> usedList h ! j"
  shows "(getBlock_from h i = (h, None) \<and> (\<forall>j < unat (blocks h). usedList h ! j)) \<or>
    (\<exists>k < unat (blocks h). \<not> usedList h ! k \<and> (\<forall>j < k. usedList h ! j) \<and>
       getBlock_from h i = (h\<lparr>usedList := (usedList h)[k := True]\<rparr>, Some (block_addr h k)))"
  using assms
proof (induction h i rule: getBlock_from.induct)
  case (1 h i)
  show ?case
  proof (cases "i < unat (blocks h)")
    case False
    then show ?thesis using 1(3) by (auto simp: getBlock_from.simps [of h i])
  next
    case lt: True
    show ?thesis
    proof (cases "usedList h ! i")
      case True
      then have step: "getBlock_from h i = getBlock_from h (i + 1)" "getBlock_body h i = None"
        using lt by (simp_all add: getBlock_from.simps [of h i] getBlock_body_def)
      show ?thesis unfolding step(1)
        using 1(1) [OF lt step(2) 1(2)] 1(3) True less_Suc_eq by auto
    next
      case False
      then show ?thesis using lt 1(3)
        by (intro disjI2 exI [of _ i]) (auto simp: getBlock_from.simps [of h i] getBlock_body_def block_addr_def)
    qed
  qed
qed

lemma held_idx_set:
  assumes "k < length (usedList h)"
  shows "held_idx (h\<lparr>usedList := (usedList h)[k := True]\<rparr>) = insert k (held_idx h)"
    and "held_idx (h\<lparr>usedList := (usedList h)[k := False]\<rparr>) = held_idx h - {k}"
  using assms by (auto simp: held_idx_def nth_list_update)

lemma block_addr_usedList [simp]: "block_addr (h\<lparr>usedList := u\<rparr>) i = block_addr h i"
  by (simp add: block_addr_def)

lemma heap_wf_usedList [simp]:
  "length u = length (usedList h) \<Longrightarrow> heap_wf (h\<lparr>usedList := u\<rparr>) = heap_wf h"
  by (simp add: heap_wf_def)

lemma held_memE:
  assumes "heap_wf h" "p \<in> held h"
  obtains i where "i < unat (blocks h)" "p = block_addr h i" "usedList h ! i"
  using assms by (auto simp: held_def held_idx_def heap_wfD(1))

lemma block_addr_held:
  assumes "heap_wf h" "i < unat (blocks h)"
  shows "block_addr h i \<in> held h \<longleftrightarrow> usedList h ! i"
  using assms heap_wfD(1) [OF assms(1)]
  by (auto simp: held_def held_idx_def image_iff dest: block_addr_inj [OF assms(1)])

lemma held_insert:
  assumes "heap_wf h" "k < unat (blocks h)"
  shows "held (h\<lparr>usedList := (usedList h)[k := True]\<rparr>) = insert (block_addr h k) (held h)"
  using assms by (simp add: held_def held_idx_set heap_wfD(1))

lemma held_remove:
  assumes "heap_wf h" "k < unat (blocks h)"
  shows "held (h\<lparr>usedList := (usedList h)[k := False]\<rparr>) = held h - {block_addr h k}"
proof -
  have "held_idx (h\<lparr>usedList := (usedList h)[k := False]\<rparr>) = held_idx h - {k}"
    using assms by (simp add: held_idx_set heap_wfD(1))
  moreover have "inj_on (block_addr h) (insert k (held_idx h))"
    using assms heap_wfD(1) [OF assms(1)]
    by (intro inj_onI) (auto simp: held_idx_def dest: block_addr_inj [OF assms(1)])
  ultimately show ?thesis by (auto simp: held_def inj_on_def)
qed

lemma card_held:
  assumes "heap_wf h"
  shows "card (held h) = card (held_idx h)" and "held_idx h \<subseteq> {..<unat (blocks h)}" and "finite (held h)"
proof -
  show sub: "held_idx h \<subseteq> {..<unat (blocks h)}"
    using heap_wfD(1) [OF assms] by (auto simp: held_idx_def)
  have "inj_on (block_addr h) (held_idx h)"
    using sub by (intro inj_onI) (auto dest: block_addr_inj [OF assms])
  then show "card (held h) = card (held_idx h)" by (simp add: held_def card_image)
  show "finite (held h)" unfolding held_def using sub finite_subset by blast
qed

lemma getFreeBlocksCount_held:
  assumes "heap_wf h"
  shows "unat (getFreeBlocksCount h) + card (held h) = unat (blocks h)"
proof -
  let ?n = "unat (blocks h)"
  have eq: "{i. i < ?n \<and> \<not> usedList h ! i} = {..<?n} - held_idx h"
    using heap_wfD(1) [OF assms] by (auto simp: held_idx_def)
  have len: "length (filter (\<lambda>i. \<not> usedList h ! i) [0..<?n]) = card ({..<?n} - held_idx h)"
    using distinct_length_filter [of "[0..<?n]" "\<lambda>i. \<not> usedList h ! i"] eq
    by (simp add: Int_def conj_commute)
  have le: "card (held_idx h) \<le> ?n" "card ({..<?n} - held_idx h) = ?n - card (held_idx h)"
    using card_held(2) [OF assms] card_mono [of "{..<?n}" "held_idx h"]
    by (simp_all add: card_Diff_subset finite_subset)
  then have "unat (getFreeBlocksCount h) = ?n - card (held_idx h)"
    unfolding getFreeBlocksCount_def len using unat_u64_bound [of "blocks h"]
    by (subst unat_of_nat_u64) simp_all
  then show ?thesis using le card_held(1) [OF assms] by simp
qed

text \<open>The two outcomes of \<open>getBlock\<close>, and \<open>returnBlock\<close> of a block that was handed out.\<close>

lemma getBlock_cases:
  assumes "heap_wf h"
  obtains (full) "getBlock h = (h, None)" "\<forall>j < unat (blocks h). usedList h ! j"
  | (block) k where "k < unat (blocks h)" "\<not> usedList h ! k"
      "getBlock h = (h\<lparr>usedList := (usedList h)[k := True]\<rparr>, Some (block_addr h k))"
  using getBlock_from_spec [OF heap_wfD(1) [OF assms], of 0] unfolding getBlock_def by auto

lemma getBlock_SomeE:
  assumes "heap_wf h" "getBlock h = (h', Some p)"
  obtains k where "k < unat (blocks h)" "\<not> usedList h ! k" "p = block_addr h k"
    "h' = h\<lparr>usedList := (usedList h)[k := True]\<rparr>"
  using assms(1) by (rule getBlock_cases) (use assms(2) that in auto)

lemma getBlock_Some:
  assumes "heap_wf h" "getBlock h = (h', Some p)"
  shows "p \<notin> held h" "held h' = insert p (held h)" "heap_wf h'" "same_slab h h'"
    "\<exists>k < unat (blocks h). p = block_addr h k"
proof -
  obtain k where k: "k < unat (blocks h)" "\<not> usedList h ! k" "p = block_addr h k"
    "h' = h\<lparr>usedList := (usedList h)[k := True]\<rparr>"
    using assms by (rule getBlock_SomeE)
  show "p \<notin> held h" using k block_addr_held [OF assms(1)] by simp
  show "held h' = insert p (held h)" using k held_insert [OF assms(1)] by simp
  show "heap_wf h'" "same_slab h h'" using assms(1) k(4) by (simp_all add: same_slab_def)
  show "\<exists>k < unat (blocks h). p = block_addr h k" using k by auto
qed

lemma getBlock_None:
  assumes "heap_wf h" "getBlock h = (h', None)"
  shows "h' = h" "card (held h) = unat (blocks h)"
proof -
  have full: "h' = h \<and> (\<forall>j < unat (blocks h). usedList h ! j)"
    using assms(1) by (rule getBlock_cases) (use assms(2) in auto)
  then show "h' = h" by simp
  have "held_idx h = {..<unat (blocks h)}" using full heap_wfD(1) [OF assms(1)] by (auto simp: held_idx_def)
  then show "card (held h) = unat (blocks h)" using card_held(1) [OF assms(1)] by simp
qed

lemma returnBlock_held:
  assumes "heap_wf h" "p \<in> held h"
  obtains h' where "returnBlock nd p h = Inr h'" "held h' = held h - {p}" "heap_wf h'" "same_slab h h'"
proof -
  obtain i where i: "i < unat (blocks h)" "p = block_addr h i" "usedList h ! i"
    using assms by (rule held_memE)
  have nz: "blockSize h \<noteq> 0" using heap_wfD(2) [OF assms(1)] by auto
  have "returnBlock nd p h = Inr (h\<lparr>usedList := (usedList h)[i := False]\<rparr>)"
    unfolding returnBlock_def Let_def i(2) using index_of_block [OF assms(1) i(1)] i nz heap_wfD(1) [OF assms(1)]
    by simp
  moreover have "heap_wf (h\<lparr>usedList := (usedList h)[i := False]\<rparr>)" using assms(1) by simp
  ultimately show thesis using that held_remove [OF assms(1) i(1)] i(2) by (simp add: same_slab_def)
qed

lemma block_in_slab:
  assumes "heap_wf h" "k < unat (blocks h)"
  shows "block_bytes h (block_addr h k) \<subseteq> {unat (data h) ..< unat (data h) + unat (blocks h) * unat (blockSize h)}"
    and "unat (block_addr h k) mod unat (alignment h) = 0" and "block_addr h k \<noteq> 0"
proof -
  note a = unat_block_addr [OF assms]
  show "block_bytes h (block_addr h k) \<subseteq> {unat (data h) ..< unat (data h) + unat (blocks h) * unat (blockSize h)}"
    using block_offset_bound(2) [OF assms] by (auto simp: block_bytes_def a)
  show "unat (block_addr h k) mod unat (alignment h) = 0"
    using heap_wfD(6,7) [OF assms(1)] by (auto simp: a elim!: dvdE)
  have "unat (block_addr h k) \<noteq> 0" using a heap_wfD(3) [OF assms(1)] by simp
  then show "block_addr h k \<noteq> 0" by auto
qed

lemma blocks_disjoint:
  assumes "heap_wf h" "i < unat (blocks h)" "j < unat (blocks h)" "i \<noteq> j"
  shows "block_bytes h (block_addr h i) \<inter> block_bytes h (block_addr h j) = {}"
proof -
  have *: "block_bytes h (block_addr h i) \<inter> block_bytes h (block_addr h j) = {}"
    if "i < j" "i < unat (blocks h)" "j < unat (blocks h)" for i j
  proof -
    have "unat (blockSize h) * (i + 1) \<le> unat (blockSize h) * j"
      using that by (intro mult_le_mono2) simp
    then show ?thesis
      using unat_block_addr [OF assms(1) that(2)] unat_block_addr [OF assms(1) that(3)]
      by (auto simp: block_bytes_def)
  qed
  show ?thesis using *[of i j] *[of j i] assms(2-4) by (cases "i < j") auto
qed

lemma held_disjoint:
  assumes "heap_wf h" "p \<in> held h" "q \<in> held h" "p \<noteq> q"
  shows "block_bytes h p \<inter> block_bytes h q = {}"
  using assms blocks_disjoint [OF assms(1)] by (auto elim!: held_memE [OF assms(1)])

section \<open>The contract of a block allocator\<close>

text \<open>
  Repeated requests: \<open>get_many\<close> asks \<open>n\<close> times and collects what it gets, \<open>give_many\<close>
  returns a list of blocks.
\<close>

fun get_many :: "('h \<Rightarrow> 'h \<times> 'p option) \<Rightarrow> nat \<Rightarrow> 'h \<Rightarrow> 'h \<times> 'p list" where
  "get_many get 0 h = (h, [])"
| "get_many get (Suc n) h =
     (case get h of
        (h', None) \<Rightarrow> get_many get n h'
      | (h', Some p) \<Rightarrow> (case get_many get n h' of (h'', ps) \<Rightarrow> (h'', p # ps)))"

fun give_many :: "('p \<Rightarrow> 'h \<Rightarrow> 'h outcome) \<Rightarrow> 'p list \<Rightarrow> 'h \<Rightarrow> 'h outcome" where
  "give_many give [] h = Inr h"
| "give_many give (p # ps) h = and_then (give p h) (give_many give ps)"

locale block_allocator =
  fixes wf_heap :: "'h \<Rightarrow> bool"
    and owned :: "'h \<Rightarrow> 'p set"
    and capacity :: "'h \<Rightarrow> nat"
    and get :: "'h \<Rightarrow> 'h \<times> 'p option"
    and give :: "'p \<Rightarrow> 'h \<Rightarrow> 'h outcome"
  assumes owned_bound: "wf_heap h \<Longrightarrow> finite (owned h) \<and> card (owned h) \<le> capacity h"
    and get_some: "wf_heap h \<Longrightarrow> get h = (h', Some p) \<Longrightarrow>
      p \<notin> owned h \<and> owned h' = insert p (owned h) \<and> wf_heap h' \<and> capacity h' = capacity h"
    and get_none: "wf_heap h \<Longrightarrow> get h = (h', None) \<Longrightarrow> h' = h \<and> card (owned h) = capacity h"
    and give_back: "wf_heap h \<Longrightarrow> p \<in> owned h \<Longrightarrow>
      \<exists>h'. give p h = Inr h' \<and> owned h' = owned h - {p} \<and> wf_heap h' \<and> capacity h' = capacity h"
begin

lemma get_succeeds:
  assumes "wf_heap h" "card (owned h) < capacity h"
  obtains h' p where "get h = (h', Some p)" "p \<notin> owned h" "owned h' = insert p (owned h)" "wf_heap h'"
    "capacity h' = capacity h" "card (owned h') = Suc (card (owned h))"
proof -
  obtain h' r where g: "get h = (h', r)" by (cases "get h")
  with get_none assms obtain p where "r = Some p" by (cases r) fastforce+
  with g get_some [OF assms(1)] owned_bound [OF assms(1)] that show thesis by simp
qed

lemma get_many_ok:
  assumes "wf_heap h" "card (owned h) + n \<le> capacity h" "get_many get n h = (h', ps)"
  shows "length ps = n \<and> distinct ps \<and> set ps \<inter> owned h = {} \<and> owned h' = owned h \<union> set ps \<and>
    wf_heap h' \<and> capacity h' = capacity h"
  using assms
proof (induction n arbitrary: h h' ps)
  case (Suc n)
  obtain h1 p where g: "get h = (h1, Some p)" "p \<notin> owned h" "owned h1 = insert p (owned h)" "wf_heap h1"
    "capacity h1 = capacity h" "card (owned h1) = Suc (card (owned h))"
    using get_succeeds [OF Suc.prems(1)] Suc.prems(2) by auto
  obtain qs where qs: "get_many get n h1 = (h', qs)" "ps = p # qs"
    using Suc.prems(3) g(1) by (auto split: prod.splits)
  have "length qs = n \<and> distinct qs \<and> set qs \<inter> owned h1 = {} \<and> owned h' = owned h1 \<union> set qs \<and>
      wf_heap h' \<and> capacity h' = capacity h1"
    using Suc.IH [OF g(4) _ qs(1)] Suc.prems(2) g(5,6) by simp
  then show ?case using g qs(2) by auto
qed simp

lemma give_many_ok:
  assumes "wf_heap h" "distinct ps" "set ps \<subseteq> owned h"
  shows "\<exists>h'. give_many give ps h = Inr h' \<and> owned h' = owned h - set ps \<and> wf_heap h' \<and> capacity h' = capacity h"
  using assms
proof (induction ps arbitrary: h)
  case (Cons p ps)
  obtain h1 where h1: "give p h = Inr h1" "owned h1 = owned h - {p}" "wf_heap h1" "capacity h1 = capacity h"
    using give_back [OF Cons.prems(1), of p] Cons.prems(3) by auto
  obtain h' where "give_many give ps h1 = Inr h'" "owned h' = owned h1 - set ps" "wf_heap h'"
      "capacity h' = capacity h1"
    using Cons.IH [OF h1(3)] Cons.prems(2,3) h1(2) by auto
  then show ?case using h1 by auto
qed simp

text \<open>Everything an empty allocator holds can be taken, then nothing, and given back in any order.\<close>

lemma drain_and_refill:
  assumes "wf_heap h" "owned h = {}" "get_many get (capacity h) h = (h1, ps)" "set qs = set ps" "distinct qs"
  shows "length ps = capacity h \<and> distinct ps \<and> get h1 = (h1, None) \<and>
    (\<exists>h2. give_many give qs h1 = Inr h2 \<and> owned h2 = {} \<and> wf_heap h2 \<and> capacity h2 = capacity h)"
proof -
  have ok: "length ps = capacity h \<and> distinct ps \<and> set ps \<inter> owned h = {} \<and> owned h1 = owned h \<union> set ps \<and>
      wf_heap h1 \<and> capacity h1 = capacity h"
    using get_many_ok [OF assms(1) _ assms(3)] assms(2) by simp
  then have "card (owned h1) = capacity h1" using assms(2) by (simp add: distinct_card)
  moreover have "card (owned h2) = Suc (card (owned h1)) \<and> card (owned h2) \<le> capacity h1"
    if "get h1 = (h2, Some p)" for h2 p
    using ok that get_some [of h1 h2 p] owned_bound [of h1] owned_bound [of h2] by simp
  ultimately have "get h1 = (h1, None)"
    using ok get_none [of h1] by (cases "get h1"; cases "snd (get h1)") fastforce+
  then show ?thesis using ok give_many_ok [of h1 qs] assms(2,4,5) by auto
qed

end

interpretation heap: block_allocator heap_wf held "\<lambda>h. unat (blocks h)" getBlock "returnBlock nd" for nd
proof (unfold_locales, goal_cases)
  case (1 h)
  then show ?case using getFreeBlocksCount_held [of h] card_held(3) by force
next
  case (2 h h' p)
  then show ?case using getBlock_Some [of h h' p] by (simp add: same_slab_def)
next
  case (3 h h')
  then show ?case using getBlock_None [of h h'] by simp
next
  case (4 h p)
  obtain h' where "returnBlock nd p h = Inr h'" "held h' = held h - {p}" "heap_wf h'" "same_slab h h'"
    using returnBlock_held [OF 4] by blast
  then show ?case by (simp add: same_slab_def)
qed

section \<open>Threads\<close>

text \<open>
  Any number of threads share the heap. A thread that is not inside the heap may call
  \<open>getBlock\<close>, which then runs one compare-and-exchange at a time (\<open>getBlock_body\<close>), with
  any steps of other threads in between, or it may give back a block that it got before. The
  field \<open>mine\<close> lists the blocks a thread got and has not returned.
\<close>

datatype heap_pc = Outside | Scanning nat

record heap_threads =
  shared :: Heap
  pc :: "nat \<Rightarrow> heap_pc"
  mine :: "nat \<Rightarrow> u64 list"

inductive heap_step :: "heap_threads \<Rightarrow> heap_threads \<Rightarrow> bool" where
  call_get: "pc s t = Outside \<Longrightarrow> heap_step s (s\<lparr>pc := (pc s)(t := Scanning 0)\<rparr>)"
| cas_taken: "pc s t = Scanning i \<Longrightarrow> i < unat (blocks (shared s)) \<Longrightarrow> getBlock_body (shared s) i = None \<Longrightarrow>
     heap_step s (s\<lparr>pc := (pc s)(t := Scanning (i + 1))\<rparr>)"
| cas_won: "pc s t = Scanning i \<Longrightarrow> i < unat (blocks (shared s)) \<Longrightarrow>
     getBlock_body (shared s) i = Some (h, p) \<Longrightarrow>
     heap_step s (s\<lparr>shared := h, pc := (pc s)(t := Outside), mine := (mine s)(t := p # mine s t)\<rparr>)"
| get_null: "pc s t = Scanning i \<Longrightarrow> \<not> i < unat (blocks (shared s)) \<Longrightarrow>
     heap_step s (s\<lparr>pc := (pc s)(t := Outside)\<rparr>)"
| give_block: "pc s t = Outside \<Longrightarrow> p \<in> set (mine s t) \<Longrightarrow> returnBlock nd p (shared s) = Inr h \<Longrightarrow>
     heap_step s (s\<lparr>shared := h, mine := (mine s)(t := remove1 p (mine s t))\<rparr>)"

inductive heap_reach :: "Heap \<Rightarrow> heap_threads \<Rightarrow> bool" for h0 where
  start: "heap_reach h0 \<lparr>shared = h0, pc = (\<lambda>_. Outside), mine = (\<lambda>_. [])\<rparr>"
| step: "heap_reach h0 s \<Longrightarrow> heap_step s s' \<Longrightarrow> heap_reach h0 s'"

definition threads_inv :: "heap_threads \<Rightarrow> bool" where
  "threads_inv s \<longleftrightarrow> heap_wf (shared s) \<and> (\<forall>t. distinct (mine s t) \<and> set (mine s t) \<subseteq> held (shared s)) \<and>
     (\<forall>t u. t \<noteq> u \<longrightarrow> set (mine s t) \<inter> set (mine s u) = {})"

lemma getBlock_body_won:
  assumes "heap_wf h" "i < unat (blocks h)" "getBlock_body h i = Some (h', p)"
  shows "p \<notin> held h" "held h' = insert p (held h)" "heap_wf h'" "same_slab h h'"
proof -
  have h': "h' = h\<lparr>usedList := (usedList h)[i := True]\<rparr>" "p = block_addr h i" "\<not> usedList h ! i"
    using assms(3) by (auto simp: getBlock_body_def block_addr_def split: if_splits)
  show "p \<notin> held h" using h' block_addr_held [OF assms(1,2)] by simp
  show "held h' = insert p (held h)" using h' held_insert [OF assms(1,2)] by simp
  show "heap_wf h'" "same_slab h h'" using assms(1) h'(1) by (simp_all add: same_slab_def)
qed

lemma threads_inv_step:
  assumes "heap_step s s'" "threads_inv s"
  shows "threads_inv s' \<and> same_slab (shared s) (shared s')"
  using assms
proof (cases rule: heap_step.cases)
  case (cas_won t i h p)
  have wf: "heap_wf (shared s)" using assms(2) by (simp add: threads_inv_def)
  note won = getBlock_body_won [OF wf cas_won(3,4)]
  have fresh: "p \<notin> set (mine s u)" for u using assms(2) won(1) by (auto simp: threads_inv_def)
  show ?thesis
    using assms(2) won fresh unfolding cas_won(1) threads_inv_def by auto
next
  case (give_block t p nd h)
  have wf: "heap_wf (shared s)" and own: "p \<in> held (shared s)"
    using assms(2) give_block(3) by (auto simp: threads_inv_def)
  obtain h' where h': "returnBlock nd p (shared s) = Inr h'" "held h' = held (shared s) - {p}" "heap_wf h'"
      "same_slab (shared s) h'"
    using returnBlock_held [OF wf own] by blast
  have other: "p \<notin> set (mine s u)" if "u \<noteq> t" for u
    using assms(2) give_block(3) that unfolding threads_inv_def by blast
  have "h = h'" using h'(1) give_block(4) by simp
  moreover have "set (remove1 p (mine s t)) = set (mine s t) - {p}"
    using assms(2) by (simp add: threads_inv_def)
  moreover have "set (mine s u) \<subseteq> held (shared s) - {p}" if "u \<noteq> t" for u
    using assms(2) other [OF that] by (auto simp: threads_inv_def)
  ultimately show ?thesis
    using assms(2) h' unfolding give_block(1) threads_inv_def by (simp add: distinct_remove1) blast
qed (auto simp: threads_inv_def)

lemma threads_inv_reach:
  assumes "heap_reach h0 s" "heap_wf h0"
  shows "threads_inv s \<and> same_slab h0 (shared s)"
  using assms
proof (induction rule: heap_reach.induct)
  case (step s s')
  then show ?case using threads_inv_step [of s s'] by (auto simp: same_slab_def)
qed (simp add: threads_inv_def)

section \<open>Correctness of the allocator\<close>

lemma Heap_ctor_wf:
  assumes "Heap_ctor nd alloc n bytes align = Inr h"
    and "alloc align (n * bytes) \<noteq> 0" "0 < unat align" "unat align dvd unat (alloc align (n * bytes))"
    and "unat align dvd unat bytes" "0 < unat bytes"
    and "unat (alloc align (n * bytes)) + unat n * unat bytes < 2 ^ 64"
  shows "heap_wf h" "held h = {}" "blocks h = n" "blockSize h = bytes" "alignment h = align"
proof -
  have h: "h = \<lparr>usedList = replicate (unat n) False, data = alloc align (n * bytes),
      blocks = n, blockSize = bytes, alignment = align\<rparr>"
    using assms(1) by (simp add: Heap_ctor_def Let_def outcome_simps)
  show "heap_wf h" using assms(2-) by (simp add: h heap_wf_def unat_gt_0)
  show "held h = {}" by (simp add: h held_def held_idx_def)
  show "blocks h = n" "blockSize h = bytes" "alignment h = align" by (simp_all add: h)
qed

text \<open>
  C8. \<open>Heap::getBlock\<close> on a well-formed heap returns \<open>nullptr\<close> and changes nothing exactly when no
  block is free. Otherwise it returns a block that lies inside the slab, is aligned, shares no byte
  with any block that is handed out, and is handed out afterwards; the free count drops by one.
\<close>

theorem getBlock_correct:
  assumes "heap_wf h"
  shows "case getBlock h of
      (h', None) \<Rightarrow> h' = h \<and> getFreeBlocksCount h = 0
    | (h', Some p) \<Rightarrow> p \<noteq> 0 \<and> unat p mod unat (alignment h) = 0 \<and>
        block_bytes h p \<subseteq> {unat (data h) ..< unat (data h) + unat (blocks h) * unat (blockSize h)} \<and>
        (\<forall>q \<in> held h. block_bytes h p \<inter> block_bytes h q = {}) \<and>
        held h' = insert p (held h) \<and> heap_wf h' \<and> same_slab h h' \<and>
        unat (getFreeBlocksCount h') + 1 = unat (getFreeBlocksCount h)"
proof (cases "getBlock h")
  case (Pair h' r)
  show ?thesis
  proof (cases r)
    case None
    then have "h' = h \<and> unat (getFreeBlocksCount h) = 0"
      using getBlock_None [OF assms] Pair getFreeBlocksCount_held [OF assms] by auto
    then show ?thesis using None Pair by (simp add: unat_eq_0)
  next
    case (Some p)
    note g = getBlock_Some [OF assms Pair [unfolded Some]]
    obtain k where k: "k < unat (blocks h)" "p = block_addr h k" using g(5) by auto
    have "block_bytes h p \<inter> block_bytes h q = {}" if "q \<in> held h" for q
    proof -
      have "block_bytes h' p \<inter> block_bytes h' q = {}"
        using g(1,2) that by (intro held_disjoint [OF g(3)]) auto
      then show ?thesis using g(4) by (simp add: block_bytes_def same_slab_def)
    qed
    moreover have "card (held h') = Suc (card (held h))"
      using g(1,2) card_held(3) [OF assms] by simp
    ultimately show ?thesis
      using Some Pair g k block_in_slab [OF assms k(1)] getFreeBlocksCount_held [OF assms]
        getFreeBlocksCount_held [OF g(3)] by (simp add: same_slab_def)
  qed
qed

theorem getBlock_correct_witness:
  "let h = \<lparr>usedList = [True, False], data = 4096, blocks = 2, blockSize = 8192, alignment = 4096\<rparr>
   in heap_wf h \<and> snd (getBlock h) = Some 12288 \<and> unat (getFreeBlocksCount (fst (getBlock h))) + 1 = unat (getFreeBlocksCount h)"
proof -
  let ?h = "\<lparr>usedList = [True, False], data = 4096, blocks = 2, blockSize = 8192, alignment = 4096\<rparr> :: Heap"
  have wf: "heap_wf ?h" by (simp add: heap_wf_def)
  have g: "snd (getBlock ?h) = Some 12288"
    by (simp add: getBlock_def getBlock_from.simps getBlock_body_def)
  then obtain h' where "getBlock ?h = (h', Some 12288)" by (cases "getBlock ?h") auto
  then show ?thesis using getBlock_correct [OF wf] wf g by simp
qed

text \<open>
  C18. A constructed heap serves exactly its \<open>blocks\<close>: that many calls of \<open>getBlock\<close> return pairwise
  distinct blocks and the next one returns \<open>nullptr\<close>; returning the blocks in any order fails no
  assertion, frees all of them, and the destructor then fails no assertion either. \<open>aligned_alloc\<close>
  is assumed to return an aligned region that fits into the address space.
\<close>

theorem heap_serves_all_blocks:
  assumes "Heap_ctor nd alloc n bytes align = Inr h"
    and "alloc align (n * bytes) \<noteq> 0" "0 < unat align" "unat align dvd unat (alloc align (n * bytes))"
    and "unat align dvd unat bytes" "0 < unat bytes"
    and "unat (alloc align (n * bytes)) + unat n * unat bytes < 2 ^ 64"
    and "get_many getBlock (unat n) h = (h1, ps)" "set qs = set ps" "distinct qs"
  shows "length ps = unat n \<and> distinct ps \<and> getBlock h1 = (h1, None) \<and>
    (\<exists>h2. give_many (returnBlock nd) qs h1 = Inr h2 \<and> getFreeBlocksCount h2 = n \<and>
       Heap_dtor nd h2 = Inr (data h2))"
proof -
  note h = Heap_ctor_wf [OF assms(1-7)]
  have *: "length ps = unat (blocks h) \<and> distinct ps \<and> getBlock h1 = (h1, None) \<and>
    (\<exists>h2. give_many (returnBlock nd) qs h1 = Inr h2 \<and> held h2 = {} \<and> heap_wf h2 \<and>
       unat (blocks h2) = unat (blocks h))"
    by (rule heap.drain_and_refill [OF h(1,2)]) (use assms(8-) h(3) in auto)
  then obtain h2 where h2: "give_many (returnBlock nd) qs h1 = Inr h2" "held h2 = {}" "heap_wf h2"
      "unat (blocks h2) = unat n"
    using h(3) by auto
  have "getFreeBlocksCount h2 = n"
    using getFreeBlocksCount_held [OF h2(3)] h2 by (simp add: word_unat_eq_iff)
  moreover have "\<not> usedList h2 ! i" if "i < unat (blocks h2)" for i
    using block_addr_held [OF h2(3) that] h2(2) by simp
  ultimately show ?thesis using * h(3) h2(1)
    by (auto simp: Heap_dtor_def list_all_iff)
qed

theorem heap_serves_all_blocks_witness:
  "\<exists>h h1 h2. Heap_ctor False (\<lambda>a n. a) 2 8192 4096 = Inr h \<and> getBlock h1 = (h1, None) \<and>
     give_many (returnBlock False) [12288, 4096] h1 = Inr h2 \<and> getFreeBlocksCount h2 = 2"
proof -
  let ?h = "\<lparr>usedList = [False, False], data = 4096, blocks = 2, blockSize = 8192, alignment = 4096\<rparr> :: Heap"
  let ?h1 = "?h\<lparr>usedList := [True, True]\<rparr>"
  have r: "replicate 2 False = [False, False]" "[0..<2] = [0, 1 :: nat]" by (simp_all add: numeral_2_eq_2)
  have c: "Heap_ctor False (\<lambda>a n. a) 2 8192 4096 = Inr ?h"
    by (simp add: Heap_ctor_def getFreeBlocksCount_def r)
  have g1: "getBlock ?h = (?h\<lparr>usedList := [True, False]\<rparr>, Some 4096)"
    by (simp add: getBlock_def getBlock_from.simps getBlock_body_def)
  have g2: "getBlock (?h\<lparr>usedList := [True, False]\<rparr>) = (?h1, Some 12288)"
    by (simp add: getBlock_def getBlock_from.simps getBlock_body_def)
  have two: "unat (2::u64) = Suc (Suc 0)" by simp
  have g: "get_many getBlock (unat (2::u64)) ?h = (?h1, [4096, 12288])"
    unfolding two get_many.simps g1 using g2 by simp
  show ?thesis
    using heap_serves_all_blocks [OF c _ _ _ _ _ _ g, of "[12288, 4096]"] c by auto
qed

text \<open>
  C17. The slab allocator is thread safe: however the atomic steps of any number of threads that get
  and return blocks interleave, no byte ever belongs to two blocks that threads hold, whether the
  blocks are held by two threads or by one, and every block lies inside the slab.
\<close>

theorem heap_thread_safe:
  assumes "heap_reach h s" "heap_wf h" "p \<in> set (mine s t)" "q \<in> set (mine s u)" "t \<noteq> u \<or> p \<noteq> q"
  shows "block_bytes h p \<inter> block_bytes h q = {} \<and> distinct (mine s t) \<and>
    block_bytes h p \<subseteq> {unat (data h) ..< unat (data h) + unat (blocks h) * unat (blockSize h)}"
proof -
  have inv: "threads_inv s" "same_slab h (shared s)" using threads_inv_reach [OF assms(1,2)] by simp_all
  then have wf: "heap_wf (shared s)" and pq: "p \<in> held (shared s)" "q \<in> held (shared s)"
    using assms(3,4) by (auto simp: threads_inv_def)
  have eq: "block_bytes h = block_bytes (shared s)" "data (shared s) = data h" "blocks (shared s) = blocks h"
      "blockSize (shared s) = blockSize h"
    using inv(2) by (auto simp: same_slab_def block_bytes_def)
  obtain k where "k < unat (blocks (shared s))" "p = block_addr (shared s) k"
    using held_memE [OF wf pq(1)] by blast
  then have "block_bytes (shared s) p \<subseteq> {unat (data h) ..< unat (data h) + unat (blocks h) * unat (blockSize h)}"
    using block_in_slab(1) [OF wf] eq(2-4) by metis
  moreover have "p \<noteq> q" using inv(1) assms(3-5) unfolding threads_inv_def by blast
  then have "block_bytes (shared s) p \<inter> block_bytes (shared s) q = {}" by (rule held_disjoint [OF wf pq])
  ultimately show ?thesis using inv(1) eq(1) by (simp add: threads_inv_def)
qed

text \<open>Two threads whose scans overlap: both look at flag 0 before either takes a block.\<close>

theorem heap_thread_safe_witness:
  "\<exists>h s. heap_reach h s \<and> heap_wf h \<and> mine s 0 = [4096] \<and> mine s 1 = [12288] \<and>
     block_bytes h 4096 \<inter> block_bytes h 12288 = {}"
proof -
  let ?h = "\<lambda>u. \<lparr>usedList = u, data = 4096, blocks = 2, blockSize = 8192, alignment = 4096\<rparr> :: Heap"
  let ?s0 = "\<lparr>shared = ?h [False, False], pc = (\<lambda>_. Outside), mine = (\<lambda>_. [])\<rparr>"
  let ?s1 = "?s0\<lparr>pc := (pc ?s0)(1 := Scanning 0)\<rparr>"
  let ?s2 = "?s1\<lparr>pc := (pc ?s1)(0 := Scanning 0)\<rparr>"
  let ?s3 = "?s2\<lparr>shared := ?h [True, False], pc := (pc ?s2)(0 := Outside), mine := (mine ?s2)(0 := 4096 # mine ?s2 0)\<rparr>"
  let ?s4 = "?s3\<lparr>pc := (pc ?s3)(1 := Scanning (0 + 1))\<rparr>"
  let ?s5 = "?s4\<lparr>shared := ?h [True, True], pc := (pc ?s4)(1 := Outside), mine := (mine ?s4)(1 := 12288 # mine ?s4 1)\<rparr>"
  have "heap_reach (?h [False, False]) ?s0" by (rule heap_reach.start)
  then have "heap_reach (?h [False, False]) ?s1" by (rule heap_reach.step) (rule call_get, simp)
  then have "heap_reach (?h [False, False]) ?s2" by (rule heap_reach.step) (rule call_get, simp)
  then have "heap_reach (?h [False, False]) ?s3"
    by (rule heap_reach.step) (rule cas_won [where i = 0], simp_all add: getBlock_body_def)
  then have "heap_reach (?h [False, False]) ?s4"
    by (rule heap_reach.step) (rule cas_taken [where i = 0], simp_all add: getBlock_body_def)
  then have r: "heap_reach (?h [False, False]) ?s5"
    by (rule heap_reach.step) (rule cas_won [where i = "Suc 0"], simp_all add: getBlock_body_def)
  have wf: "heap_wf (?h [False, False])" by (simp add: heap_wf_def)
  have m: "mine ?s5 0 = [4096]" "mine ?s5 1 = [12288]" by simp_all
  show ?thesis
    using heap_thread_safe [OF r wf, of 4096 0 12288 1] wf m
    by (intro exI [of _ "?h [False, False]"] exI [of _ ?s5] conjI) (rule r, simp_all)
qed

end
