(* ===== verification/Eta_Calculator.thy ===== *)
theory Eta_Calculator
  imports Complex_Main Wcp_Prelude
begin

text \<open>
  \<open>src/ETACalculator.cpp\<close>: a rolling bitset that remembers whether the last copies were big or
  small, and the speed estimates kept per mix of big and small copies. The bitset is modelled on
  the 64-bit word of the source. A \<open>double\<close> is a real number: the rounding of floating point is
  not modelled.
\<close>

section \<open>RollingBitset\<close>

text \<open>\<open>ReadProxy\<close> is the word that was read.\<close>

definition getCount :: "u64 \<Rightarrow> u64" where
  "getCount val = drop_bit (8 * 7) (val AND 0xFF00000000000000)"

definition getSet :: "u64 \<Rightarrow> u64 \<Rightarrow> u64" where
  "getSet val msk = val AND msk"

lemma drop_bit_decreases: "tmp \<noteq> 0 \<Longrightarrow> unat (drop_bit 1 tmp) < unat (tmp :: u64)"
  by (simp add: drop_bit_eq_div unat_div unat_gt_0)

function bitsOn_loop :: "u64 \<Rightarrow> int \<Rightarrow> int" where
  "bitsOn_loop tmp count = (if tmp = 0 then count else bitsOn_loop (drop_bit 1 tmp) (count + uint (tmp AND 1)))"
  by pat_completeness auto

termination
  by (relation "measure (\<lambda>(tmp, count). unat tmp)") (simp_all add: drop_bit_decreases del: One_nat_def)

declare bitsOn_loop.simps [simp del]

definition getBitsOnCount :: "u64 \<Rightarrow> u64 \<Rightarrow> int" where
  "getBitsOnCount val msk = bitsOn_loop (getSet val msk) 0"

text \<open>One turn of the loop of \<open>addToBuff\<close>: the new word for the old one that was loaded.\<close>

definition addToBuff_value :: "u64 \<Rightarrow> bool \<Rightarrow> u64" where
  "addToBuff_value oldVal b =
     (let countPart = drop_bit (8 * 7) (oldVal AND 0xFF00000000000000) + 1;
          countPart = (if countPart > 8 * 7 then 8 * 7 else countPart);
          countPart = push_bit (8 * 7) countPart;
          newVal = push_bit 1 oldVal OR of_bool b;
          newVal = newVal AND 0x00FFFFFFFFFFFFFF
      in newVal OR countPart)"

text \<open>
  The whole loop: the list holds, for each turn, the word that the turn loads and the word that
  the compare-and-exchange finds, which differ when another thread wrote in between. The result is
  the word after the exchange, \<open>None\<close> while the loop has not ended.
\<close>

fun addToBuff :: "(u64 \<times> u64) list \<Rightarrow> bool \<Rightarrow> u64 option" where
  "addToBuff [] b = None"
| "addToBuff ((loaded, found) # turns) b =
     (if found = loaded then Some (addToBuff_value loaded b) else addToBuff turns b)"

subsection \<open>The bitset as a list\<close>

text \<open>The newest entry first.\<close>

definition bitset_list :: "u64 \<Rightarrow> bool list" where
  "bitset_list v = map (bit v) [0..<unat (getCount v)]"

definition bitset_wf :: "u64 \<Rightarrow> bool" where
  "bitset_wf v \<longleftrightarrow> unat (getCount v) \<le> 56 \<and> (\<forall>i < 56. unat (getCount v) \<le> i \<longrightarrow> \<not> bit v i)"

lemma high_mask: "(0xFF00000000000000 :: u64) = push_bit 56 (mask 8)"
  by (simp add: mask_numeral push_bit_eq_mult)

lemma low_mask: "(0x00FFFFFFFFFFFFFF :: u64) = mask 56"
  by (simp add: mask_eq_exp_minus_1)

lemma getCount_drop: "getCount v = drop_bit 56 v"
  unfolding getCount_def high_mask
  by (rule bit_word_eqI) (auto simp: bit_simps dest: bit_imp_le_length)

lemma getCount_le: "unat (getCount v) < 256"
proof -
  have "unat (drop_bit 56 v) = unat v div 2 ^ 56" by (simp add: drop_bit_eq_div unat_div)
  also have "\<dots> < 256" using unat_u64_bound [of v] by (simp add: less_mult_imp_div_less)
  finally show ?thesis by (simp add: getCount_drop)
qed

definition next_count :: "u64 \<Rightarrow> u64" where
  "next_count c = (if c + 1 > 56 then 56 else c + 1)"

lemma unat_next_count: "unat c < 256 \<Longrightarrow> unat (next_count c) = min 56 (unat c + 1)"
proof -
  assume "unat c < 256"
  then have "unat (c + 1) = unat c + 1" by (simp add: unat_word_ariths)
  then show ?thesis by (auto simp: next_count_def word_less_nat_alt min_def)
qed

lemma addToBuff_value_alt:
  "addToBuff_value v b = (push_bit 1 v OR of_bool b) AND mask 56 OR push_bit 56 (next_count (getCount v))"
  by (simp add: addToBuff_value_def getCount_def next_count_def low_mask [symmetric] Let_def)

lemma getCount_addToBuff: "getCount (addToBuff_value v b) = next_count (getCount v)"
proof -
  let ?c = "next_count (getCount v)"
  have small: "unat ?c \<le> 56" using unat_next_count [OF getCount_le] by simp
  have "drop_bit 56 ((push_bit 1 v OR of_bool b) AND mask 56 OR push_bit 56 ?c) = drop_bit 56 (push_bit 56 ?c)"
    by (rule bit_word_eqI) (simp add: bit_simps)
  also have "\<dots> = ?c"
  proof (rule word_unat_eq_iff [THEN iffD2])
    have "unat (push_bit 56 ?c) = unat ?c * 2 ^ 56"
      using small by (simp add: push_bit_eq_mult unat_word_ariths unat_power_two)
    then show "unat (drop_bit 56 (push_bit 56 ?c)) = unat ?c"
      by (simp add: drop_bit_eq_div unat_div)
  qed
  finally show ?thesis by (simp add: addToBuff_value_alt getCount_drop [of "_ OR _"])
qed

lemma bit_addToBuff:
  "i < 56 \<Longrightarrow> bit (addToBuff_value v b) i = (if i = 0 then b else bit v (i - 1))"
  unfolding addToBuff_value_alt bit_or_iff bit_and_iff bit_push_bit_iff bit_mask_iff bit_of_bool_iff
  by (auto simp: possible_bit_def bit_imp_le_length)

lemma addToBuff_wf: "bitset_wf v \<Longrightarrow> bitset_wf (addToBuff_value v b)"
  using unat_next_count [OF getCount_le, of v]
  by (auto simp: bitset_wf_def getCount_addToBuff bit_addToBuff)

lemma bitset_list_nth: "i < unat (getCount v) \<Longrightarrow> bitset_list v ! i = bit v i"
  and bitset_list_length: "length (bitset_list v) = unat (getCount v)"
  by (simp_all add: bitset_list_def)

lemma addToBuff_list:
  assumes "bitset_wf v"
  shows "bitset_list (addToBuff_value v b) = take 56 (b # bitset_list v)"
proof (rule nth_equalityI)
  let ?c = "unat (getCount v)" and ?w = "addToBuff_value v b"
  have c: "?c \<le> 56" using assms by (simp add: bitset_wf_def)
  have n: "unat (getCount ?w) = min 56 (?c + 1)"
    using getCount_addToBuff [of v b] unat_next_count [OF getCount_le, of v] by simp
  show "length (bitset_list ?w) = length (take 56 (b # bitset_list v))"
    using n by (simp add: bitset_list_length)
  fix i assume "i < length (bitset_list ?w)"
  then have i: "i < unat (getCount ?w)" "i < 56" "i \<le> ?c" using n by (simp_all add: bitset_list_length)
  then show "bitset_list ?w ! i = take 56 (b # bitset_list v) ! i"
    by (cases i) (simp_all add: bitset_list_nth bit_addToBuff)
qed

lemma bitset_wf_0 [simp]: "bitset_wf 0" and bitset_list_0 [simp]: "bitset_list 0 = []"
  by (simp_all add: bitset_wf_def bitset_list_def getCount_drop)

lemma addToBuff_history:
  "bitset_wf v \<Longrightarrow> bitset_wf (fold (\<lambda>b v. addToBuff_value v b) bs v) \<and>
     bitset_list (fold (\<lambda>b v. addToBuff_value v b) bs v) = take 56 (rev bs @ bitset_list v)"
proof (induction bs arbitrary: v)
  case (Cons b bs)
  then show ?case
    using addToBuff_wf [of v b] addToBuff_list [of v b]
    by (simp del: take_Suc_Cons) (simp add: take_Cons' min_def)
next
  case Nil
  then show ?case by (simp add: bitset_list_def bitset_wf_def)
qed

text \<open>The loop of \<open>getBitsOnCount\<close> counts the set bits.\<close>

lemma bitsOn_loop_bits: "bitsOn_loop v n = n + int (card {i. bit v i})"
proof (induction v n rule: bitsOn_loop.induct)
  case (1 v n)
  show ?case
  proof (cases "v = 0")
    case False
    have fin: "finite {i. bit (w :: u64) i}" for w
      by (rule finite_subset [of _ "{..<64}"]) (auto dest: bit_imp_le_length)
    have "{i. bit v i} = (if odd v then {0} else {}) \<union> Suc ` {i. bit (drop_bit 1 v) i}"
      by (auto simp: bit_simps image_iff bit_0 gr0_conv_Suc) (metis bit_0 not0_implies_Suc)+
    then have "card {i. bit v i} = of_bool (odd v) + card {i. bit (drop_bit 1 v) i}"
      using fin [of "drop_bit 1 v"] by (simp add: card_image del: One_nat_def)
    moreover have "uint (v AND 1) = of_bool (odd v)"
      by (simp add: and_one_eq mod2_eq_if)
    ultimately show ?thesis
      using 1 False by (simp add: bitsOn_loop.simps [of v n] del: One_nat_def)
  qed (simp add: bitsOn_loop.simps)
qed

lemma getBitsOnCount_list:
  assumes "bitset_wf v"
  shows "getBitsOnCount v 0xFF = int (length (filter id (take 8 (bitset_list v))))"
proof -
  have m: "(0xFF :: u64) = mask 8" by (simp add: mask_eq_exp_minus_1)
  have pop: "i < unat (getCount v)" if "i < 8" "bit v i" for i
  proof (rule ccontr)
    assume "\<not> i < unat (getCount v)"
    moreover have "i < 56" using that(1) by simp
    ultimately show False using assms that(2) by (simp add: bitset_wf_def)
  qed
  have "{i. bit (v AND 0xFF) i} = {i. i < length (take 8 (bitset_list v)) \<and> id (take 8 (bitset_list v) ! i)}"
    unfolding m using pop
    by (auto simp: bit_and_iff bit_mask_iff bitset_list_length bitset_list_nth)
  then show ?thesis
    by (simp add: getBitsOnCount_def getSet_def bitsOn_loop_bits length_filter_conv_card)
qed

section \<open>ETACalculator\<close>

record CopySpeedBucket =
  bytesPerSecond :: real
  sampleCount :: u64

record ETACalculator =
  copySpeedBuckets :: "CopySpeedBucket list"
  bigCopiesRemaining :: u64
  smallCopiesRemaining :: u64
  bigSmallBuff :: u64

definition BIG_FILE_SIZE :: u64 where "BIG_FILE_SIZE = 1024 * 5"
definition BITSET_MASK :: u64 where "BITSET_MASK = 0xFF"
definition BUCKET_COUNT :: nat where "BUCKET_COUNT = 8 + 1"

definition ETACalculator_init :: ETACalculator where
  "ETACalculator_init =
     \<lparr>copySpeedBuckets = replicate BUCKET_COUNT \<lparr>bytesPerSecond = 0, sampleCount = 0\<rparr>,
      bigCopiesRemaining = 0, smallCopiesRemaining = 0, bigSmallBuff = 0\<rparr>"

definition onCopyAdded :: "u64 \<Rightarrow> ETACalculator \<Rightarrow> ETACalculator" where
  "onCopyAdded sz e =
     (if sz > BIG_FILE_SIZE then e\<lparr>bigCopiesRemaining := bigCopiesRemaining e + 1\<rparr>
      else e\<lparr>smallCopiesRemaining := smallCopiesRemaining e + 1\<rparr>)"

text \<open>
  Only the submit thread completes copies, so the first compare-and-exchange of \<open>addToBuff\<close>
  succeeds here.
\<close>

definition onCopyCompleted :: "u64 \<Rightarrow> ETACalculator \<Rightarrow> ETACalculator" where
  "onCopyCompleted sz e =
     (let big = sz > BIG_FILE_SIZE;
          e = e\<lparr>bigSmallBuff := addToBuff_value (bigSmallBuff e) big\<rparr>
      in if big then e\<lparr>bigCopiesRemaining := bigCopiesRemaining e - 1\<rparr>
         else e\<lparr>smallCopiesRemaining := smallCopiesRemaining e - 1\<rparr>)"

definition update_bucket :: "real \<Rightarrow> CopySpeedBucket \<Rightarrow> CopySpeedBucket" where
  "update_bucket est bucket =
     (let alpha = 1 / 100;
          speed = (if sampleCount bucket = 0 then est
                   else (1 - alpha) * bytesPerSecond bucket + alpha * est)
      in bucket\<lparr>bytesPerSecond := speed, sampleCount := sampleCount bucket + 1\<rparr>)"

definition updateSpeedEstimate :: "bool \<Rightarrow> real \<Rightarrow> ETACalculator \<Rightarrow> ETACalculator outcome" where
  "updateSpeedEstimate ndebug est e =
     (let val = bigSmallBuff e
      in if unat (getCount val) \<ge> BUCKET_COUNT - 1 then
           (let idx = getBitsOnCount val BITSET_MASK
            in debug_assert ndebug ''idx <= 8'' (idx \<le> 8)
              (defined_if ''copySpeedBuckets[idx]'' (0 \<le> idx \<and> nat idx < length (copySpeedBuckets e))
                 (Inr (e\<lparr>copySpeedBuckets := (copySpeedBuckets e)[nat idx :=
                    update_bucket est (copySpeedBuckets e ! nat idx)]\<rparr>))))
         else Inr e)"

text \<open>
  The local function \<open>calculate\<close> of \<open>getEta\<close>. \<open>best_loop\<close> is its search for the nearest bucket
  with enough samples; \<open>std::round\<close> of a value that is not negative rounds half up.
\<close>

fun best_loop :: "CopySpeedBucket list \<Rightarrow> u64 \<Rightarrow> int \<Rightarrow> nat list \<Rightarrow> int \<Rightarrow> int \<Rightarrow> int" where
  "best_loop buckets threshold ideal [] bestIndex bestDiff = bestIndex"
| "best_loop buckets threshold ideal (i # is) bestIndex bestDiff =
     (let thisDiff = \<bar>ideal - int i\<bar>
      in if thisDiff < bestDiff \<and> sampleCount (buckets ! i) > threshold
         then best_loop buckets threshold ideal is (int i) thisDiff
         else best_loop buckets threshold ideal is bestIndex bestDiff)"

definition eta_position :: "ETACalculator \<Rightarrow> real" where
  "eta_position e =
     (let val = real (unat (bigCopiesRemaining e)) / real (unat (bigCopiesRemaining e + smallCopiesRemaining e));
          val = max 0 (min 1 val)
      in val * real (BUCKET_COUNT - 1))"

definition calculate :: "ETACalculator \<Rightarrow> u64 \<Rightarrow> real" where
  "calculate e threshold =
     (let val = eta_position e;
          buckets = copySpeedBuckets e;
          lo = buckets ! nat \<lfloor>val\<rfloor>;
          hi = buckets ! nat \<lceil>val\<rceil>
      in if sampleCount lo > threshold \<and> sampleCount hi > threshold then
           (let alpha = val - of_int \<lfloor>val\<rfloor>
            in bytesPerSecond lo * alpha + bytesPerSecond hi * (1 - alpha))
         else
           (let idealIndex = \<lfloor>val + 1 / 2\<rfloor>;
                bestIndex = best_loop buckets threshold idealIndex [0..<BUCKET_COUNT] (-1) (2 ^ 31 - 1)
            in if bestIndex \<noteq> -1 then bytesPerSecond (buckets ! nat bestIndex) else -1))"

definition getEta :: "ETACalculator \<Rightarrow> real outcome" where
  "getEta e =
     (if bigCopiesRemaining e = 0 \<and> smallCopiesRemaining e = 0 then Inr 0
      else defined_if ''double division by zero''
        (bigCopiesRemaining e + smallCopiesRemaining e \<noteq> 0)
        (let retval = calculate e 20
         in Inr (if retval = -1 then calculate e 1 else retval)))"

section \<open>Correctness\<close>

text \<open>
  C28. The rolling bitset remembers the last 56 values in order and counts how many of them are
  populated, saturating at 56; the bits counted under \<open>BITSET_MASK\<close> are the \<open>true\<close> values among
  the last eight.
\<close>

theorem rolling_bitset_correct:
  "let v = fold (\<lambda>b v. addToBuff_value v b) bs 0
   in bitset_list v = take 56 (rev bs) \<and> unat (getCount v) = min 56 (length bs) \<and>
      getBitsOnCount v BITSET_MASK = int (length (filter id (take 8 (rev bs))))"
proof -
  let ?v = "fold (\<lambda>b v. addToBuff_value v b) bs 0"
  have h: "bitset_wf ?v" "bitset_list ?v = take 56 (rev bs)"
    using addToBuff_history [of 0 bs] by simp_all
  have "unat (getCount ?v) = length (bitset_list ?v)" by (simp add: bitset_list_length)
  then have "unat (getCount ?v) = min 56 (length bs)" using h(2) by simp
  moreover have "take 8 (bitset_list ?v) = take 8 (rev bs)" using h(2) by (simp add: min_def)
  then have "getBitsOnCount ?v BITSET_MASK = int (length (filter id (take 8 (rev bs))))"
    using getBitsOnCount_list [OF h(1)] by (simp add: BITSET_MASK_def)
  ultimately show ?thesis using h(2) by (simp add: Let_def)
qed

text \<open>The compare-and-exchange loop loses no update: it adds to the word it replaces.\<close>

lemma addToBuff_atomic:
  "addToBuff turns b = Some v \<Longrightarrow> \<exists>found \<in> snd ` set turns. v = addToBuff_value found b"
  by (induction turns b rule: addToBuff.induct) (auto split: if_splits)

text \<open>The calls a calculator receives, and the speeds it may report after them.\<close>

datatype eta_event = Added u64 | Completed u64 | Speed real

fun run_eta :: "bool \<Rightarrow> eta_event list \<Rightarrow> ETACalculator \<Rightarrow> ETACalculator outcome" where
  "run_eta nd [] e = Inr e"
| "run_eta nd (Added n # evs) e = run_eta nd evs (onCopyAdded n e)"
| "run_eta nd (Completed n # evs) e = run_eta nd evs (onCopyCompleted n e)"
| "run_eta nd (Speed v # evs) e = and_then (updateSpeedEstimate nd v e) (run_eta nd evs)"

definition eta_ok :: "real \<Rightarrow> real \<Rightarrow> ETACalculator \<Rightarrow> bool" where
  "eta_ok lo hi e \<longleftrightarrow> length (copySpeedBuckets e) = BUCKET_COUNT \<and> bitset_wf (bigSmallBuff e) \<and>
     (\<forall>b \<in> set (copySpeedBuckets e). sampleCount b \<noteq> 0 \<longrightarrow> lo \<le> bytesPerSecond b \<and> bytesPerSecond b \<le> hi)"

lemma eta_ok_init: "eta_ok lo hi ETACalculator_init"
  by (simp add: eta_ok_def ETACalculator_init_def)

lemma eta_ok_added: "eta_ok lo hi e \<Longrightarrow> eta_ok lo hi (onCopyAdded n e)"
  by (simp add: eta_ok_def onCopyAdded_def)

lemma eta_ok_completed: "eta_ok lo hi e \<Longrightarrow> eta_ok lo hi (onCopyCompleted n e)"
  by (simp add: eta_ok_def onCopyCompleted_def Let_def addToBuff_wf)

lemma convex_between:
  fixes x y :: real
  assumes "0 \<le> a" "a \<le> 1" "lo \<le> x" "x \<le> hi" "lo \<le> y" "y \<le> hi"
  shows "lo \<le> (1 - a) * x + a * y" "(1 - a) * x + a * y \<le> hi"
proof -
  have "(1 - a) * lo + a * lo \<le> (1 - a) * x + a * y" "(1 - a) * x + a * y \<le> (1 - a) * hi + a * hi"
    using assms by (auto intro!: add_mono mult_left_mono)
  then show "lo \<le> (1 - a) * x + a * y" "(1 - a) * x + a * y \<le> hi" by (simp_all add: algebra_simps)
qed

lemma eta_ok_speed:
  assumes "eta_ok lo hi e" "lo \<le> v" "v \<le> hi"
  obtains e' where "updateSpeedEstimate nd v e = Inr e'" "eta_ok lo hi e'"
proof -
  let ?idx = "getBitsOnCount (bigSmallBuff e) BITSET_MASK"
  have len: "length (copySpeedBuckets e) = 9" using assms(1) by (simp add: eta_ok_def BUCKET_COUNT_def)
  have "length (filter id (take 8 (bitset_list (bigSmallBuff e)))) \<le> 8"
    by (rule order_trans [OF length_filter_le]) simp
  then have idx: "0 \<le> ?idx" "?idx \<le> 8"
    using getBitsOnCount_list [of "bigSmallBuff e"] assms(1)
    by (simp_all add: eta_ok_def BITSET_MASK_def)
  let ?b = "copySpeedBuckets e ! nat ?idx"
  have b: "?b \<in> set (copySpeedBuckets e)" using idx len by simp
  then have "sampleCount ?b \<noteq> 0 \<longrightarrow> lo \<le> bytesPerSecond ?b \<and> bytesPerSecond ?b \<le> hi"
    using assms(1) by (simp add: eta_ok_def)
  then have "lo \<le> bytesPerSecond (update_bucket v ?b) \<and> bytesPerSecond (update_bucket v ?b) \<le> hi"
    using assms(2,3) by (auto simp: update_bucket_def Let_def)
  then have "eta_ok lo hi (e\<lparr>copySpeedBuckets := (copySpeedBuckets e)[nat ?idx := update_bucket v ?b]\<rparr>)"
    using assms(1) by (auto simp: eta_ok_def dest!: set_update_subset_insert [THEN subsetD])
  moreover have "nat ?idx < 9" using idx by simp
  ultimately show thesis using that idx len assms(1)
    by (cases "unat (getCount (bigSmallBuff e)) \<ge> BUCKET_COUNT - 1") (simp_all add: updateSpeedEstimate_def Let_def)
qed

lemma eta_ok_run:
  assumes "eta_ok lo hi e" "\<forall>v. Speed v \<in> set evs \<longrightarrow> lo \<le> v \<and> v \<le> hi"
  shows "\<exists>e'. run_eta nd evs e = Inr e' \<and> eta_ok lo hi e'"
  using assms
proof (induction nd evs e rule: run_eta.induct)
  case (4 nd v evs e)
  then obtain e' where "updateSpeedEstimate nd v e = Inr e'" "eta_ok lo hi e'"
    using eta_ok_speed [of lo hi e v nd] by auto
  then show ?case using 4 by simp
qed (simp_all add: eta_ok_added eta_ok_completed)

lemma best_loop_spec:
  "best_loop bs th ideal is bi bd = bi \<or>
   (\<exists>i \<in> set is. best_loop bs th ideal is bi bd = int i \<and> th < sampleCount (bs ! i))"
  by (induction bs th ideal "is" bi bd rule: best_loop.induct) (auto simp: Let_def)

lemma eta_position_bounds: "0 \<le> eta_position e" "eta_position e \<le> 8"
  by (simp_all add: eta_position_def Let_def BUCKET_COUNT_def)

lemma calculate_range:
  assumes "eta_ok lo hi e"
  shows "calculate e th = -1 \<or> (lo \<le> calculate e th \<and> calculate e th \<le> hi)"
proof -
  let ?v = "eta_position e" and ?bs = "copySpeedBuckets e"
  have len: "length ?bs = 9" using assms by (simp add: eta_ok_def BUCKET_COUNT_def)
  have ok: "lo \<le> bytesPerSecond (?bs ! i) \<and> bytesPerSecond (?bs ! i) \<le> hi"
    if "i < 9" "th < sampleCount (?bs ! i)" for i
    using assms that len by (metis eta_ok_def nth_mem word_not_simps(1))
  have fl: "nat \<lfloor>?v\<rfloor> < 9" and ce: "nat \<lceil>?v\<rceil> < 9"
    using eta_position_bounds [of e] by (simp_all add: nat_less_iff floor_less_iff ceiling_less_iff)
  show ?thesis
  proof (cases "th < sampleCount (?bs ! nat \<lfloor>?v\<rfloor>) \<and> th < sampleCount (?bs ! nat \<lceil>?v\<rceil>)")
    case True
    let ?a = "?v - of_int \<lfloor>?v\<rfloor>"
    have "0 \<le> ?a" "?a \<le> 1" by linarith+
    then show ?thesis
      using convex_between [of ?a lo "bytesPerSecond (?bs ! nat \<lceil>?v\<rceil>)" hi "bytesPerSecond (?bs ! nat \<lfloor>?v\<rfloor>)"]
        True ok [OF fl] ok [OF ce] by (simp add: calculate_def Let_def mult.commute add.commute)
  next
    case False
    then show ?thesis
      using best_loop_spec [of ?bs th "\<lfloor>?v + 1 / 2\<rfloor>" "[0..<BUCKET_COUNT]" "-1" "2 ^ 31 - 1"] ok
      by (auto simp: calculate_def Let_def BUCKET_COUNT_def)
  qed
qed



text \<open>
  The weights of the interpolation are exchanged: one copy in 32 is big, so the mix lies a quarter
  of the way from the bucket for no big copies (100 bytes per second) to the bucket for one in
  eight (0 bytes per second), and the estimate is 25 instead of 75.
\<close>

lemma getEta_weights_exchanged:
  "getEta \<lparr>copySpeedBuckets = \<lparr>bytesPerSecond = 100, sampleCount = 50\<rparr> #
      \<lparr>bytesPerSecond = 0, sampleCount = 50\<rparr> # replicate 7 \<lparr>bytesPerSecond = 0, sampleCount = 0\<rparr>,
     bigCopiesRemaining = 1, smallCopiesRemaining = 31, bigSmallBuff = 0\<rparr> = Inr 25"
  by (simp add: getEta_def calculate_def eta_position_def Let_def BUCKET_COUNT_def)

end
