(* ===== verification/Sys_Util.thy ===== *)
theory Sys_Util
  imports Wcp_Prelude
begin

text \<open>
  \<open>src/Util.cpp\<close>, \<open>src/Util.hpp\<close> and \<open>src/ScopedFileDescriptor.cpp\<close>: the wrappers
  around the system calls that \<open>wcp\<close> makes outside the ring. The system calls themselves are an
  argument, the record \<open>os\<close> of functions on a world of an arbitrary type; a call gives back its
  result, the error number it would store in \<open>errno\<close>, what it writes to memory, and the new world.
  As on Linux, \<open>errno\<close> is stored only by a call that fails.
\<close>

section \<open>Results\<close>

datatype Error = Error (humanFriendlyErrorMessage: string)

type_synonym 'a result_of = "Error + 'a"
type_synonym Result = "unit result_of"

abbreviation Success :: Result where "Success \<equiv> Inr ()"

section \<open>The operating system\<close>

type_synonym path = string

record statx =
  stx_mode :: u32
  stx_size :: u64
  stx_blksize :: u32

record linux_dirent64 =
  d_reclen :: u16
  d_type :: u8
  d_name :: string

text \<open>
  \<open>os_getdents64\<close> fills a buffer of the given size: the buffer is the function that gives the
  directory entry that starts at an offset.
\<close>

record 'w os =
  os_open :: "path \<Rightarrow> int \<Rightarrow> u32 \<Rightarrow> 'w \<Rightarrow> int \<times> int \<times> 'w"
  os_close :: "int \<Rightarrow> 'w \<Rightarrow> int \<times> int \<times> 'w"
  os_mkdir :: "path \<Rightarrow> u32 \<Rightarrow> 'w \<Rightarrow> int \<times> int \<times> 'w"
  os_stat64 :: "path \<Rightarrow> 'w \<Rightarrow> int \<times> u32"
  os_statx :: "int \<Rightarrow> path \<Rightarrow> int \<Rightarrow> u32 \<Rightarrow> 'w \<Rightarrow> int \<times> int \<times> statx \<times> 'w"
  os_getdents64 :: "int \<Rightarrow> u64 \<Rightarrow> 'w \<Rightarrow> int \<times> int \<times> (nat \<Rightarrow> linux_dirent64) \<times> 'w"
  os_readlinkat :: "int \<Rightarrow> path \<Rightarrow> nat \<Rightarrow> 'w \<Rightarrow> int \<times> int \<times> string \<times> 'w"
  os_symlink :: "path \<Rightarrow> path \<Rightarrow> 'w \<Rightarrow> int \<times> int \<times> 'w"
  os_strerror :: "int \<Rightarrow> string"
  os_rand :: "'w \<Rightarrow> int \<times> 'w"

abbreviation (input) O_RDONLY :: int where "O_RDONLY \<equiv> 0"
abbreviation (input) O_WRONLY :: int where "O_WRONLY \<equiv> 1"
abbreviation (input) O_CREAT :: int where "O_CREAT \<equiv> 0x40"
abbreviation (input) O_TRUNC :: int where "O_TRUNC \<equiv> 0x200"
abbreviation (input) O_DIRECT :: int where "O_DIRECT \<equiv> 0x4000"
abbreviation (input) O_DIRECTORY :: int where "O_DIRECTORY \<equiv> 0x10000"
abbreviation (input) O_CLOEXEC :: int where "O_CLOEXEC \<equiv> 0x80000"
abbreviation (input) AT_FDCWD :: int where "AT_FDCWD \<equiv> -100"
abbreviation (input) STATX_BASIC_STATS :: u32 where "STATX_BASIC_STATS \<equiv> 0x7FF"
abbreviation (input) S_IRWXU :: u32 where "S_IRWXU \<equiv> 0x1C0"

definition S_IFMT_is :: "u32 \<Rightarrow> u32 \<Rightarrow> bool" where
  "S_IFMT_is fmt mode \<longleftrightarrow> mode AND 0xF000 = fmt"

abbreviation "S_ISFIFO \<equiv> S_IFMT_is 0x1000"
abbreviation "S_ISCHR \<equiv> S_IFMT_is 0x2000"
abbreviation "S_ISDIR \<equiv> S_IFMT_is 0x4000"
abbreviation "S_ISREG \<equiv> S_IFMT_is 0x8000"
abbreviation "S_ISLNK \<equiv> S_IFMT_is 0xA000"
abbreviation "S_ISSOCK \<equiv> S_IFMT_is 0xC000"

abbreviation (input) NUL :: char where "NUL \<equiv> CHR 0x00"
abbreviation (input) QUOTE :: string where "QUOTE \<equiv> [CHR 0x22]"

text \<open>What a system call sees of a C++ string: the characters before the first NUL.\<close>

definition c_str :: "string \<Rightarrow> string" where
  "c_str s = takeWhile (\<lambda>c. c \<noteq> NUL) s"

lemma c_str_id: "NUL \<notin> set s \<Longrightarrow> c_str s = s"
  by (auto simp: c_str_def takeWhile_eq_all_conv)

section \<open>retrySyscall\<close>

text \<open>
  The function that is retried maps \<open>errno\<close> and the variables it captured to their new values.
  \<open>errno\<close> is cleared once, before the loop.
\<close>

fun retry_loop :: "nat \<Rightarrow> (int \<Rightarrow> 's \<Rightarrow> int \<times> 's) \<Rightarrow> int \<Rightarrow> 's \<Rightarrow> int \<times> 's" where
  "retry_loop 0 func errno s = (errno, s)"
| "retry_loop (Suc tries) func errno s =
     (case func errno s of (errno, s) \<Rightarrow>
        if errno = EINTR \<or> errno = EAGAIN then retry_loop tries func errno s else (errno, s))"

definition retrySyscall :: "(int \<Rightarrow> 's \<Rightarrow> int \<times> 's) \<Rightarrow> 's \<Rightarrow> int \<times> 's" where
  "retrySyscall func s = retry_loop 5 func 0 s"

section \<open>Files\<close>

fun myOpen_loop :: "'w os \<Rightarrow> nat \<Rightarrow> path \<Rightarrow> int \<Rightarrow> u32 \<Rightarrow> int \<times> int \<times> 'w \<Rightarrow> int \<times> int \<times> 'w" where
  "myOpen_loop os 0 path oflag mode (fd, errno, w) = (fd, errno, w)"
| "myOpen_loop os (Suc tries) path oflag mode (fd, errno, w) =
     (case os_open os (c_str path) oflag mode w of (fd, err, w) \<Rightarrow>
        let errno = (if fd < 0 then err else errno)
        in if fd < 0 \<and> oflag AND O_DIRECT \<noteq> 0 \<and> errno = EINVAL
           then myOpen_loop os tries path (oflag XOR O_DIRECT) mode (fd, errno, w)
           else if fd < 0 \<and> (errno = EINTR \<or> errno = EAGAIN)
           then myOpen_loop os tries path oflag mode (fd, errno, w)
           else (fd, errno, w))"

definition open_error :: "'w os \<Rightarrow> path \<Rightarrow> int \<Rightarrow> Error" where
  "open_error os path errno =
     Error (''Couldn't open '' @ QUOTE @ path @ QUOTE @ '': '' @ QUOTE @ os_strerror os errno @ QUOTE)"

definition myOpen :: "'w os \<Rightarrow> path \<Rightarrow> int \<Rightarrow> u32 \<Rightarrow> 'w \<Rightarrow> int result_of \<times> 'w" where
  "myOpen os path oflag mode w =
     (case myOpen_loop os 5 path oflag mode (-1, 0, w) of (fd, errno, w) \<Rightarrow>
        if fd < 0 then (Inl (open_error os path errno), w) else (Inr fd, w))"

definition myClose :: "'w os \<Rightarrow> int \<Rightarrow> 'w \<Rightarrow> Result \<times> 'w" where
  "myClose os fd w =
     (case os_close os fd w of (err, errno, w) \<Rightarrow>
        if err < 0
        then (Inl (Error (''Failure on closing file: '' @ QUOTE @ os_strerror os errno @ QUOTE)), w)
        else (Success, w))"

definition myStatx :: "'w os \<Rightarrow> int \<Rightarrow> path \<Rightarrow> int \<Rightarrow> u32 \<Rightarrow> statx \<Rightarrow> 'w \<Rightarrow> Result \<times> statx \<times> 'w" where
  "myStatx os fd path flags msk buf w =
     (case retrySyscall
             (\<lambda>errno (buf, w). case os_statx os fd (c_str path) flags msk w of (ret, err, buf', w') \<Rightarrow>
                if ret < 0 then (err, buf, w') else (errno, buf', w'))
             (buf, w) of
        (err, buf, w) \<Rightarrow>
          if err \<noteq> 0
          then (Inl (Error (''Failed to stat '' @ QUOTE @ path @ QUOTE @ '': '' @ QUOTE @ os_strerror os err @ QUOTE)),
                buf, w)
          else (Success, buf, w))"

definition myGetDents :: "'w os \<Rightarrow> int \<Rightarrow> path \<Rightarrow> (nat \<Rightarrow> linux_dirent64) \<Rightarrow> u64 \<Rightarrow> 'w \<Rightarrow>
    u64 result_of \<times> (nat \<Rightarrow> linux_dirent64) \<times> 'w" where
  "myGetDents os dfd path buffer bufferSize w =
     (case retrySyscall
             (\<lambda>errno (retval, buffer, w). case os_getdents64 os dfd bufferSize w of (ret, err, buffer', w') \<Rightarrow>
                if ret < 0 then (err, ret, buffer, w') else (errno, ret, buffer', w'))
             (0, buffer, w) of
        (err, retval, buffer, w) \<Rightarrow>
          if err \<noteq> 0
          then (Inl (Error (''Couldn't open directory '' @ QUOTE @ path @ QUOTE @ '': '' @ QUOTE @
                  os_strerror os err @ QUOTE)), buffer, w)
          else (Inr (word_of_int retval), buffer, w))"

text \<open>
  \<open>std::string::resize\<close>, and the loop of \<open>myReadlink\<close> that enlarges the buffer until the target
  of the link fits. The loop has no bound of its own; \<open>None\<close> stands for a loop that does not end.
\<close>

definition resize :: "nat \<Rightarrow> string \<Rightarrow> string" where
  "resize n s = take n s @ replicate (n - length s) NUL"

partial_function (option) readlink_fill ::
  "'w os \<Rightarrow> int \<Rightarrow> path \<Rightarrow> int \<Rightarrow> string \<Rightarrow> 'w \<Rightarrow> (int \<times> string \<times> 'w) option" where
  "readlink_fill os dfd linkPath errno retval w =
     (case os_readlinkat os dfd (c_str linkPath) (length retval) w of (bytes, err, content, w) \<Rightarrow>
        if bytes = -1 then Some (err, retval, w)
        else let retval = content @ drop (length content) retval
             in if nat bytes < length retval then Some (errno, resize (nat bytes) (retval[nat bytes := NUL]), w)
                else readlink_fill os dfd linkPath errno (resize (length retval + 1024) retval) w)"

definition myReadlink :: "'w os \<Rightarrow> int \<Rightarrow> path \<Rightarrow> 'w \<Rightarrow> (string result_of \<times> 'w) option" where
  "myReadlink os dfd linkPath w =
     (case retrySyscall
             (\<lambda>errno s. case s of None \<Rightarrow> (0, None) | Some (retval, w) \<Rightarrow>
                (case readlink_fill os dfd linkPath errno retval w of
                   None \<Rightarrow> (0, None)
                 | Some (errno, retval, w) \<Rightarrow> (errno, Some (retval, w))))
             (Some (resize 1024 [], w)) of
        (err, None) \<Rightarrow> None
      | (err, Some (retval, w)) \<Rightarrow>
          Some (if err \<noteq> 0
                then (Inl (Error (''Couldn't read link: '' @ QUOTE @ linkPath @ QUOTE @ '': '' @ QUOTE @
                        os_strerror os err @ QUOTE)), w)
                else (Inr retval, w)))"

section \<open>Directories\<close>

definition mkdirOne :: "'w os \<Rightarrow> path \<Rightarrow> 'w \<Rightarrow> 'w outcome" where
  "mkdirOne os onePath w =
     (case os_mkdir os onePath S_IRWXU w of (ret, err, w) \<Rightarrow>
        let errno = (if ret < 0 then err else 0)
        in release_assert ''errno == 0 || errno == EEXIST'' (errno = 0 \<or> errno = EEXIST)
          (if errno = EEXIST then
             (case os_stat64 os onePath w of (ret, mode) \<Rightarrow>
                release_assert ''stat64(onePath, &st) == 0'' (ret = 0)
               (release_assert ''S_ISDIR(st.st_mode)'' (S_ISDIR mode) (Inr w)))
           else Inr w))"

text \<open>
  The loop of \<open>recursiveMkdir\<close> from index \<open>i\<close> on; the list holds the indices still to be visited.
  The string is cut at \<open>i\<close> with a NUL and restored.
\<close>

fun mkdir_loop :: "'w os \<Rightarrow> path \<Rightarrow> nat list \<Rightarrow> 'w \<Rightarrow> 'w outcome" where
  "mkdir_loop os path [] w = Inr w"
| "mkdir_loop os path (i # is) w =
     (if path ! i = CHR ''/''
      then and_then (mkdirOne os (c_str (path[i := NUL])) w) (mkdir_loop os path is)
      else mkdir_loop os path is w)"

definition recursiveMkdir :: "'w os \<Rightarrow> path \<Rightarrow> 'w \<Rightarrow> 'w outcome" where
  "recursiveMkdir os path w =
     and_then (mkdir_loop os path [1..<length path] w) (mkdirOne os (c_str path))"

section \<open>ScopedFileDescriptor\<close>

text \<open>The object is its field \<open>fd\<close>, -1 until a file is opened.\<close>

type_synonym ScopedFileDescriptor = int

definition ScopedFileDescriptor_init :: ScopedFileDescriptor where
  "ScopedFileDescriptor_init = -1"

definition ScopedFileDescriptor_open ::
  "'w os \<Rightarrow> path \<Rightarrow> int \<Rightarrow> u32 \<Rightarrow> ScopedFileDescriptor \<Rightarrow> 'w \<Rightarrow> Result \<times> ScopedFileDescriptor \<times> 'w" where
  "ScopedFileDescriptor_open os path oflag mode self w =
     (case myOpen os path oflag mode w of
        (Inl e, w) \<Rightarrow> (Inl e, self, w)
      | (Inr fd, w) \<Rightarrow> (Success, fd, w))"

definition ScopedFileDescriptor_getFd :: "bool \<Rightarrow> ScopedFileDescriptor \<Rightarrow> int outcome" where
  "ScopedFileDescriptor_getFd ndebug self = debug_assert ndebug ''this->fd > 0'' (self > 0) (Inr self)"

definition ScopedFileDescriptor_dtor :: "bool \<Rightarrow> 'w os \<Rightarrow> ScopedFileDescriptor \<Rightarrow> 'w \<Rightarrow> 'w outcome" where
  "ScopedFileDescriptor_dtor ndebug os self w =
     (case os_close os self w of (ret, errno, w) \<Rightarrow> debug_assert ndebug ''ret == 0'' (ret = 0) (Inr w))"

section \<open>Correctness\<close>

subsection \<open>Retrying\<close>

text \<open>The shape of every function that \<open>wcp\<close> retries: one system call, \<open>errno\<close> stored when it fails.\<close>

definition one_call :: "('s \<Rightarrow> int \<times> int \<times> 's) \<Rightarrow> int \<Rightarrow> 's \<Rightarrow> int \<times> 's" where
  "one_call call errno s = (case call s of (ret, err, s') \<Rightarrow> (if ret < 0 then err else errno, s'))"

definition after_call :: "('s \<Rightarrow> int \<times> int \<times> 's) \<Rightarrow> 's \<Rightarrow> 's" where
  "after_call call s = snd (snd (call s))"

lemma retry_stale:
  assumes "e = EINTR \<or> e = EAGAIN" "\<forall>k < n. 0 \<le> fst (call ((after_call call ^^ k) s))"
  shows "retry_loop n (one_call call) e s = (e, (after_call call ^^ n) s)"
  using assms(2)
proof (induction n arbitrary: s)
  case (Suc n)
  have "0 \<le> fst (call s)" using Suc.prems by (metis funpow_0 zero_less_Suc)
  then have one: "one_call call e s = (e, after_call call s)"
    by (auto simp: one_call_def after_call_def split: prod.splits)
  have "\<forall>k < n. 0 \<le> fst (call ((after_call call ^^ k) (after_call call s)))"
    using Suc.prems by (metis comp_apply funpow_Suc_right not_less_eq)
  from Suc.IH [OF this] show ?case using one assms(1) by (simp add: funpow_swap1)
qed simp

text \<open>
  C26. \<open>retrySyscall\<close> makes one call and returns 0 when the call succeeds at once, and makes one call
  and returns its error when it fails with anything but EINTR and EAGAIN. When the first call is
  interrupted, \<open>errno\<close> is not cleared before the next one: although all later calls succeed, the
  function is called five times and the error of the first call is returned.
\<close>

theorem retrySyscall_outcomes:
  assumes "call s = (ret, err, s1)"
  shows "(0 \<le> ret \<longrightarrow> retrySyscall (one_call call) s = (0, s1)) \<and>
    (ret < 0 \<and> err \<noteq> EINTR \<and> err \<noteq> EAGAIN \<longrightarrow> retrySyscall (one_call call) s = (err, s1)) \<and>
    (ret < 0 \<and> (err = EINTR \<or> err = EAGAIN) \<and> (\<forall>k < 4. 0 \<le> fst (call ((after_call call ^^ k) s1))) \<longrightarrow>
       retrySyscall (one_call call) s = (err, (after_call call ^^ 5) s))"
proof -
  have five: "(5 :: nat) = Suc 4" by simp
  have first: "one_call call 0 s = (if ret < 0 then err else 0, s1)" "s1 = after_call call s"
    using assms by (simp_all add: one_call_def after_call_def)
  have "retrySyscall (one_call call) s = (err, (after_call call ^^ 5) s)"
    if "ret < 0" "err = EINTR \<or> err = EAGAIN" "\<forall>k < 4. 0 \<le> fst (call ((after_call call ^^ k) s1))"
    unfolding retrySyscall_def five retry_loop.simps first(1) funpow_Suc_right comp_apply first(2) [symmetric]
    using retry_stale [OF that(2,3)] that(1,2) by simp
  moreover have "retrySyscall (one_call call) s = (0, s1)" if "0 \<le> ret"
    unfolding retrySyscall_def five retry_loop.simps first(1) using that by simp
  moreover have "retrySyscall (one_call call) s = (err, s1)" if "ret < 0" "err \<noteq> EINTR" "err \<noteq> EAGAIN"
    unfolding retrySyscall_def five retry_loop.simps first(1) using that by simp
  ultimately show ?thesis by blast
qed

text \<open>A call that is interrupted once and succeeds from then on; the state counts the calls.\<close>

theorem retrySyscall_outcomes_witness:
  "retrySyscall (one_call (\<lambda>n :: nat. (if n = 0 then - 1 else 0, EINTR, n + 1))) 0 = (EINTR, 5) \<and>
   retrySyscall (one_call (\<lambda>n :: nat. (0, EINTR, n + 1))) 0 = (0, 1)"
proof -
  let ?c = "\<lambda>n :: nat. (if n = 0 then - 1 else 0 :: int, EINTR, n + 1)"
  have pow: "(after_call ?c ^^ k) m = m + k" for k m
    by (induction k) (simp_all add: after_call_def)
  show ?thesis
    using retrySyscall_outcomes [of ?c 0 "- 1" EINTR 1] pow [of _ 1] pow [of 5 0]
      retrySyscall_outcomes [of "\<lambda>n :: nat. (0, EINTR, n + 1)" 0 0 EINTR 1] by simp
qed

lemma myStatx_ok:
  "os_statx os fd (c_str path) flags msk w = (ret, err, buf', w') \<Longrightarrow> 0 \<le> ret \<Longrightarrow>
     myStatx os fd path flags msk buf w = (Success, buf', w')"
  by (simp add: myStatx_def retrySyscall_def numeral_eq_Suc)

subsection \<open>Opening\<close>

text \<open>
  \<open>refused os path mode f w n f' w'\<close>: from the world \<open>w\<close>, \<open>n\<close> calls of \<open>open\<close> fail in a way that is
  worth another try: the call was interrupted, or the flags ask for \<open>O_DIRECT\<close> and the file system
  does not support it, after which the flags are without it.
\<close>

inductive refused :: "'w os \<Rightarrow> path \<Rightarrow> u32 \<Rightarrow> int \<Rightarrow> 'w \<Rightarrow> nat \<Rightarrow> int \<Rightarrow> 'w \<Rightarrow> bool"
  for os path mode where
  none: "refused os path mode f w 0 f w"
| interrupted: "os_open os (c_str path) f mode w = (fd, err, w1) \<Longrightarrow> fd < 0 \<Longrightarrow> err = EINTR \<or> err = EAGAIN \<Longrightarrow>
    refused os path mode f w1 n f' w' \<Longrightarrow> refused os path mode f w (Suc n) f' w'"
| no_direct: "os_open os (c_str path) f mode w = (fd, EINVAL, w1) \<Longrightarrow> fd < 0 \<Longrightarrow> f AND O_DIRECT \<noteq> 0 \<Longrightarrow>
    refused os path mode (f XOR O_DIRECT) w1 n f' w' \<Longrightarrow> refused os path mode f w (Suc n) f' w'"

definition last_try :: "int \<Rightarrow> int \<Rightarrow> int \<Rightarrow> bool" where
  "last_try f fd err \<longleftrightarrow> 0 \<le> fd \<or> \<not> (f AND O_DIRECT \<noteq> 0 \<and> err = EINVAL \<or> err = EINTR \<or> err = EAGAIN)"

lemma myOpen_loop_refused:
  assumes "refused os path mode f w n f' w'" "n \<le> tries"
  shows "\<exists>fd errno'. myOpen_loop os tries path f mode (fd0, errno, w) =
    myOpen_loop os (tries - n) path f' mode (fd, errno', w') \<and> (n = 0 \<longrightarrow> fd = fd0) \<and> (0 < n \<longrightarrow> fd < 0)"
  using assms
proof (induction arbitrary: tries fd0 errno rule: refused.induct)
  case (interrupted f w fd err w1 n f' w')
  then obtain t where t: "tries = Suc t" "n \<le> t" by (cases tries) auto
  obtain fd' errno' where *: "myOpen_loop os t path f mode (fd, err, w1) =
      myOpen_loop os (t - n) path f' mode (fd', errno', w')" "n = 0 \<longrightarrow> fd' = fd" "0 < n \<longrightarrow> fd' < 0"
    using interrupted.IH [OF t(2), of fd err] by blast
  have "myOpen_loop os tries path f mode (fd0, errno, w) = myOpen_loop os t path f mode (fd, err, w1)"
    using interrupted.hyps t(1) by auto
  then show ?case using * t interrupted.hyps(2) by (cases "n = 0") auto
next
  case (no_direct f w fd w1 n f' w')
  then obtain t where t: "tries = Suc t" "n \<le> t" by (cases tries) auto
  obtain fd' errno' where *: "myOpen_loop os t path (f XOR O_DIRECT) mode (fd, EINVAL, w1) =
      myOpen_loop os (t - n) path f' mode (fd', errno', w')" "n = 0 \<longrightarrow> fd' = fd" "0 < n \<longrightarrow> fd' < 0"
    using no_direct.IH [OF t(2), of fd EINVAL] by blast
  have "myOpen_loop os tries path f mode (fd0, errno, w) =
      myOpen_loop os t path (f XOR O_DIRECT) mode (fd, EINVAL, w1)"
    using no_direct.hyps t(1) by simp
  then show ?case using * t no_direct.hyps(2) by (cases "n = 0") auto
qed auto

lemma myOpen_first:
  assumes "os_open os (c_str path) f mode w = (fd, err, w')"
  shows "0 \<le> fd \<Longrightarrow> myOpen os path f mode w = (Inr fd, w')"
    and "fd < 0 \<Longrightarrow> last_try f fd err \<Longrightarrow> myOpen os path f mode w = (Inl (open_error os path err), w')"
proof -
  have five: "(5 :: nat) = Suc 4" by simp
  show "0 \<le> fd \<Longrightarrow> myOpen os path f mode w = (Inr fd, w')"
    unfolding myOpen_def five myOpen_loop.simps using assms by simp
  show "fd < 0 \<Longrightarrow> last_try f fd err \<Longrightarrow> myOpen os path f mode w = (Inl (open_error os path err), w')"
    unfolding myOpen_def five myOpen_loop.simps using assms by (auto simp: last_try_def)
qed

text \<open>
  C25. \<open>myOpen\<close> tries \<open>open\<close> at most five times. After fewer than five refusals (interruptions, and a
  file system without \<open>O_DIRECT\<close>, whose next try is without that flag) it returns the descriptor of
  the first call that succeeds, or the error of the first call that fails for another reason; five
  refusals are an error.
\<close>

theorem myOpen_correct:
  assumes "refused os path mode f w n f' w'" "n \<le> 5"
    and "os_open os (c_str path) f' mode w' = (fd, err, w'')"
  shows "if n = 5 then \<exists>e. myOpen os path f mode w = (Inl e, w')
    else last_try f' fd err \<longrightarrow>
      myOpen os path f mode w = (if 0 \<le> fd then Inr fd else Inl (open_error os path err), w'')"
proof -
  obtain fd' errno' where run: "myOpen_loop os 5 path f mode (- 1, 0, w) =
      myOpen_loop os (5 - n) path f' mode (fd', errno', w')" "0 < n \<longrightarrow> fd' < 0"
    using myOpen_loop_refused [OF assms(1,2)] by blast
  show ?thesis
  proof (cases "n = 5")
    case True
    then show ?thesis using run by (simp add: myOpen_def)
  next
    case False
    then obtain t where "5 - n = Suc t" using assms(2) by (metis Suc_pred diff_is_0_eq le_antisym not_gr_zero)
    then show ?thesis using run assms(3) False by (auto simp: myOpen_def last_try_def)
  qed
qed

definition no_os :: "'w os" where
  "no_os = \<lparr>os_open = \<lambda>_ _ _ w. (- 1, ENOENT, w), os_close = \<lambda>_ w. (0, 0, w), os_mkdir = \<lambda>_ _ w. (0, 0, w),
     os_stat64 = \<lambda>_ _. (0, 0x4000), os_statx = \<lambda>_ _ _ _ w. (- 1, ENOENT, \<lparr>stx_mode = 0, stx_size = 0, stx_blksize = 0\<rparr>, w),
     os_getdents64 = \<lambda>_ _ w. (0, 0, \<lambda>_. \<lparr>d_reclen = 0, d_type = 0, d_name = []\<rparr>, w),
     os_readlinkat = \<lambda>_ _ _ w. (- 1, ENOENT, [], w), os_symlink = \<lambda>_ _ w. (0, 0, w), os_strerror = \<lambda>_. [], os_rand = \<lambda>w. (0, w)\<rparr>"

text \<open>A file system without \<open>O_DIRECT\<close>: the second try succeeds.\<close>

theorem myOpen_correct_witness:
  "myOpen (no_os\<lparr>os_open := \<lambda>p f m n. if f AND O_DIRECT \<noteq> 0 then (- 1, EINVAL, n + 1) else (7, 0, n + 1 :: nat)\<rparr>)
     ''a'' (O_DIRECT OR O_CLOEXEC) 0 0 = (Inr 7, 2)"
proof -
  let ?os = "no_os\<lparr>os_open := \<lambda>p f m n. if f AND O_DIRECT \<noteq> 0 then (- 1, EINVAL, n + 1) else (7, 0, n + 1 :: nat)\<rparr>"
  have "refused ?os ''a'' 0 (O_DIRECT OR O_CLOEXEC) 0 (Suc 0) ((O_DIRECT OR O_CLOEXEC) XOR O_DIRECT) 1"
    by (rule no_direct [where fd = "- 1", OF _ _ _ refused.none]) simp_all
  from myOpen_correct [OF this, of 7 0 2] show ?thesis by (simp add: last_try_def)
qed

subsection \<open>Links\<close>

text \<open>
  What \<open>readlinkat\<close> promises for a link with target \<open>t\<close>: it writes as much of the target as fits,
  and says how much that was.
\<close>

definition link_target :: "'w os \<Rightarrow> int \<Rightarrow> path \<Rightarrow> string \<Rightarrow> 'w \<Rightarrow> bool" where
  "link_target os dfd path t w \<longleftrightarrow> (\<forall>n. \<exists>err. os_readlinkat os dfd path n w = (int (min n (length t)), err, take n t, w))"

lemma readlink_fill_target:
  assumes "link_target os dfd (c_str path) t w"
  shows "readlink_fill os dfd path errno retval w = Some (errno, t, w)"
proof (induction "Suc (length t) - length retval" arbitrary: retval rule: less_induct)
  case less
  let ?n = "length retval"
  obtain err where r: "os_readlinkat os dfd (c_str path) ?n w = (int (min ?n (length t)), err, take ?n t, w)"
    using assms by (auto simp: link_target_def)
  let ?buf = "take ?n t @ drop (length (take ?n t)) retval"
  show ?case
  proof (cases "length t < ?n")
    case True
    then have "resize (length t) (?buf[length t := NUL]) = t" by (simp add: resize_def min_def)
    then show ?thesis using r True by (simp add: readlink_fill.simps [of os dfd path errno retval w] min_def Let_def)
  next
    case False
    then have "readlink_fill os dfd path errno retval w =
        readlink_fill os dfd path errno (resize (?n + 1024) ?buf) w"
      using r by (simp add: readlink_fill.simps [of os dfd path errno retval w] min_def Let_def)
    moreover have "length (resize (?n + 1024) ?buf) = ?n + 1024" by (simp add: resize_def)
    ultimately show ?thesis using less [of "resize (?n + 1024) ?buf"] False by simp
  qed
qed

text \<open>
  C24. \<open>myReadlink\<close> ends and returns the whole target of a link, however long it is: the buffer grows
  until the target fits.
\<close>

theorem myReadlink_target:
  assumes "link_target os dfd (c_str linkPath) t w"
  shows "myReadlink os dfd linkPath w = Some (Inr t, w)"
  using readlink_fill_target [OF assms]
  by (simp add: myReadlink_def retrySyscall_def numeral_eq_Suc)

theorem myReadlink_target_witness:
  "myReadlink (no_os\<lparr>os_readlinkat := \<lambda>d p n w. (int (min n 3000), 0, take n (replicate 3000 CHR ''x''), w)\<rparr>)
     AT_FDCWD ''l'' () = Some (Inr (replicate 3000 CHR ''x''), ())"
  by (rule myReadlink_target) (simp add: link_target_def)

subsection \<open>Directories\<close>

text \<open>The directories of a path, outermost first: its prefixes before each slash, and itself.\<close>

definition mkdir_prefixes :: "path \<Rightarrow> path list" where
  "mkdir_prefixes path = map (\<lambda>i. take i path) (filter (\<lambda>i. path ! i = CHR ''/'') [1..<length path]) @ [path]"

fun mkdir_all :: "'w os \<Rightarrow> path list \<Rightarrow> 'w \<Rightarrow> 'w outcome" where
  "mkdir_all os [] w = Inr w"
| "mkdir_all os (p # ps) w = and_then (mkdirOne os p w) (mkdir_all os ps)"

lemma c_str_cut:
  assumes "NUL \<notin> set path" "i < length path"
  shows "c_str (path[i := NUL]) = take i path"
proof -
  have "\<And>c. c \<in> set (take i path) \<Longrightarrow> c \<noteq> NUL" using assms(1) by (auto dest: in_set_takeD)
  then have "takeWhile (\<lambda>c. c \<noteq> NUL) (take i path @ NUL # drop (Suc i) path) = take i path"
    by (subst takeWhile_append2) simp_all
  then show ?thesis using assms(2) by (simp add: c_str_def upd_conv_take_nth_drop)
qed

lemma mkdir_all_append: "mkdir_all os (ps @ qs) w = and_then (mkdir_all os ps w) (mkdir_all os qs)"
proof (induction ps arbitrary: w)
  case (Cons p ps)
  then show ?case by (cases "mkdirOne os p w") auto
qed simp

lemma mkdir_loop_prefixes:
  assumes "NUL \<notin> set path" "set is \<subseteq> {..<length path}"
  shows "mkdir_loop os path is w =
    mkdir_all os (map (\<lambda>i. take i path) (filter (\<lambda>i. path ! i = CHR ''/'') is)) w"
  using assms(2)
proof (induction "is" arbitrary: w)
  case (Cons i "is")
  have "mkdir_loop os path is = mkdir_all os (map (\<lambda>i. take i path) (filter (\<lambda>i. path ! i = CHR ''/'') is))"
    using Cons by auto
  then show ?case using Cons.prems by (simp add: c_str_cut [OF assms(1)])
qed simp

lemma recursiveMkdir_prefixes:
  assumes "NUL \<notin> set path"
  shows "recursiveMkdir os path w = mkdir_all os (mkdir_prefixes path) w"
proof -
  have "and_then m (mkdirOne os path) = and_then m (mkdir_all os [path])" for m
    by (cases m; cases "mkdirOne os path (projr m)") auto
  then show ?thesis
    using mkdir_loop_prefixes [OF assms, of "[1..<length path]" os w]
    by (simp add: subset_eq recursiveMkdir_def mkdir_prefixes_def mkdir_all_append c_str_id [OF assms])
qed

text \<open>
  What \<open>mkdir\<close> and \<open>stat\<close> promise, for the directories \<open>is_dir\<close> of the world: \<open>mkdir\<close> reports
  success only when the path is a directory afterwards, it removes no directory, and \<open>stat\<close> tells
  the truth about directories.
\<close>

definition mkdir_laws :: "'w os \<Rightarrow> (path \<Rightarrow> 'w \<Rightarrow> bool) \<Rightarrow> bool" where
  "mkdir_laws os is_dir \<longleftrightarrow>
     (\<forall>p m w ret err w'. os_mkdir os p m w = (ret, err, w') \<longrightarrow>
        (0 \<le> ret \<longrightarrow> is_dir p w') \<and> (ret < 0 \<longrightarrow> err \<noteq> 0) \<and> (\<forall>q. is_dir q w \<longrightarrow> is_dir q w')) \<and>
     (\<forall>p w. fst (os_stat64 os p w) = 0 \<and> S_ISDIR (snd (os_stat64 os p w)) \<longrightarrow> is_dir p w)"

lemma mkdirOne_dir:
  assumes "mkdir_laws os is_dir" "mkdirOne os p w = Inr w'"
  shows "is_dir p w'" "is_dir q w \<Longrightarrow> is_dir q w'"
proof -
  obtain ret err w1 where m: "os_mkdir os p S_IRWXU w = (ret, err, w1)" by (metis prod_cases3)
  then have laws: "0 \<le> ret \<longrightarrow> is_dir p w1" "ret < 0 \<longrightarrow> err \<noteq> 0" "is_dir q w \<longrightarrow> is_dir q w1" for q
    using assms(1) unfolding mkdir_laws_def by blast+
  have st: "fst (os_stat64 os p w1) = 0 \<and> S_ISDIR (snd (os_stat64 os p w1)) \<longrightarrow> is_dir p w1"
    using assms(1) unfolding mkdir_laws_def by blast
  have w': "w' = w1" "0 \<le> ret \<or> (fst (os_stat64 os p w1) = 0 \<and> S_ISDIR (snd (os_stat64 os p w1)))"
    using assms(2) m laws(2)
    by (auto simp: mkdirOne_def outcome_simps Let_def split: if_splits prod.splits)
  show "is_dir p w'" using w' laws(1) st by auto
  show "is_dir q w \<Longrightarrow> is_dir q w'" using w'(1) laws(3) by simp
qed

lemma mkdir_all_dirs:
  assumes "mkdir_laws os is_dir" "mkdir_all os ps w = Inr w'"
  shows "(\<forall>p \<in> set ps. is_dir p w') \<and> (\<forall>q. is_dir q w \<longrightarrow> is_dir q w')"
  using assms(2)
proof (induction ps arbitrary: w)
  case (Cons p ps)
  then obtain w1 where "mkdirOne os p w = Inr w1" "mkdir_all os ps w1 = Inr w'"
    by (auto simp: and_then_Inr)
  then show ?case using Cons.IH [of w1] mkdirOne_dir [OF assms(1)] by auto
qed simp

text \<open>
  C23. \<open>recursiveMkdir\<close> makes the directories of a path from the outermost inwards, each once, and
  the path itself last; when it returns, all of them are directories, whatever existed before.
\<close>

theorem recursiveMkdir_creates:
  assumes "NUL \<notin> set path" "mkdir_laws os is_dir"
  shows "recursiveMkdir os path w = mkdir_all os (mkdir_prefixes path) w \<and>
    (\<forall>w'. recursiveMkdir os path w = Inr w' \<longrightarrow>
       is_dir path w' \<and> (\<forall>p \<in> set (mkdir_prefixes path). is_dir p w') \<and> (\<forall>q. is_dir q w \<longrightarrow> is_dir q w'))"
proof -
  have "path \<in> set (mkdir_prefixes path)" by (simp add: mkdir_prefixes_def)
  then show ?thesis
    using recursiveMkdir_prefixes [OF assms(1), of os w] mkdir_all_dirs [OF assms(2)] by metis
qed

text \<open>A file system that is the list of its directories; \<open>a/b\<close> is made with its parent.\<close>

definition list_fs :: "path list os" where
  "list_fs = no_os\<lparr>os_mkdir := \<lambda>p m w. if p \<in> set w then (- 1, EEXIST, w) else (0, 0, w @ [p]),
     os_stat64 := \<lambda>p w. if p \<in> set w then (0, 0x4000) else (- 1, 0)\<rparr>"

theorem recursiveMkdir_creates_witness:
  "recursiveMkdir list_fs ''/a/b'' [''/a''] = Inr [''/a'', ''/a/b''] \<and> mkdir_prefixes ''/a/b'' = [''/a'', ''/a/b'']"
proof -
  have laws: "mkdir_laws list_fs (\<lambda>p w. p \<in> set w)"
    by (auto simp: mkdir_laws_def list_fs_def split: if_splits)
  have pre: "mkdir_prefixes ''/a/b'' = [''/a'', ''/a/b'']"
    by (simp add: mkdir_prefixes_def upt_rec)
  show ?thesis
    using recursiveMkdir_creates [OF _ laws, of "''/a/b''" "[''/a'']"] pre
    by (simp add: mkdirOne_def list_fs_def S_IFMT_is_def)
qed

subsection \<open>Scoped descriptors\<close>

text \<open>
  C27. A \<open>ScopedFileDescriptor\<close> that opened a file closes that descriptor, once, when it goes out of
  scope, and its assertion holds when \<open>close\<close> succeeds. When the file could not be opened the
  destructor closes descriptor -1: a build with assertions aborts there, as \<open>close\<close> fails.
\<close>

theorem scoped_fd_closes:
  assumes "ScopedFileDescriptor_open os path oflag mode ScopedFileDescriptor_init w = (r, fd, w1)"
    and "os_close os fd w1 = (ret, err, w2)" and "fd < 0 \<longrightarrow> ret \<noteq> 0"
  shows "case r of
      Inr _ \<Rightarrow> myOpen os path oflag mode w = (Inr fd, w1) \<and> 0 \<le> fd \<and>
        (ret = 0 \<longrightarrow> ScopedFileDescriptor_dtor nd os fd w1 = Inr w2)
    | Inl e \<Rightarrow> myOpen os path oflag mode w = (Inl e, w1) \<and> fd = -1 \<and>
        ScopedFileDescriptor_dtor nd os fd w1 = (if nd then Inr w2 else Inl (AssertionFailed ''ret == 0''))"
proof (cases "myOpen os path oflag mode w")
  case (Pair res w')
  have nonneg: "0 \<le> f" if "res = Inr f" for f
    using Pair that by (auto simp: myOpen_def split: prod.splits if_splits)
  show ?thesis
    using assms Pair nonneg
    by (cases res) (auto simp: ScopedFileDescriptor_open_def ScopedFileDescriptor_init_def
        ScopedFileDescriptor_dtor_def debug_assert_def release_assert_def)
qed

theorem scoped_fd_closes_witness:
  "ScopedFileDescriptor_open no_os ''d'' 0 0 ScopedFileDescriptor_init () =
     (Inl (open_error no_os ''d'' ENOENT), -1, ()) \<and>
   ScopedFileDescriptor_dtor False (no_os\<lparr>os_close := \<lambda>fd w. (if fd < 0 then -1 else 0, 9, w)\<rparr>) (-1) () =
     Inl (AssertionFailed ''ret == 0'')"
proof -
  let ?os = "no_os\<lparr>os_close := \<lambda>fd w. (if fd < 0 then -1 else 0, 9, w)\<rparr> :: unit os"
  have o: "ScopedFileDescriptor_open ?os ''d'' 0 0 ScopedFileDescriptor_init () = (Inl (open_error ?os ''d'' ENOENT), -1, ())"
    "ScopedFileDescriptor_open no_os ''d'' 0 0 ScopedFileDescriptor_init () = (Inl (open_error no_os ''d'' ENOENT), -1, ())"
    by (simp_all add: ScopedFileDescriptor_open_def myOpen_def no_os_def numeral_eq_Suc ScopedFileDescriptor_init_def open_error_def)
  show ?thesis
    using scoped_fd_closes [OF o(1), of "-1" 9 "()" False] o(2) by simp
qed

end
