(* ===== verification/Copy_State.thy ===== *)
theory Copy_State
  imports Slab_Heap Eta_Calculator Sys_Util Uring_Types
begin

text \<open>
  The state of \<open>wcp\<close>: \<open>src/Config.cpp\<close>, the fields of \<open>CopyQueue\<close> (\<open>src/CopyQueue.hpp\<close>),
  \<open>CopyRunner\<close> (\<open>src/CopyRunner.hpp\<close>) and \<open>QueueFileDescriptor\<close>
  (\<open>src/QueueFileDescriptor.hpp\<close>). Runners share the two descriptors of their file and the
  counter of its chunks through pointers, so these objects live in stores of the queue record,
  maps from addresses to objects: \<open>new\<close> takes the next address, \<open>delete\<close> removes the object,
  and following a pointer to a deleted object is undefined behaviour.
\<close>

section \<open>Config\<close>

text \<open>The variables of \<open>src/Config.cpp\<close>, with the build flag \<open>NDEBUG\<close>.\<close>

record Config =
  NDEBUG :: bool
  DEBUG_FORCE_PARTIAL_READS :: bool
  DEBUG_FORCE_PARTIAL_WRITES :: bool
  NO_CLEANUP :: bool

definition Config_default :: "bool \<Rightarrow> Config" where
  "Config_default ndebug =
     \<lparr>NDEBUG = ndebug, DEBUG_FORCE_PARTIAL_READS = False, DEBUG_FORCE_PARTIAL_WRITES = False, NO_CLEANUP = ndebug\<rparr>"

section \<open>Objects\<close>

record QueueFileDescriptor =
  qfd_path :: path
  qfd_oflag :: int
  qfd_mode :: u32
  qfd_fd :: int

definition NEVER_OPENED_VAL :: int where "NEVER_OPENED_VAL = -1"
definition CLOSED_VAL :: int where "CLOSED_VAL = -2"

datatype EventType = Read | Write

text \<open>
  The two \<open>EventData\<close> objects of a runner differ in their \<open>resultOverride\<close> only; the field
  \<open>type\<close> is fixed by the position and \<open>copyData\<close> points back to the runner.
\<close>

record CopyRunner =
  savedError :: "Error option"
  sourceFd :: nat
  destFd :: nat
  cr_offset :: int
  cr_size :: int
  cr_alignment :: u64
  chunksRemaining :: nat
  buffer :: u64
  bufferAligned :: u64
  readOffset :: int
  writeOffset :: int
  jobsRunning :: int
  readOverride :: int
  writeOverride :: int

datatype RunnerResult = RunnerError Error | RescheduleTag | FinishedTag | ContinueTag

definition MAX_JOBS_PER_RUNNER :: nat where "MAX_JOBS_PER_RUNNER = 2"

definition INT_MAX :: int where "INT_MAX = 2 ^ 31 - 1"

section \<open>CopyQueue\<close>

datatype OnCompletionAction = ExitProcessNoCleanup | Return

datatype State = Idle | Running | AdditionComplete

definition RESERVED_FD_COUNT :: u64 where "RESERVED_FD_COUNT = 2"
definition RESERVED_HIGH_PRIORITY_FD_COUNT :: u64 where "RESERVED_HIGH_PRIORITY_FD_COUNT = 2"

text \<open>
  After the fields of the class: the stores of the objects it points to, the next free address,
  and what was printed on the standard error stream.
\<close>

record CopyQueue =
  ringSize :: u64
  fileDescriptorCap :: u64
  completionAction :: OnCompletionAction
  copyBufferHeap :: Heap
  ring :: io_uring
  copiesPendingStart :: "nat list"
  copiesPendingStartCount :: u32
  keepAliveCount :: u32
  submissionsRunning :: u32
  totalBytesToCopy :: u64
  totalBytesCopied :: u64
  totalBytesFailed :: u64
  etaCalulator :: ETACalculator
  errorMessages :: "string list"
  errored :: bool
  fileDescriptorsUsed :: u64
  q_state :: State
  showingProgress :: bool
  showingErrors :: bool
  fds :: "nat \<rightharpoonup> QueueFileDescriptor"
  runners :: "nat \<rightharpoonup> CopyRunner"
  counters :: "nat \<rightharpoonup> int"
  next_object :: nat
  stderr_lines :: "string list"

text \<open>A value-initialised ring, and the default values of the fields of a heap.\<close>

definition empty_ring :: io_uring where
  "empty_ring =
     \<lparr>ring_sq = \<lparr>sq_khead = 0, sq_ktail = 0, sq_kring_mask = 0, sq_kring_entries = 0, sq_kflags = 0, sq_kdropped = 0,
        sq_array = [], sq_sqes = [], sq_sqe_head = 0, sq_sqe_tail = 0, sq_ring_sz = 0, sq_ring_ptr = 0\<rparr>,
      ring_cq = \<lparr>cq_khead = 0, cq_ktail = 0, cq_kring_mask = 0, cq_kring_entries = 0, cq_kflags = None,
        cq_koverflow = 0, cq_cqes = [], cq_ring_sz = 0, cq_ring_ptr = 0\<rparr>,
      ring_flags = 0, ring_fd = 0, ring_features = 0\<rparr>"

definition empty_heap :: Heap where
  "empty_heap = \<lparr>usedList = [], data = 0, blocks = 0, blockSize = 0, alignment = 0\<rparr>"

text \<open>The initial values the class gives to its fields.\<close>

definition CopyQueue_init :: "u64 \<Rightarrow> Heap \<Rightarrow> io_uring \<Rightarrow> u64 \<Rightarrow> CopyQueue" where
  "CopyQueue_init cap heap r rsize =
     \<lparr>ringSize = rsize, fileDescriptorCap = cap, completionAction = Return, copyBufferHeap = heap, ring = r,
      copiesPendingStart = [], copiesPendingStartCount = 0, keepAliveCount = 0, submissionsRunning = 0,
      totalBytesToCopy = 0, totalBytesCopied = 0, totalBytesFailed = 0, etaCalulator = ETACalculator_init,
      errorMessages = [], errored = False, fileDescriptorsUsed = RESERVED_FD_COUNT, q_state = Idle,
      showingProgress = False, showingErrors = True,
      fds = Map.empty, runners = Map.empty, counters = Map.empty, next_object = 0, stderr_lines = []\<rparr>"

definition minimumFileDescriptorCap :: u64 where
  "minimumFileDescriptorCap = RESERVED_FD_COUNT + RESERVED_HIGH_PRIORITY_FD_COUNT"

definition isDone :: "CopyQueue \<Rightarrow> bool" where
  "isDone q \<longleftrightarrow> q_state q = AdditionComplete \<and> keepAliveCount q = 0"

definition onError :: "Error \<Rightarrow> CopyQueue \<Rightarrow> CopyQueue" where
  "onError error q =
     (let q = q\<lparr>errored := True\<rparr>
      in if showingErrors q then
           (if showingProgress q
            then q\<lparr>errorMessages := errorMessages q @ [humanFriendlyErrorMessage error]\<rparr>
            else q\<lparr>stderr_lines := stderr_lines q @ [c_str (humanFriendlyErrorMessage error)]\<rparr>)
         else q)"

section \<open>QueueFileDescriptor\<close>

datatype OpenPriority = Low | High

text \<open>
  \<open>lost\<close> says that another thread changed the counter between the load and the
  compare-and-exchange, which then fails.
\<close>

definition reserveFileDescriptor :: "OpenPriority \<Rightarrow> bool \<Rightarrow> CopyQueue \<Rightarrow> bool \<times> CopyQueue" where
  "reserveFileDescriptor priority lost q =
     (let expected = fileDescriptorsUsed q;
          limit = fileDescriptorCap q;
          limit = (if priority = Low then limit - RESERVED_HIGH_PRIORITY_FD_COUNT else limit)
      in if expected \<ge> limit \<or> lost then (False, q)
         else (True, q\<lparr>fileDescriptorsUsed := expected + 1\<rparr>))"

definition doOpen :: "'w os \<Rightarrow> nat \<Rightarrow> CopyQueue \<Rightarrow> 'w \<Rightarrow> (Result \<times> CopyQueue \<times> 'w) outcome" where
  "doOpen os d q w =
     and_then (object ''QueueFileDescriptor'' (fds q) d) (\<lambda>this.
       case myOpen os (qfd_path this) (qfd_oflag this) (qfd_mode this) w of
         (Inl e, w) \<Rightarrow> Inr (Inl e, q, w)
       | (Inr fd, w) \<Rightarrow> Inr (Success, q\<lparr>fds := (fds q)(d \<mapsto> this\<lparr>qfd_fd := fd\<rparr>)\<rparr>, w))"

text \<open>
  \<open>new QueueFileDescriptor(...)\<close>: the address of the object, the queue and the world. The result
  of \<open>doOpen\<close> is ignored.
\<close>

definition QueueFileDescriptor_new ::
  "'w os \<Rightarrow> bool \<Rightarrow> path \<Rightarrow> int \<Rightarrow> u32 \<Rightarrow> CopyQueue \<Rightarrow> 'w \<Rightarrow> (nat \<times> CopyQueue \<times> 'w) outcome" where
  "QueueFileDescriptor_new os lost path oflag mode q w =
     (let d = next_object q;
          q = q\<lparr>next_object := d + 1,
                fds := (fds q)(d \<mapsto> \<lparr>qfd_path = path, qfd_oflag = oflag, qfd_mode = mode, qfd_fd = NEVER_OPENED_VAL\<rparr>)\<rparr>
      in case reserveFileDescriptor Low lost q of
           (True, q) \<Rightarrow> and_then (doOpen os d q w) (\<lambda>(_, q, w). Inr (d, q, w))
         | (False, q) \<Rightarrow> Inr (d, q, w))"

definition QueueFileDescriptor_delete :: "bool \<Rightarrow> nat \<Rightarrow> CopyQueue \<Rightarrow> CopyQueue outcome" where
  "QueueFileDescriptor_delete ndebug d q =
     and_then (object ''QueueFileDescriptor'' (fds q) d) (\<lambda>this.
       debug_assert ndebug ''this->fd == CLOSED_VAL || this->fd == NEVER_OPENED_VAL''
         (qfd_fd this = CLOSED_VAL \<or> qfd_fd this = NEVER_OPENED_VAL)
         (Inr (q\<lparr>fds := (fds q)(d := None)\<rparr>)))"

text \<open>
  The loop of \<open>ensureOpened\<close>. It runs in the submit thread, the only one that gives descriptors
  back, so while it runs the count does not drop.
\<close>

partial_function (option) reserve_loop :: "CopyQueue \<Rightarrow> CopyQueue option" where
  "reserve_loop q =
     (case reserveFileDescriptor High False q of
        (reserved, q) \<Rightarrow> if reserved then Some q else reserve_loop q)"

definition ensureOpened :: "bool \<Rightarrow> 'w os \<Rightarrow> nat \<Rightarrow> CopyQueue \<Rightarrow> 'w \<Rightarrow> (Result \<times> CopyQueue \<times> 'w) outcome" where
  "ensureOpened ndebug os d q w =
     and_then (object ''QueueFileDescriptor'' (fds q) d) (\<lambda>this.
       debug_assert ndebug ''this->fd != CLOSED_VAL'' (qfd_fd this \<noteq> CLOSED_VAL)
         (if qfd_fd this = NEVER_OPENED_VAL
          then and_then (returned ''reserveFileDescriptor'' (reserve_loop q)) (\<lambda>q. doOpen os d q w)
          else Inr (Success, q, w)))"

definition notifyClosed :: "nat \<Rightarrow> CopyQueue \<Rightarrow> CopyQueue outcome" where
  "notifyClosed d q =
     and_then (object ''QueueFileDescriptor'' (fds q) d) (\<lambda>this.
       Inr (q\<lparr>fds := (fds q)(d \<mapsto> this\<lparr>qfd_fd := CLOSED_VAL\<rparr>),
              fileDescriptorsUsed := fileDescriptorsUsed q - 1\<rparr>))"

definition isOpen :: "QueueFileDescriptor \<Rightarrow> bool" where
  "isOpen this \<longleftrightarrow> qfd_fd this > 0"

definition hasBeenClosed :: "QueueFileDescriptor \<Rightarrow> bool" where
  "hasBeenClosed this \<longleftrightarrow> qfd_fd this = CLOSED_VAL"

definition getFd :: "bool \<Rightarrow> QueueFileDescriptor \<Rightarrow> int outcome" where
  "getFd ndebug this = debug_assert ndebug ''this->fd > 2'' (qfd_fd this > 2) (Inr (qfd_fd this))"

text \<open>
  The block of \<open>CopyRunner::handleFileClose\<close> for one descriptor: it is closed when it is open, and
  the first error is kept.
\<close>

definition close_if_open ::
  "bool \<Rightarrow> 'w os \<Rightarrow> nat \<Rightarrow> Result \<times> CopyQueue \<times> 'w \<Rightarrow> (Result \<times> CopyQueue \<times> 'w) outcome" where
  "close_if_open ndebug os d = (\<lambda>(result, q, w).
     and_then (object ''QueueFileDescriptor'' (fds q) d) (\<lambda>this.
       if isOpen this then
         and_then (getFd ndebug this) (\<lambda>fd.
           case myClose os fd w of (tmp, w) \<Rightarrow>
             let result = (case result of Inl e \<Rightarrow> Inl e | Inr _ \<Rightarrow> tmp)
             in and_then (notifyClosed d q) (\<lambda>q. Inr (result, q, w)))
       else Inr (result, q, w)))"

end
