(* ===== verification/Queue_Fd.thy ===== *)
theory Queue_Fd
  imports Copy_State
begin

text \<open>
  The accounting of file descriptors (\<open>src/QueueFileDescriptor.cpp\<close>): every open file of the queue
  is covered by a reservation, the reservations stay within \<open>fileDescriptorCap\<close>, and low priority
  reservations leave two descriptors for the submit thread. A reservation for a file that could
  not be opened is never given back.
\<close>

section \<open>Reserving\<close>

lemma reserve_high:
  "reserveFileDescriptor High lost q =
     (if fileDescriptorsUsed q < fileDescriptorCap q \<and> \<not> lost
      then (True, q\<lparr>fileDescriptorsUsed := fileDescriptorsUsed q + 1\<rparr>) else (False, q))"
  by (auto simp: reserveFileDescriptor_def Let_def)

lemma reserve_loop_Some:
  assumes "reserve_loop q = Some q'"
  shows "fileDescriptorsUsed q < fileDescriptorCap q"
proof (rule reserve_loop.raw_induct [where P = "\<lambda>q _. fileDescriptorsUsed q < fileDescriptorCap q", OF _ assms])
  fix f q q'
  assume "\<And>q q'. f q = Some q' \<Longrightarrow> fileDescriptorsUsed q < fileDescriptorCap q"
    and "(case reserveFileDescriptor High False q of (reserved, q) \<Rightarrow> if reserved then Some q else f q) = Some q'"
  then show "fileDescriptorsUsed q < fileDescriptorCap q" by (auto simp: reserve_high split: if_splits)
qed

lemma reserve_loop_eq:
  "reserve_loop q =
     (if fileDescriptorsUsed q < fileDescriptorCap q
      then Some (q\<lparr>fileDescriptorsUsed := fileDescriptorsUsed q + 1\<rparr>) else None)"
proof (cases "fileDescriptorsUsed q < fileDescriptorCap q")
  case True
  then show ?thesis by (simp add: reserve_loop.simps [of q] reserve_high)
next
  case False
  then have "reserve_loop q = None" using reserve_loop_Some [of q] by (cases "reserve_loop q") auto
  then show ?thesis using False by simp
qed

section \<open>The budget\<close>

definition open_fds :: "CopyQueue \<Rightarrow> nat set" where
  "open_fds q = {d. \<exists>this. fds q d = Some this \<and> 0 \<le> qfd_fd this}"

definition fd_inv :: "CopyQueue \<Rightarrow> bool" where
  "fd_inv q \<longleftrightarrow> finite (dom (fds q)) \<and> (\<forall>d \<in> dom (fds q). d < next_object q) \<and>
     unat RESERVED_FD_COUNT + card (open_fds q) \<le> unat (fileDescriptorsUsed q) \<and>
     unat (fileDescriptorsUsed q) \<le> unat (fileDescriptorCap q) \<and>
     minimumFileDescriptorCap \<le> fileDescriptorCap q"

lemma unat_inc: "x < y \<Longrightarrow> unat (x + 1 :: u64) = unat x + 1"
proof -
  assume "x < y"
  then have "unat x + 1 < 2 ^ 64" using unat_u64_bound [of y] by (simp add: word_less_nat_alt)
  then show ?thesis by (simp add: unat_word_ariths)
qed

lemma open_fds_finite: "finite (dom (fds q)) \<Longrightarrow> finite (open_fds q)"
  by (rule finite_subset [of _ "dom (fds q)"]) (auto simp: open_fds_def)

lemma open_fds_upd:
  "open_fds (q\<lparr>fds := (fds q)(d \<mapsto> this)\<rparr>) =
     (if 0 \<le> qfd_fd this then insert d (open_fds q) else open_fds q - {d})"
  by (auto simp: open_fds_def)

lemma open_fds_frame [simp]:
  "open_fds (q\<lparr>fileDescriptorsUsed := n\<rparr>) = open_fds q" "open_fds (q\<lparr>next_object := k\<rparr>) = open_fds q"
  by (simp_all add: open_fds_def)

lemma myOpen_nonneg: "myOpen os p f m w = (Inr fd, w') \<Longrightarrow> 0 \<le> fd"
  by (auto simp: myOpen_def split: prod.splits if_splits)

text \<open>\<open>doOpen\<close> under a reservation: the count is one above what the open files need.\<close>

lemma doOpen_cases:
  assumes "doOpen os d q w = Inr (r, q', w')"
  obtains (failed) e where "r = Inl e" "q' = q"
  | (opened) obj fd where "r = Success" "fds q d = Some obj" "0 \<le> fd"
      "q' = q\<lparr>fds := (fds q)(d \<mapsto> obj\<lparr>qfd_fd := fd\<rparr>)\<rparr>"
proof -
  obtain obj where obj: "fds q d = Some obj" using assms by (auto simp: doOpen_def outcome_simps)
  obtain res w1 where m: "myOpen os (qfd_path obj) (qfd_oflag obj) (qfd_mode obj) w = (res, w1)" by fastforce
  show thesis
  proof (cases res)
    case (Inl e)
    then have "r = Inl e" "q' = q" using assms obj m by (auto simp: doOpen_def)
    then show thesis by (rule that(1))
  next
    case (Inr fd)
    then have "r = Success" "q' = q\<lparr>fds := (fds q)(d \<mapsto> obj\<lparr>qfd_fd := fd\<rparr>)\<rparr>"
      using assms obj m by (auto simp: doOpen_def)
    moreover have "0 \<le> fd" using m Inr myOpen_nonneg by simp
    ultimately show thesis using that(2) obj by blast
  qed
qed

lemma doOpen_budget:
  assumes "doOpen os d q w = Inr (r, q', w')" "finite (dom (fds q))" "\<forall>d \<in> dom (fds q). d < next_object q"
    and "unat RESERVED_FD_COUNT + card (open_fds q) + 1 \<le> unat (fileDescriptorsUsed q)"
    and "unat (fileDescriptorsUsed q) \<le> unat (fileDescriptorCap q)" "minimumFileDescriptorCap \<le> fileDescriptorCap q"
  shows "fd_inv q'"
  using assms(1)
proof (cases rule: doOpen_cases)
  case failed
  then show ?thesis using assms by (simp add: fd_inv_def)
next
  case (opened obj fd)
  have "card (insert d (open_fds q)) \<le> card (open_fds q) + 1"
    using open_fds_finite [OF assms(2)] by (simp add: card_insert_if)
  moreover have "d < next_object q" using opened(2) assms(3) by auto
  ultimately show ?thesis
    using assms opened(3) unfolding opened(4) fd_inv_def open_fds_upd by auto
qed

lemma new_fd_inv:
  assumes "fd_inv q" "QueueFileDescriptor_new os lost path oflag mode q w = Inr (d, q', w')"
  shows "fd_inv q'"
proof -
  let ?this = "\<lparr>qfd_path = path, qfd_oflag = oflag, qfd_mode = mode, qfd_fd = NEVER_OPENED_VAL\<rparr>"
  let ?q1 = "q\<lparr>next_object := next_object q + 1, fds := (fds q)(next_object q \<mapsto> ?this)\<rparr>"
  have fresh: "next_object q \<notin> dom (fds q)" using assms(1) by (auto simp: fd_inv_def)
  have op: "open_fds ?q1 = open_fds q"
    using fresh by (auto simp: open_fds_def NEVER_OPENED_VAL_def)
  have inv1: "fd_inv ?q1" using assms(1) op by (auto simp: fd_inv_def less_Suc_eq)
  consider (not) "q' = ?q1"
    | (yes) r where "fileDescriptorsUsed q < fileDescriptorCap q - RESERVED_HIGH_PRIORITY_FD_COUNT"
      "doOpen os (next_object q) (?q1\<lparr>fileDescriptorsUsed := fileDescriptorsUsed q + 1\<rparr>) w = Inr (r, q', w')"
    using assms(2)
    by (auto simp: QueueFileDescriptor_new_def Let_def reserveFileDescriptor_def outcome_simps
        split: if_splits)
  then show ?thesis
  proof cases
    case yes
    have cap: "fileDescriptorCap q - RESERVED_HIGH_PRIORITY_FD_COUNT \<le> fileDescriptorCap q"
      using assms(1) by (simp add: fd_inv_def minimumFileDescriptorCap_def RESERVED_FD_COUNT_def
          RESERVED_HIGH_PRIORITY_FD_COUNT_def word_le_nat_alt unat_sub)
    have used: "unat (fileDescriptorsUsed q + 1) = unat (fileDescriptorsUsed q) + 1" by (rule unat_inc [OF yes(1)])
    moreover have "unat (fileDescriptorsUsed q) < unat (fileDescriptorCap q)"
      using yes(1) cap by (simp add: word_less_nat_alt word_le_nat_alt)
    ultimately show ?thesis
      using inv1 by (intro doOpen_budget [OF yes(2)]) (simp_all add: fd_inv_def)
  qed (use inv1 in simp)
qed

lemma ensure_fd_inv:
  assumes "fd_inv q" "ensureOpened nd os d q w = Inr (r, q', w')"
  shows "fd_inv q'"
proof -
  consider (same) "q' = q"
    | (reserved) "fileDescriptorsUsed q < fileDescriptorCap q"
      "doOpen os d (q\<lparr>fileDescriptorsUsed := fileDescriptorsUsed q + 1\<rparr>) w = Inr (r, q', w')"
    using assms(2)
    by (auto simp: ensureOpened_def outcome_simps reserve_loop_eq split: if_splits)
  then show ?thesis
  proof cases
    case reserved
    then show ?thesis
      using assms(1) unat_inc [OF reserved(1)]
      by (intro doOpen_budget [OF reserved(2)]) (simp_all add: fd_inv_def word_less_nat_alt)
  qed (use assms(1) in simp)
qed

lemma close_fd_inv:
  assumes "fd_inv q" "close_if_open nd os d (res, q, w) = Inr (r, q', w')"
  shows "fd_inv q'"
proof -
  obtain obj where obj: "fds q d = Some obj" using assms(2) by (auto simp: close_if_open_def outcome_simps)
  show ?thesis
  proof (cases "isOpen obj")
    case False
    then show ?thesis using assms obj by (simp add: close_if_open_def)
  next
    case True
    let ?q1 = "q\<lparr>fds := (fds q)(d \<mapsto> obj\<lparr>qfd_fd := CLOSED_VAL\<rparr>)\<rparr>"
    have q': "q' = ?q1\<lparr>fileDescriptorsUsed := fileDescriptorsUsed q - 1\<rparr>"
      using assms(2) obj True
      by (auto simp: close_if_open_def outcome_simps notifyClosed_def Let_def case_prod_beta)
    have op: "open_fds ?q1 = open_fds q - {d}" by (simp add: open_fds_upd CLOSED_VAL_def)
    have d: "d \<in> open_fds q" using obj True by (simp add: open_fds_def isOpen_def)
    have fin: "finite (open_fds q)" using assms(1) open_fds_finite by (simp add: fd_inv_def)
    have card: "card (open_fds q) = Suc (card (open_fds q - {d}))" by (rule card.remove [OF fin d])
    have "unat (fileDescriptorsUsed q - 1) = unat (fileDescriptorsUsed q) - 1"
    proof -
      have "1 \<le> unat (fileDescriptorsUsed q)" using assms(1) card unfolding fd_inv_def by linarith
      then show ?thesis by (subst unat_sub) (simp_all add: word_le_nat_alt)
    qed
    then show ?thesis
      using assms(1) card obj unfolding q' fd_inv_def open_fds_frame op by auto
  qed
qed

text \<open>The calls that change the descriptors of a queue, in any order.\<close>

datatype fd_event = NewFd bool path int u32 | EnsureFd nat | CloseFd nat

fun fd_step :: "bool \<Rightarrow> 'w os \<Rightarrow> fd_event \<Rightarrow> CopyQueue \<times> 'w \<Rightarrow> (CopyQueue \<times> 'w) outcome" where
  "fd_step nd os (NewFd lost p f m) (q, w) =
     and_then (QueueFileDescriptor_new os lost p f m q w) (\<lambda>(_, q, w). Inr (q, w))"
| "fd_step nd os (EnsureFd d) (q, w) = and_then (ensureOpened nd os d q w) (\<lambda>(_, q, w). Inr (q, w))"
| "fd_step nd os (CloseFd d) (q, w) = and_then (close_if_open nd os d (Success, q, w)) (\<lambda>(_, q, w). Inr (q, w))"

fun fd_run :: "bool \<Rightarrow> 'w os \<Rightarrow> fd_event list \<Rightarrow> CopyQueue \<times> 'w \<Rightarrow> (CopyQueue \<times> 'w) outcome" where
  "fd_run nd os [] s = Inr s"
| "fd_run nd os (ev # evs) s = and_then (fd_step nd os ev s) (fd_run nd os evs)"

lemma fd_step_inv:
  assumes "fd_inv q" "fd_step nd os ev (q, w) = Inr (q', w')"
  shows "fd_inv q'"
  using assms
  by (cases ev) (auto simp: outcome_simps dest: new_fd_inv ensure_fd_inv close_fd_inv)

lemma fd_step_cap:
  assumes "fd_step nd os ev (q, w) = Inr (q', w')"
  shows "fileDescriptorCap q' = fileDescriptorCap q"
proof -
  have opn: "fileDescriptorCap q' = fileDescriptorCap q" if "doOpen os d q w = Inr (r, q', w')" for d q w r q' w'
    using that by (cases rule: doOpen_cases) simp_all
  show ?thesis
    using assms
    by (cases ev)
      (auto simp: outcome_simps QueueFileDescriptor_new_def Let_def reserveFileDescriptor_def ensureOpened_def
        reserve_loop_eq close_if_open_def notifyClosed_def case_prod_beta split: if_splits dest!: opn)
qed

text \<open>
  C11. The descriptor budget: starting within it, whatever sequence of descriptor constructions,
  openings and closings succeeds (with compare-and-exchange operations lost to other threads or
  not), the open files of the queue and the two descriptors it reserves are covered by
  \<open>fileDescriptorsUsed\<close>, which never exceeds \<open>fileDescriptorCap\<close>; so the queue never has more than
  \<open>fileDescriptorCap - 2\<close> files open.
\<close>

theorem descriptor_budget:
  assumes "fd_inv q" "fd_run nd os evs (q, w) = Inr (q', w')"
  shows "fd_inv q' \<and> card (open_fds q') + 2 \<le> unat (fileDescriptorCap q)"
  using assms
proof (induction evs arbitrary: q w)
  case Nil
  then show ?case by (auto simp: fd_inv_def RESERVED_FD_COUNT_def)
next
  case (Cons ev evs)
  then obtain q1 w1 where s: "fd_step nd os ev (q, w) = Inr (q1, w1)" "fd_run nd os evs (q1, w1) = Inr (q', w')"
    by (auto simp: outcome_simps)
  then show ?case using Cons.IH [OF fd_step_inv [OF Cons.prems(1) s(1)] s(2)] fd_step_cap [OF s(1)] by simp
qed

lemma fd_inv_init: "minimumFileDescriptorCap \<le> cap \<Longrightarrow> fd_inv (CopyQueue_init cap h r n)"
  by (simp add: fd_inv_def CopyQueue_init_def open_fds_def RESERVED_FD_COUNT_def minimumFileDescriptorCap_def
      RESERVED_HIGH_PRIORITY_FD_COUNT_def word_le_nat_alt)

text \<open>Two files are constructed, with a cap that lets the first be opened at once, and both are opened.\<close>

theorem descriptor_budget_witness:
  "\<exists>q'. fd_run False (no_os\<lparr>os_open := \<lambda>_ _ _ w. (int w, 0, w + 1)\<rparr>)
      [NewFd False ''a'' 0 0, NewFd False ''b'' 0 0, EnsureFd 0, EnsureFd 1]
      (CopyQueue_init 5 empty_heap empty_ring 0, 3 :: nat) = Inr (q', 5) \<and> fileDescriptorsUsed q' = 4 \<and>
    card (open_fds q') + 2 \<le> unat (5 :: u64)"
proof -
  let ?os = "no_os\<lparr>os_open := \<lambda>_ _ _ w. (int w, 0, w + 1)\<rparr> :: nat os"
  let ?evs = "[NewFd False ''a'' 0 0, NewFd False ''b'' 0 0, EnsureFd 0, EnsureFd 1]"
  have run: "\<exists>q'. fd_run False ?os ?evs (CopyQueue_init 5 empty_heap empty_ring 0, 3) = Inr (q', 5) \<and> fileDescriptorsUsed q' = 4"
    by (simp add: CopyQueue_init_def QueueFileDescriptor_new_def reserveFileDescriptor_def doOpen_def Let_def
        myOpen_first(1) ensureOpened_def reserve_loop_eq NEVER_OPENED_VAL_def CLOSED_VAL_def
        RESERVED_FD_COUNT_def RESERVED_HIGH_PRIORITY_FD_COUNT_def)
  then obtain q' where q': "fd_run False ?os ?evs (CopyQueue_init 5 empty_heap empty_ring 0, 3) = Inr (q', 5)" "fileDescriptorsUsed q' = 4"
    by blast
  have "fd_inv (CopyQueue_init 5 empty_heap empty_ring 0)"
    by (rule fd_inv_init) (simp add: minimumFileDescriptorCap_def RESERVED_FD_COUNT_def
        RESERVED_HIGH_PRIORITY_FD_COUNT_def)
  from descriptor_budget [OF this q'(1)] q' show ?thesis by (auto simp: CopyQueue_init_def)
qed

section \<open>A reservation for a file that does not open\<close>

definition unopenable :: "'w os \<Rightarrow> QueueFileDescriptor \<Rightarrow> bool" where
  "unopenable os obj \<longleftrightarrow> (\<forall>w. \<exists>e w'. myOpen os (qfd_path obj) (qfd_oflag obj) (qfd_mode obj) w = (Inl e, w'))"

lemma ensure_unopenable:
  assumes "fds q d = Some obj" "unopenable os obj" "qfd_fd obj = NEVER_OPENED_VAL"
  shows "if fileDescriptorsUsed q < fileDescriptorCap q
    then \<exists>e w'. ensureOpened nd os d q w =
      Inr (Inl e, q\<lparr>fileDescriptorsUsed := fileDescriptorsUsed q + 1\<rparr>, w')
    else ensureOpened nd os d q w = Inl (Diverges ''reserveFileDescriptor'')"
proof -
  obtain e w' where "myOpen os (qfd_path obj) (qfd_oflag obj) (qfd_mode obj) w = (Inl e, w')"
    using assms(2) unfolding unopenable_def by blast
  then show ?thesis
    using assms(1,3)
    by (simp add: ensureOpened_def reserve_loop_eq doOpen_def returned_def NEVER_OPENED_VAL_def CLOSED_VAL_def)
qed

text \<open>
  C34. A file that cannot be opened costs a descriptor for good: each \<open>ensureOpened\<close> of such a file
  reports the error but keeps its reservation, although nothing is open and closing gives nothing
  back. After as many of them as the cap leaves free, the next \<open>ensureOpened\<close> never returns.
\<close>

theorem unopenable_files_exhaust_budget:
  assumes "fds q d = Some obj" "unopenable os obj" "qfd_fd obj = NEVER_OPENED_VAL"
    and "unat (fileDescriptorsUsed q) + n = unat (fileDescriptorCap q)"
  shows "(\<exists>w'. fd_run nd os (replicate n (EnsureFd d)) (q, w) =
      Inr (q\<lparr>fileDescriptorsUsed := fileDescriptorCap q\<rparr>, w')) \<and>
    fd_run nd os (replicate (n + 1) (EnsureFd d)) (q, w) = Inl (Diverges ''reserveFileDescriptor'')"
  using assms(1,4)
proof (induction n arbitrary: q w)
  case 0
  then have "fileDescriptorsUsed q = fileDescriptorCap q" by (simp add: word_unat_eq_iff)
  moreover from this have "q\<lparr>fileDescriptorsUsed := fileDescriptorCap q\<rparr> = q" by (cases q) simp
  ultimately show ?case
    using ensure_unopenable [OF 0(1) assms(2,3), of nd w] by simp
next
  case (Suc n)
  then have lt: "fileDescriptorsUsed q < fileDescriptorCap q" by (simp add: word_less_nat_alt)
  let ?q1 = "q\<lparr>fileDescriptorsUsed := fileDescriptorsUsed q + 1\<rparr>"
  obtain e w1 where "ensureOpened nd os d q w = Inr (Inl e, ?q1, w1)"
    using ensure_unopenable [OF Suc.prems(1) assms(2,3), of nd w] lt by auto
  then show ?case
    using Suc.IH [of ?q1 w1] Suc.prems unat_inc [OF lt] by simp
qed

theorem unopenable_files_exhaust_budget_witness:
  "fd_run True no_os (replicate 3 (EnsureFd 0))
     ((CopyQueue_init 4 empty_heap empty_ring 0)\<lparr>fds := [0 \<mapsto> \<lparr>qfd_path = ''x'', qfd_oflag = 0, qfd_mode = 0, qfd_fd = -1\<rparr>]\<rparr>, ()) =
   Inl (Diverges ''reserveFileDescriptor'')"
proof -
  let ?obj = "\<lparr>qfd_path = ''x'', qfd_oflag = 0, qfd_mode = 0, qfd_fd = -1\<rparr> :: QueueFileDescriptor"
  have "unopenable (no_os :: unit os) ?obj"
    by (simp add: unopenable_def myOpen_first(2) [of _ _ _ _ _ "-1" ENOENT "()"] no_os_def last_try_def)
  then show ?thesis
    using unopenable_files_exhaust_budget [of "(CopyQueue_init 4 empty_heap empty_ring 0)\<lparr>fds := [0 \<mapsto> ?obj]\<rparr>" 0 ?obj no_os 2 True "()"]
    by (simp add: CopyQueue_init_def NEVER_OPENED_VAL_def RESERVED_FD_COUNT_def numeral_3_eq_3)
qed

end
