(* ===== verification/Copy_Runner.thy ===== *)
theory Copy_Runner
  imports Queue_Fd Uring_Prep Uring_SQ
begin

text \<open>
  \<open>src/CopyRunner.cpp\<close>: one runner copies one chunk of a file. A runner reads its chunk into a
  buffer and writes it, with at most two requests in flight, the write linked behind the read.
  Operations take the address of the runner and the queue, and return the queue; a step that
  calls the operating system takes and returns the world as well.
\<close>

section \<open>Construction and destruction\<close>

definition CopyRunner_new ::
  "nat \<Rightarrow> nat \<Rightarrow> int \<Rightarrow> int \<Rightarrow> u64 \<Rightarrow> nat \<Rightarrow> CopyQueue \<Rightarrow> nat \<times> CopyQueue" where
  "CopyRunner_new src dst off sz align chunkCount q =
     (let r = next_object q;
          this = \<lparr>savedError = None, sourceFd = src, destFd = dst, cr_offset = off, cr_size = sz,
                  cr_alignment = align, chunksRemaining = chunkCount, buffer = 0, bufferAligned = 0,
                  readOffset = off, writeOffset = off, jobsRunning = 0,
                  readOverride = INT_MAX, writeOverride = INT_MAX\<rparr>
      in (r, q\<lparr>next_object := r + 1, runners := (runners q)(r \<mapsto> this), keepAliveCount := keepAliveCount q + 1\<rparr>))"

definition with_runner :: "nat \<Rightarrow> CopyQueue \<Rightarrow> (CopyRunner \<Rightarrow> 'a outcome) \<Rightarrow> 'a outcome" where
  "with_runner r q k = and_then (object ''CopyRunner'' (runners q) r) k"

definition CopyRunner_delete :: "bool \<Rightarrow> nat \<Rightarrow> CopyQueue \<Rightarrow> CopyQueue outcome" where
  "CopyRunner_delete ndebug r q =
     with_runner r q (\<lambda>this.
     release_assert ''jobsRunning == 0'' (jobsRunning this = 0)
    (and_then
       (if buffer this \<noteq> 0
        then and_then (returnBlock ndebug (buffer this) (copyBufferHeap q)) (\<lambda>h. Inr (q\<lparr>copyBufferHeap := h\<rparr>))
        else Inr q) (\<lambda>q.
     let q = q\<lparr>keepAliveCount := keepAliveCount q - 1\<rparr>
     in and_then (object ''chunksRemaining'' (counters q) (chunksRemaining this)) (\<lambda>n.
     debug_assert ndebug ''*this->chunksRemaining >= 1'' (n \<ge> 1)
    (let q = q\<lparr>counters := (counters q)(chunksRemaining this \<mapsto> n - 1)\<rparr>
     in and_then
       (if n - 1 = 0
        then and_then (QueueFileDescriptor_delete ndebug (sourceFd this) q) (\<lambda>q.
             and_then (QueueFileDescriptor_delete ndebug (destFd this) q) (\<lambda>q.
             Inr (q\<lparr>counters := (counters q)(chunksRemaining this := None)\<rparr>)))
        else Inr q) (\<lambda>q.
     Inr (q\<lparr>runners := (runners q)(r := None)\<rparr>)))))))"

section \<open>Buffers and files\<close>

definition needsBuffer :: "CopyRunner \<Rightarrow> bool" where
  "needsBuffer this \<longleftrightarrow> buffer this = 0 \<and> cr_size this > 0"

definition aligned_address :: "u64 \<Rightarrow> u64 \<Rightarrow> u64" where
  "aligned_address buf align = (buf - 1 + align) AND (- align)"

definition giveBuffer :: "bool \<Rightarrow> nat \<Rightarrow> u64 \<Rightarrow> CopyQueue \<Rightarrow> CopyQueue outcome" where
  "giveBuffer ndebug r buf q =
     with_runner r q (\<lambda>this.
     debug_assert ndebug ''this->size > 0'' (cr_size this > 0)
    (debug_assert ndebug ''this->buffer == nullptr'' (buffer this = 0)
    (let aligned = aligned_address buf (cr_alignment this)
     in defined_if ''% alignment'' (cr_alignment this \<noteq> 0)
       (release_assert ''intptr_t(this->bufferAligned) % this->alignment == 0'' (aligned mod cr_alignment this = 0)
       (release_assert ''this->bufferAligned + this->size <= this->buffer + blockSize''
          (aligned + word_of_int (cr_size this) \<le> buf + blockSize (copyBufferHeap q))
       (Inr (q\<lparr>runners := (runners q)(r \<mapsto> this\<lparr>buffer := buf, bufferAligned := aligned\<rparr>)\<rparr>)))))))"

definition handleFileClose :: "bool \<Rightarrow> 'w os \<Rightarrow> nat \<Rightarrow> CopyQueue \<Rightarrow> 'w \<Rightarrow> (Result \<times> CopyQueue \<times> 'w) outcome" where
  "handleFileClose ndebug os r q w =
     with_runner r q (\<lambda>this.
     and_then (object ''chunksRemaining'' (counters q) (chunksRemaining this)) (\<lambda>n.
       if n = 1
       then and_then (close_if_open ndebug os (sourceFd this) (Success, q, w)) (close_if_open ndebug os (destFd this))
       else Inr (Success, q, w)))"

definition cleanupOnError :: "bool \<Rightarrow> 'w os \<Rightarrow> nat \<Rightarrow> CopyQueue \<Rightarrow> 'w \<Rightarrow> (CopyQueue \<times> 'w) outcome" where
  "cleanupOnError ndebug os r q w = and_then (handleFileClose ndebug os r q w) (\<lambda>(_, q, w). Inr (q, w))"

definition saveError :: "bool \<Rightarrow> 'w os \<Rightarrow> Error \<Rightarrow> nat \<Rightarrow> CopyQueue \<Rightarrow> 'w \<Rightarrow> (CopyQueue \<times> 'w) outcome" where
  "saveError ndebug os error r q w =
     with_runner r q (\<lambda>this.
       if savedError this = None
       then cleanupOnError ndebug os r (q\<lparr>runners := (runners q)(r \<mapsto> this\<lparr>savedError := Some error\<rparr>)\<rparr>) w
       else Inr (q, w))"

definition needsFileDescriptors :: "nat \<Rightarrow> CopyQueue \<Rightarrow> bool outcome" where
  "needsFileDescriptors r q =
     with_runner r q (\<lambda>this.
     and_then (object ''QueueFileDescriptor'' (fds q) (sourceFd this)) (\<lambda>src.
     and_then (object ''QueueFileDescriptor'' (fds q) (destFd this)) (\<lambda>dst.
     Inr (\<not> isOpen src \<or> \<not> isOpen dst))))"

section \<open>Requests\<close>

text \<open>The address of \<open>eventDataBuffers[0]\<close> (for reads) or \<open>[1]\<close> (for writes) of the runner at \<open>r\<close>.\<close>

fun event_ptr :: "nat \<Rightarrow> EventType \<Rightarrow> u64" where
  "event_ptr r Read = of_nat (2 * r)"
| "event_ptr r Write = of_nat (2 * r + 1)"

text \<open>What the pointer in a completion refers to.\<close>

definition event_runner :: "u64 \<Rightarrow> nat" where
  "event_runner p = unat p div 2"

definition event_type :: "u64 \<Rightarrow> EventType" where
  "event_type p = (if even (unat p) then Read else Write)"

partial_function (option) get_sqe_loop :: "io_uring \<Rightarrow> (io_uring \<times> nat) option" where
  "get_sqe_loop rng =
     (case io_uring_get_sqe rng of (rng, sqe) \<Rightarrow>
        (case sqe of None \<Rightarrow> get_sqe_loop rng | Some i \<Rightarrow> Some (rng, i)))"

definition getSqe :: "nat \<Rightarrow> CopyQueue \<Rightarrow> (nat \<times> CopyQueue) outcome" where
  "getSqe r q =
     with_runner r q (\<lambda>this.
     let q = q\<lparr>runners := (runners q)(r \<mapsto> this\<lparr>jobsRunning := jobsRunning this + 1\<rparr>),
               submissionsRunning := submissionsRunning q + 1\<rparr>
     in and_then (returned ''io_uring_get_sqe'' (get_sqe_loop (ring q))) (\<lambda>(rng, i).
     Inr (i, q\<lparr>ring := rng\<rparr>)))"

text \<open>Filling the entry that a pointer from \<open>getSqe\<close> refers to.\<close>

definition fill_sqe :: "nat \<Rightarrow> (io_uring_sqe \<Rightarrow> io_uring_sqe) \<Rightarrow> CopyQueue \<Rightarrow> CopyQueue" where
  "fill_sqe i prep q =
     (let sq = ring_sq (ring q)
      in q\<lparr>ring := (ring q)\<lparr>ring_sq := sq\<lparr>sq_sqes := (sq_sqes sq)[i := prep (sq_sqes sq ! i)]\<rparr>\<rparr>\<rparr>)"

text \<open>The byte count of a read, rounded up to whole blocks: 64-bit arithmetic stored into 32 bits.\<close>

definition round_up :: "u32 \<Rightarrow> u64 \<Rightarrow> u32" where
  "round_up bytesToRead align =
     (if ucast bytesToRead mod align \<noteq> 0
      then ucast ((ucast bytesToRead div align + 1) * align)
      else bytesToRead)"

definition read_sqe :: "CopyRunner \<Rightarrow> nat \<Rightarrow> int \<Rightarrow> u32 \<Rightarrow> io_uring_sqe \<Rightarrow> io_uring_sqe" where
  "read_sqe this r fd bytesToRead sqe =
     (let sqe = io_uring_prep_read sqe fd
            (bufferAligned this + word_of_int (readOffset this) - word_of_int (cr_offset this))
            bytesToRead (readOffset this);
          sqe = sqe\<lparr>sqe_flags := sqe_flags sqe OR ucast IOSQE_IO_LINK\<rparr>
      in sqe\<lparr>sqe_user_data := event_ptr r Read\<rparr>)"

definition write_sqe :: "CopyRunner \<Rightarrow> nat \<Rightarrow> int \<Rightarrow> u32 \<Rightarrow> io_uring_sqe \<Rightarrow> io_uring_sqe" where
  "write_sqe this r fd bytesToWrite sqe =
     (io_uring_prep_write sqe fd
        (bufferAligned this + word_of_int (writeOffset this) - word_of_int (cr_offset this))
        bytesToWrite (writeOffset this))\<lparr>sqe_user_data := event_ptr r Write\<rparr>"

definition open_files :: "bool \<Rightarrow> 'w os \<Rightarrow> CopyRunner \<Rightarrow> CopyQueue \<Rightarrow> 'w \<Rightarrow> (Result \<times> CopyQueue \<times> 'w) outcome" where
  "open_files ndebug os this q w =
     and_then (ensureOpened ndebug os (sourceFd this) q w) (\<lambda>(result, q, w).
       case result of
         Inl e \<Rightarrow> Inr (Inl e, q, w)
       | Inr _ \<Rightarrow> ensureOpened ndebug os (destFd this) q w)"

text \<open>The block of \<open>submitReadWriteCommands\<close> that queues the read.\<close>

definition submit_read :: "Config \<Rightarrow> nat \<Rightarrow> u32 \<Rightarrow> bool \<Rightarrow> CopyQueue \<Rightarrow> CopyQueue outcome" where
  "submit_read cfg r bytesToRead readForcedPartial q =
     and_then (getSqe r q) (\<lambda>(i, q).
     with_runner r q (\<lambda>this.
     defined_if ''% alignment'' (cr_alignment this \<noteq> 0)
    (and_then (object ''QueueFileDescriptor'' (fds q) (sourceFd this)) (\<lambda>src.
     and_then (getFd (NDEBUG cfg) src) (\<lambda>fd.
     let q = fill_sqe i (read_sqe this r fd (round_up bytesToRead (cr_alignment this))) q
     in Inr (if DEBUG_FORCE_PARTIAL_READS cfg \<and> readForcedPartial
             then q\<lparr>runners := (runners q)(r \<mapsto> this\<lparr>readOverride := sint bytesToRead\<rparr>)\<rparr>
             else q))))))"

text \<open>The block that queues the write, or the nop that stands for a cancelled write.\<close>

definition submit_write ::
  "Config \<Rightarrow> 'w os \<Rightarrow> nat \<Rightarrow> bool \<Rightarrow> CopyQueue \<Rightarrow> 'w \<Rightarrow> (CopyQueue \<times> 'w) outcome" where
  "submit_write cfg os r readForcedPartial q w =
     and_then (getSqe r q) (\<lambda>(i, q).
     with_runner r q (\<lambda>this.
     if DEBUG_FORCE_PARTIAL_READS cfg \<and> readForcedPartial
     then Inr ((fill_sqe i (\<lambda>sqe. (io_uring_prep_nop sqe)\<lparr>sqe_user_data := event_ptr r Write\<rparr>) q)
            \<lparr>runners := (runners q)(r \<mapsto> this\<lparr>writeOverride := - ECANCELED\<rparr>)\<rparr>, w)
     else
       let bytesToWrite = word_of_int (cr_offset this + cr_size this - writeOffset this)
       in and_then
         (if DEBUG_FORCE_PARTIAL_WRITES cfg
          then defined_if ''% 0'' (bytesToWrite + 1 \<noteq> 0)
            (case os_rand os w of (n, w) \<Rightarrow> Inr (word_of_int n mod (bytesToWrite + 1), w))
          else Inr (bytesToWrite, w)) (\<lambda>(bytesToWrite, w).
       and_then (object ''QueueFileDescriptor'' (fds q) (destFd this)) (\<lambda>dst.
       and_then (getFd (NDEBUG cfg) dst) (\<lambda>fd.
       Inr (fill_sqe i (write_sqe this r fd bytesToWrite) q, w))))))"

definition submitReadWriteCommands ::
  "Config \<Rightarrow> 'w os \<Rightarrow> nat \<Rightarrow> CopyQueue \<Rightarrow> 'w \<Rightarrow> (Result \<times> CopyQueue \<times> 'w) outcome" where
  "submitReadWriteCommands cfg os r q w =
     with_runner r q (\<lambda>this.
     and_then (open_files (NDEBUG cfg) os this q w) (\<lambda>(result, q, w).
     case result of
       Inl e \<Rightarrow>
         (let q = q\<lparr>totalBytesFailed := totalBytesFailed q + word_of_int (cr_size this)\<rparr>
          in and_then (cleanupOnError (NDEBUG cfg) os r q w) (\<lambda>(q, w). Inr (Inl e, q, w)))
     | Inr _ \<Rightarrow>
         release_assert ''this->jobsRunning == 0'' (jobsRunning this = 0)
        (debug_assert (NDEBUG cfg) ''this->writeOffset <= this->offset + this->size''
           (writeOffset this \<le> cr_offset this + cr_size this)
        (let left = cr_offset this + cr_size this - readOffset this;
             bytesToRead = word_of_int left :: u32;
             (bytesToRead, w) = (if DEBUG_FORCE_PARTIAL_READS cfg \<and> bytesToRead > 0
               then (case os_rand os w of (n, w) \<Rightarrow> (word_of_int n mod bytesToRead + 1, w))
               else (bytesToRead, w));
             readForcedPartial = (uint bytesToRead < left)
         in and_then (if bytesToRead \<noteq> 0 then submit_read cfg r bytesToRead readForcedPartial q else Inr q) (\<lambda>q.
            and_then (if writeOffset this < cr_offset this + cr_size this
                      then submit_write cfg os r readForcedPartial q w else Inr (q, w)) (\<lambda>(q, w).
            Inr (Success, q, w)))))))"

definition addToBatch ::
  "Config \<Rightarrow> 'w os \<Rightarrow> nat \<Rightarrow> CopyQueue \<Rightarrow> 'w \<Rightarrow> (Result \<times> CopyQueue \<times> 'w) outcome" where
  "addToBatch cfg os r q w =
     with_runner r q (\<lambda>this.
     debug_assert (NDEBUG cfg) ''!this->needsBuffer()'' (\<not> needsBuffer this)
    (debug_assert (NDEBUG cfg) ''!this->savedError'' (savedError this = None)
    (debug_assert (NDEBUG cfg) ''this->writeOffset < this->offset + this->size''
       (writeOffset this < cr_offset this + cr_size this)
       (submitReadWriteCommands cfg os r q w))))"

section \<open>Completions\<close>

text \<open>
  The result after the override of the debug mode, and the runner with the override reset.
\<close>

definition override_result :: "Config \<Rightarrow> EventType \<Rightarrow> int \<Rightarrow> CopyRunner \<Rightarrow> int \<times> CopyRunner" where
  "override_result cfg type result this =
     (let ov = (case type of Read \<Rightarrow> readOverride this | Write \<Rightarrow> writeOverride this)
      in if DEBUG_FORCE_PARTIAL_READS cfg \<and> ov \<noteq> INT_MAX
         then (if result \<ge> 0 \<and> (ov < 0 \<or> ov \<le> result) then ov else result,
               case type of Read \<Rightarrow> this\<lparr>readOverride := INT_MAX\<rparr> | Write \<Rightarrow> this\<lparr>writeOverride := INT_MAX\<rparr>)
         else (result, this))"

text \<open>\<open>readOffset\<close> after a read: 64-bit unsigned division, stored back into an \<open>off_t\<close>.\<close>

definition advance_read :: "int \<Rightarrow> CopyRunner \<Rightarrow> CopyRunner outcome" where
  "advance_read result this =
     (let this = this\<lparr>readOffset := readOffset this + result\<rparr>;
          bytesToRead = word_of_int (cr_offset this + cr_size this - readOffset this) :: u32
      in if bytesToRead \<noteq> 0
         then defined_if ''/ alignment'' (cr_alignment this \<noteq> 0)
           (Inr (this\<lparr>readOffset := sint ((word_of_int (readOffset this) div cr_alignment this) * cr_alignment this)\<rparr>))
         else Inr this)"

definition path_message :: "string \<Rightarrow> path \<Rightarrow> string" where
  "path_message msg p = msg @ QUOTE @ p @ QUOTE"

definition on_read :: "Config \<Rightarrow> 'w os \<Rightarrow> nat \<Rightarrow> int \<Rightarrow> CopyQueue \<Rightarrow> 'w \<Rightarrow> (CopyQueue \<times> 'w) outcome" where
  "on_read cfg os r result q w =
     with_runner r q (\<lambda>this.
     let save = (\<lambda>msg. and_then (object ''QueueFileDescriptor'' (fds q) (sourceFd this)) (\<lambda>src.
                   saveError (NDEBUG cfg) os (Error (msg (qfd_path src))) r q w))
     in and_then
       (if result = 0 then save (path_message ''File shrank while copying: '') else Inr (q, w)) (\<lambda>(q, w).
     if result < 0
     then save (\<lambda>p. path_message ''Error reading file '' p @ path_message '': '' (os_strerror os (- result)))
     else
       with_runner r q (\<lambda>this.
       and_then (advance_read result this) (\<lambda>this.
       Inr (q\<lparr>runners := (runners q)(r \<mapsto> this)\<rparr>, w)))))"

definition on_write :: "Config \<Rightarrow> 'w os \<Rightarrow> nat \<Rightarrow> int \<Rightarrow> CopyQueue \<Rightarrow> 'w \<Rightarrow> (CopyQueue \<times> 'w) outcome" where
  "on_write cfg os r result q w =
     with_runner r q (\<lambda>this.
     if result < 0 then
       (if result \<noteq> - ECANCELED
        then and_then (object ''QueueFileDescriptor'' (fds q) (destFd this)) (\<lambda>dst.
          saveError (NDEBUG cfg) os
            (Error (path_message ''Error writing file '' (qfd_path dst) @ path_message '': '' (os_strerror os (- result)))) r q w)
        else Inr (q, w))
     else Inr (q\<lparr>runners := (runners q)(r \<mapsto> this\<lparr>writeOffset := writeOffset this + result\<rparr>),
                 totalBytesCopied := totalBytesCopied q + word_of_int result\<rparr>, w))"

definition onCompletionEvent ::
  "Config \<Rightarrow> 'w os \<Rightarrow> nat \<Rightarrow> EventType \<Rightarrow> int \<Rightarrow> CopyQueue \<Rightarrow> 'w \<Rightarrow> (RunnerResult \<times> CopyQueue \<times> 'w) outcome" where
  "onCompletionEvent cfg os r type result q w =
     with_runner r q (\<lambda>this.
     let this = this\<lparr>jobsRunning := jobsRunning this - 1\<rparr>;
         q = q\<lparr>runners := (runners q)(r \<mapsto> this)\<rparr>
     in debug_assert (NDEBUG cfg) ''jobsRunning >= 0'' (jobsRunning this \<ge> 0)
    (and_then
       (if savedError this = None then
          (case override_result cfg type result this of (result, this) \<Rightarrow>
             let q = q\<lparr>runners := (runners q)(r \<mapsto> this)\<rparr>
             in case type of Read \<Rightarrow> on_read cfg os r result q w | Write \<Rightarrow> on_write cfg os r result q w)
        else Inr (q, w)) (\<lambda>(q, w).
     with_runner r q (\<lambda>this.
     debug_assert (NDEBUG cfg) ''this->writeOffset <= this->offset + this->size''
       (writeOffset this \<le> cr_offset this + cr_size this)
    (Inr (if jobsRunning this = 0 then
            (case savedError this of
               Some e \<Rightarrow> RunnerError e
             | None \<Rightarrow> if writeOffset this = cr_offset this + cr_size this then FinishedTag else RescheduleTag)
          else ContinueTag, q, w))))))"

section \<open>Taking and filling an entry\<close>

lemma get_sqe_loop_room:
  assumes "sq_inv n (ring_sq rng)" "length (sq_queued (ring_sq rng)) < 2 ^ n"
  shows "get_sqe_loop rng =
    Some (rng\<lparr>ring_sq := (ring_sq rng)\<lparr>sq_sqe_tail := sq_sqe_tail (ring_sq rng) + 1\<rparr>\<rparr>,
      slot (sq_kring_mask (ring_sq rng)) (sq_sqe_tail (ring_sq rng)))"
  using assms(2) io_uring_get_sqe_sq_eq [OF assms(1)]
  by (simp add: get_sqe_loop.simps [of rng] io_uring_get_sqe_def sq_queued_def)

text \<open>
  \<open>request r prep q\<close>: what \<open>getSqe\<close> followed by filling the entry does to the queue: the runner
  and the queue count one more request, and the request is the last one queued in the ring.
\<close>

definition put_ring :: "io_uring_sqe \<Rightarrow> io_uring \<Rightarrow> io_uring" where
  "put_ring req rng = rng\<lparr>ring_sq := the (sq_put (ring_sq rng) req)\<rparr>"

definition count_job :: "nat \<Rightarrow> CopyQueue \<Rightarrow> CopyQueue" where
  "count_job r q =
     q\<lparr>runners := (runners q)(r := map_option (\<lambda>t. t\<lparr>jobsRunning := jobsRunning t + 1\<rparr>) (runners q r)),
       submissionsRunning := submissionsRunning q + 1\<rparr>"

lemma getSqe_fill:
  assumes "runners q r = Some this" "sq_inv n (ring_sq (ring q))" "length (sq_queued (ring_sq (ring q))) < 2 ^ n"
  obtains i q1 where "getSqe r q = Inr (i, q1)"
    "fds q1 = fds q" "runners q1 r = Some (this\<lparr>jobsRunning := jobsRunning this + 1\<rparr>)"
    "\<And>prep req. (\<And>s. prep s = req) \<Longrightarrow> fill_sqe i prep q1 = (count_job r q)\<lparr>ring := put_ring req (ring q)\<rparr>"
proof -
  let ?sq = "ring_sq (ring q)"
  let ?i = "slot (sq_kring_mask ?sq) (sq_sqe_tail ?sq)"
  let ?rng = "(ring q)\<lparr>ring_sq := ?sq\<lparr>sq_sqe_tail := sq_sqe_tail ?sq + 1\<rparr>\<rparr>"
  let ?q1 = "(count_job r q)\<lparr>ring := ?rng\<rparr>"
  have get: "getSqe r q = Inr (?i, ?q1)"
    using assms(1) get_sqe_loop_room [OF assms(2,3)]
    by (simp add: getSqe_def with_runner_def count_job_def Let_def)
  have "fill_sqe ?i prep ?q1 = (count_job r q)\<lparr>ring := put_ring req (ring q)\<rparr>" if "\<And>s. prep s = req" for prep req
    using assms(3) io_uring_get_sqe_sq_eq [OF assms(2)] that
    by (simp add: fill_sqe_def put_ring_def sq_put_def sq_queued_def)
  then show thesis using that [OF get] assms(1) by (simp add: count_job_def)
qed

lemma put_ring_queued:
  assumes "sq_inv n (ring_sq rng)" "length (sq_queued (ring_sq rng)) < 2 ^ n"
  shows "sq_queued (ring_sq (put_ring req rng)) = sq_queued (ring_sq rng) @ [req]"
    "sq_inv n (ring_sq (put_ring req rng))" "ring_cq (put_ring req rng) = ring_cq rng"
proof -
  obtain sq' where "sq_put (ring_sq rng) req = Some sq'"
    using sq_put_None_iff [OF assms(1), of req] assms(2) by (cases "sq_put (ring_sq rng) req") auto
  then show "sq_queued (ring_sq (put_ring req rng)) = sq_queued (ring_sq rng) @ [req]"
    "sq_inv n (ring_sq (put_ring req rng))" "ring_cq (put_ring req rng) = ring_cq rng"
    using sq_put_queued [OF assms(1)] sq_put_inv [OF assms(1)] by (simp_all add: put_ring_def)
qed

text \<open>The requests do not depend on what the recycled entry held.\<close>

lemma read_sqe_fresh: "read_sqe this r fd n s = read_sqe this r fd n s'"
  by (simp add: read_sqe_def io_uring_prep_read_def io_uring_prep_rw_def Let_def)

lemma write_sqe_fresh: "write_sqe this r fd n s = write_sqe this r fd n s'"
  by (simp add: write_sqe_def io_uring_prep_write_def io_uring_prep_rw_def)

section \<open>The requests of a runner\<close>

definition requests :: "CopyRunner \<Rightarrow> nat \<Rightarrow> int \<Rightarrow> int \<Rightarrow> io_uring_sqe list" where
  "requests this r sfd dfd =
     (let left = word_of_int (cr_offset this + cr_size this - readOffset this) :: u32
      in (if left \<noteq> 0 then [read_sqe this r sfd (round_up left (cr_alignment this)) zero_sqe] else []) @
         [write_sqe this r dfd (word_of_int (cr_offset this + cr_size this - writeOffset this)) zero_sqe])"

lemma request_frame [simp]:
  "read_sqe (this\<lparr>jobsRunning := j\<rparr>) = read_sqe this" "write_sqe (this\<lparr>jobsRunning := j\<rparr>) = write_sqe this"
  by (simp_all add: read_sqe_def write_sqe_def fun_eq_iff)

definition fd_ready :: "CopyQueue \<Rightarrow> nat \<Rightarrow> int \<Rightarrow> bool" where
  "fd_ready q d fd \<longleftrightarrow> (\<exists>obj. fds q d = Some obj \<and> qfd_fd obj = fd \<and> fd > 2)"

lemma ensureOpened_ready: "fd_ready q d fd \<Longrightarrow> ensureOpened nd os d q w = Inr (Success, q, w)"
  by (auto simp: fd_ready_def ensureOpened_def NEVER_OPENED_VAL_def CLOSED_VAL_def)

lemma submit_read_plain:
  assumes "runners q r = Some this" "sq_inv n (ring_sq (ring q))" "length (sq_queued (ring_sq (ring q))) < 2 ^ n"
    and "fd_ready q (sourceFd this) fd" "cr_alignment this \<noteq> 0" "\<not> DEBUG_FORCE_PARTIAL_READS cfg"
  shows "submit_read cfg r k forced q =
    Inr ((count_job r q)\<lparr>ring := put_ring (read_sqe this r fd (round_up k (cr_alignment this)) zero_sqe) (ring q)\<rparr>)"
proof -
  obtain i q1 where g: "getSqe r q = Inr (i, q1)" "fds q1 = fds q"
    "runners q1 r = Some (this\<lparr>jobsRunning := jobsRunning this + 1\<rparr>)"
    "\<And>prep req. (\<And>s. prep s = req) \<Longrightarrow> fill_sqe i prep q1 = (count_job r q)\<lparr>ring := put_ring req (ring q)\<rparr>"
    using getSqe_fill [OF assms(1-3)] by metis
  obtain obj where obj: "fds q1 (sourceFd this) = Some obj" "qfd_fd obj = fd" "fd > 2"
    using assms(4) g(2) by (auto simp: fd_ready_def)
  have "fill_sqe i (read_sqe this r fd (round_up k (cr_alignment this))) q1 =
      (count_job r q)\<lparr>ring := put_ring (read_sqe this r fd (round_up k (cr_alignment this)) zero_sqe) (ring q)\<rparr>"
    by (rule g(4)) (rule read_sqe_fresh)
  then show ?thesis
    using g(1,3) obj assms(5,6) by (simp add: submit_read_def with_runner_def getFd_def Let_def)
qed

lemma submit_write_plain:
  assumes "runners q r = Some this" "sq_inv n (ring_sq (ring q))" "length (sq_queued (ring_sq (ring q))) < 2 ^ n"
    and "fd_ready q (destFd this) fd" "\<not> DEBUG_FORCE_PARTIAL_READS cfg" "\<not> DEBUG_FORCE_PARTIAL_WRITES cfg"
  shows "submit_write cfg os r forced q w =
    Inr ((count_job r q)\<lparr>ring := put_ring (write_sqe this r fd
      (word_of_int (cr_offset this + cr_size this - writeOffset this)) zero_sqe) (ring q)\<rparr>, w)"
proof -
  obtain i q1 where g: "getSqe r q = Inr (i, q1)" "fds q1 = fds q"
    "runners q1 r = Some (this\<lparr>jobsRunning := jobsRunning this + 1\<rparr>)"
    "\<And>prep req. (\<And>s. prep s = req) \<Longrightarrow> fill_sqe i prep q1 = (count_job r q)\<lparr>ring := put_ring req (ring q)\<rparr>"
    using getSqe_fill [OF assms(1-3)] by metis
  obtain obj where obj: "fds q1 (destFd this) = Some obj" "qfd_fd obj = fd" "fd > 2"
    using assms(4) g(2) by (auto simp: fd_ready_def)
  let ?n = "word_of_int (cr_offset this + cr_size this - writeOffset this)"
  have "fill_sqe i (write_sqe this r fd ?n) q1 =
      (count_job r q)\<lparr>ring := put_ring (write_sqe this r fd ?n zero_sqe) (ring q)\<rparr>"
    by (rule g(4)) (rule write_sqe_fresh)
  then show ?thesis
    using g(1,3) obj assms(5,6) by (simp add: submit_write_def with_runner_def getFd_def Let_def)
qed

lemma count_job_twice:
  "runners q r = Some this \<Longrightarrow> runners (count_job r q) = (runners q)(r \<mapsto> this\<lparr>jobsRunning := jobsRunning this + 1\<rparr>)"
  by (simp add: count_job_def)

definition can_submit :: "nat \<Rightarrow> nat \<Rightarrow> int \<Rightarrow> int \<Rightarrow> CopyRunner \<Rightarrow> CopyQueue \<Rightarrow> bool" where
  "can_submit n r sfd dfd this q \<longleftrightarrow>
     runners q r = Some this \<and> sq_inv n (ring_sq (ring q)) \<and> length (sq_queued (ring_sq (ring q))) + 2 \<le> 2 ^ n \<and>
     fd_ready q (sourceFd this) sfd \<and> fd_ready q (destFd this) dfd \<and> cr_alignment this \<noteq> 0 \<and>
     buffer this \<noteq> 0 \<and> savedError this = None \<and> jobsRunning this = 0 \<and>
     writeOffset this < cr_offset this + cr_size this"

lemma addToBatch_requests:
  assumes "can_submit n r sfd dfd this q"
    and "\<not> DEBUG_FORCE_PARTIAL_READS cfg" "\<not> DEBUG_FORCE_PARTIAL_WRITES cfg"
  shows "\<exists>q'. addToBatch cfg os r q w = Inr (Success, q', w) \<and>
    sq_queued (ring_sq (ring q')) = sq_queued (ring_sq (ring q)) @ requests this r sfd dfd \<and>
    sq_inv n (ring_sq (ring q')) \<and> ring_cq (ring q') = ring_cq (ring q) \<and>
    q' = q\<lparr>ring := ring q',
       runners := (runners q)(r \<mapsto> this\<lparr>jobsRunning := int (length (requests this r sfd dfd))\<rparr>),
       submissionsRunning := submissionsRunning q + of_nat (length (requests this r sfd dfd))\<rparr>"
proof -
  note ok = assms(1) [unfolded can_submit_def]
  let ?left = "word_of_int (cr_offset this + cr_size this - readOffset this) :: u32"
  let ?rd = "read_sqe this r sfd (round_up ?left (cr_alignment this)) zero_sqe"
  let ?wr = "write_sqe this r dfd (word_of_int (cr_offset this + cr_size this - writeOffset this)) zero_sqe"
  have op: "open_files (NDEBUG cfg) os this q w = Inr (Success, q, w)"
    using ok ensureOpened_ready [of q "sourceFd this" sfd "NDEBUG cfg" os w]
      ensureOpened_ready [of q "destFd this" dfd "NDEBUG cfg" os w] by (simp add: open_files_def)
  have add: "addToBatch cfg os r q w =
      and_then (if ?left \<noteq> 0 then submit_read cfg r ?left (uint ?left < cr_offset this + cr_size this - readOffset this) q
        else Inr q) (\<lambda>q. and_then (submit_write cfg os r (uint ?left < cr_offset this + cr_size this - readOffset this) q w)
          (\<lambda>(q, w). Inr (Success, q, w)))"
    using ok assms(2) op
    by (simp add: addToBatch_def needsBuffer_def with_runner_def submitReadWriteCommands_def Let_def)
  show ?thesis
  proof (cases "?left = 0")
    case True
    let ?q' = "(count_job r q)\<lparr>ring := put_ring ?wr (ring q)\<rparr>"
    have w1: "submit_write cfg os r f q w = Inr (?q', w)" for f
      by (rule submit_write_plain [where n = n]) (use ok assms(2,3) in simp_all)
    have "addToBatch cfg os r q w = Inr (Success, ?q', w)" unfolding add using True w1 by simp
    moreover have "requests this r sfd dfd = [?wr]" using True by (simp add: requests_def)
    ultimately show ?thesis
      using put_ring_queued [of n "ring q" ?wr] ok
      by (intro exI [of _ ?q']) (simp add: count_job_def)
  next
    case False
    let ?q1 = "(count_job r q)\<lparr>ring := put_ring ?rd (ring q)\<rparr>"
    let ?t1 = "this\<lparr>jobsRunning := jobsRunning this + 1\<rparr>"
    let ?q' = "(count_job r ?q1)\<lparr>ring := put_ring ?wr (put_ring ?rd (ring q))\<rparr>"
    have r1: "submit_read cfg r ?left (uint ?left < cr_offset this + cr_size this - readOffset this) q = Inr ?q1"
      by (rule submit_read_plain [where n = n]) (use ok assms(2) in simp_all)
    have p1: "sq_queued (ring_sq (put_ring ?rd (ring q))) = sq_queued (ring_sq (ring q)) @ [?rd]"
        "sq_inv n (ring_sq (put_ring ?rd (ring q)))" "ring_cq (put_ring ?rd (ring q)) = ring_cq (ring q)"
      using put_ring_queued [of n "ring q" ?rd] ok by simp_all
    have w1: "submit_write cfg os r f ?q1 w = Inr (?q', w)" for f
    proof -
      have t1: "runners ?q1 r = Some ?t1" "fd_ready ?q1 (destFd ?t1) dfd"
        using ok by (simp_all add: fd_ready_def count_job_def)
      have "submit_write cfg os r f ?q1 w = Inr ((count_job r ?q1)\<lparr>ring := put_ring (write_sqe ?t1 r dfd
          (word_of_int (cr_offset ?t1 + cr_size ?t1 - writeOffset ?t1)) zero_sqe) (ring ?q1)\<rparr>, w)"
        by (rule submit_write_plain [OF t1(1) _ _ t1(2), where n = n]) (use p1 ok assms(2,3) in simp_all)
      then show ?thesis by simp
    qed
    have "addToBatch cfg os r q w = Inr (Success, ?q', w)" unfolding add using False r1 w1 by simp
    moreover have "requests this r sfd dfd = [?rd, ?wr]" using False by (simp add: requests_def)
    ultimately show ?thesis
      using put_ring_queued [of n "put_ring ?rd (ring q)" ?wr] p1 ok
      by (intro exI [of _ ?q']) (simp add: count_job_def)
  qed
qed


text \<open>A runner for the first 10 bytes of a file, with a block at 8192, in a ring of two entries.\<close>

definition example_runner :: CopyRunner where
  "example_runner =
     \<lparr>savedError = None, sourceFd = 0, destFd = 1, cr_offset = 0, cr_size = 10, cr_alignment = 4096,
      chunksRemaining = 2, buffer = 8192, bufferAligned = 8192, readOffset = 0, writeOffset = 0, jobsRunning = 0,
      readOverride = INT_MAX, writeOverride = INT_MAX\<rparr>"

definition example_copy :: CopyQueue where
  "example_copy = (CopyQueue_init 10 \<lparr>usedList = [True], data = 8192, blocks = 1, blockSize = 8192, alignment = 4096\<rparr>
       (empty_ring\<lparr>ring_sq := wrapping_sq\<rparr>) 2)
     \<lparr>fds := [0 \<mapsto> \<lparr>qfd_path = ''a'', qfd_oflag = 0, qfd_mode = 0, qfd_fd = 5\<rparr>,
              1 \<mapsto> \<lparr>qfd_path = ''b'', qfd_oflag = 1, qfd_mode = 0, qfd_fd = 6\<rparr>],
      counters := [2 \<mapsto> 1], runners := [3 \<mapsto> example_runner], next_object := 4, keepAliveCount := 1,
      fileDescriptorsUsed := 4\<rparr>"

lemma example_can_submit: "can_submit 1 3 5 6 example_runner example_copy"
  using wrapping_sq_inv wrapping_sq_empty
  by (simp add: can_submit_def example_copy_def example_runner_def CopyQueue_init_def fd_ready_def empty_ring_def)


end
