(* ===== verification/Copy_Transfer.thy ===== *)
theory Copy_Transfer
  imports Copy_Runner
begin

text \<open>
  The bytes that a runner moves. The kernel executes the requests that \<open>addToBatch\<close> queued, in
  order: a read stores bytes of the source file in memory, a write stores bytes of memory in the
  destination file, both may be short or fail, and a linked request whose predecessor did not
  complete in full is cancelled. The completions reach \<open>onCompletionEvent\<close> in any order, and
  between any two steps the rest of the queue may change. The invariant shows that a runner that
  reports \<open>FinishedTag\<close> has copied its chunk.
\<close>

section \<open>Memory and files\<close>

definition write_mem :: "u64 \<Rightarrow> 'b list \<Rightarrow> (u64 \<Rightarrow> 'b) \<Rightarrow> (u64 \<Rightarrow> 'b)" where
  "write_mem addr bs mem = (\<lambda>a. if unat (a - addr) < length bs then bs ! unat (a - addr) else mem a)"

definition read_mem :: "u64 \<Rightarrow> nat \<Rightarrow> (u64 \<Rightarrow> 'b) \<Rightarrow> 'b list" where
  "read_mem addr n mem = map (\<lambda>k. mem (addr + of_nat k)) [0..<n]"

definition write_file :: "nat \<Rightarrow> 'b list \<Rightarrow> (nat \<Rightarrow> 'b) \<Rightarrow> (nat \<Rightarrow> 'b)" where
  "write_file off bs file = (\<lambda>i. if off \<le> i \<and> i < off + length bs then bs ! (i - off) else file i)"

section \<open>The kernel\<close>

record ('b, 'w) xfer =
  xq :: CopyQueue
  xw :: 'w
  xmem :: "u64 \<Rightarrow> 'b"
  xdst :: "nat \<Rightarrow> 'b"
  inflight :: "io_uring_sqe list"
  completions :: "(u64 \<times> int) list"
  verdict :: RunnerResult

definition is_op :: "io_uring_op \<Rightarrow> io_uring_sqe \<Rightarrow> bool" where
  "is_op op e \<longleftrightarrow> uint (sqe_opcode e) = op_code op"

definition is_linked :: "io_uring_sqe \<Rightarrow> bool" where
  "is_linked e \<longleftrightarrow> sqe_flags e AND ucast IOSQE_IO_LINK \<noteq> 0"

text \<open>
  The requests that stay in flight and the completions that are posted when the first request
  of a chain ends with result \<open>res\<close>.
\<close>

definition finish_request :: "io_uring_sqe \<Rightarrow> int \<Rightarrow> io_uring_sqe list \<Rightarrow> io_uring_sqe list \<times> (u64 \<times> int) list" where
  "finish_request e res rest =
     (if is_linked e \<and> res \<noteq> uint (sqe_len e)
      then ([], (sqe_user_data e, res) # map (\<lambda>e. (sqe_user_data e, - ECANCELED)) rest)
      else (rest, [(sqe_user_data e, res)]))"

definition post :: "io_uring_sqe \<Rightarrow> int \<Rightarrow> io_uring_sqe list \<Rightarrow> ('b, 'w) xfer \<Rightarrow> ('b, 'w) xfer" where
  "post e res rest s =
     (case finish_request e res rest of (es, cs) \<Rightarrow> s\<lparr>inflight := es, completions := completions s @ cs\<rparr>)"

text \<open>
  One step of a runner \<open>r\<close> that copies from the file \<open>src\<close> behind descriptor \<open>sfd\<close> to the file
  behind \<open>dfd\<close>. The source file does not change while it is copied.
\<close>

inductive runner_step ::
  "Config \<Rightarrow> 'w os \<Rightarrow> nat \<Rightarrow> int \<Rightarrow> int \<Rightarrow> 'b list \<Rightarrow> nat \<Rightarrow> ('b, 'w) xfer \<Rightarrow> ('b, 'w) xfer \<Rightarrow> bool"
  for cfg os r sfd dfd src n where
  submit: "verdict s = RescheduleTag \<Longrightarrow> runners (xq s) r = Some this \<Longrightarrow> can_submit n r sfd dfd this (xq s) \<Longrightarrow>
     addToBatch cfg os r (xq s) (xw s) = Inr (Success, q, w) \<Longrightarrow>
     runner_step cfg os r sfd dfd src n s
       (s\<lparr>xq := q, xw := w, verdict := ContinueTag,
          inflight := drop (length (sq_queued (ring_sq (ring (xq s))))) (sq_queued (ring_sq (ring q)))\<rparr>)"
| kernel_read: "inflight s = e # rest \<Longrightarrow> is_op IORING_OP_READ e \<Longrightarrow> sqe_fd e = sfd \<Longrightarrow>
     k \<le> unat (sqe_len e) \<Longrightarrow> unat (sqe_off e) + k \<le> length src \<Longrightarrow>
     runner_step cfg os r sfd dfd src n s
       (post e (int k) rest (s\<lparr>xmem := write_mem (sqe_addr e) (take k (drop (unat (sqe_off e)) src)) (xmem s)\<rparr>))"
| kernel_write: "inflight s = e # rest \<Longrightarrow> is_op IORING_OP_WRITE e \<Longrightarrow> sqe_fd e = dfd \<Longrightarrow>
     k \<le> unat (sqe_len e) \<Longrightarrow>
     runner_step cfg os r sfd dfd src n s
       (post e (int k) rest (s\<lparr>xdst := write_file (unat (sqe_off e)) (read_mem (sqe_addr e) k (xmem s)) (xdst s)\<rparr>))"
| kernel_fail: "inflight s = e # rest \<Longrightarrow> res < 0 \<Longrightarrow> runner_step cfg os r sfd dfd src n s (post e res rest s)"
| complete: "completions s = cs @ (ud, res) # cs' \<Longrightarrow> event_runner ud = r \<Longrightarrow>
     onCompletionEvent cfg os r (event_type ud) res (xq s) (xw s) = Inr (v, q, w) \<Longrightarrow>
     runner_step cfg os r sfd dfd src n s (s\<lparr>xq := q, xw := w, completions := cs @ cs', verdict := v\<rparr>)"

text \<open>
  The bytes of memory and of the destination file that belong to a runner. Between the steps of a
  runner the others may do anything, except change its record, its bytes of memory or its bytes of the file.
\<close>

definition buffer_area :: "CopyRunner \<Rightarrow> u64 set" where
  "buffer_area t = (\<lambda>k. bufferAligned t + word_of_int k) ` {0..<cr_size t}"

definition chunk_area :: "CopyRunner \<Rightarrow> nat set" where
  "chunk_area t = {i. cr_offset t \<le> int i \<and> int i < cr_offset t + cr_size t}"

inductive xfer_step ::
  "Config \<Rightarrow> 'w os \<Rightarrow> nat \<Rightarrow> int \<Rightarrow> int \<Rightarrow> 'b list \<Rightarrow> nat \<Rightarrow> ('b, 'w) xfer \<Rightarrow> ('b, 'w) xfer \<Rightarrow> bool"
  for cfg os r sfd dfd src n where
  own: "runner_step cfg os r sfd dfd src n s s' \<Longrightarrow> xfer_step cfg os r sfd dfd src n s s'"
| others: "runners (xq s) r = Some t \<Longrightarrow> runners q r = Some t \<Longrightarrow> \<forall>a \<in> buffer_area t. mem a = xmem s a \<Longrightarrow>
     \<forall>i \<in> chunk_area t. dst i = xdst s i \<Longrightarrow>
     xfer_step cfg os r sfd dfd src n s (s\<lparr>xq := q, xw := w, xmem := mem, xdst := dst\<rparr>)"

inductive xfer_reach ::
  "Config \<Rightarrow> 'w os \<Rightarrow> nat \<Rightarrow> int \<Rightarrow> int \<Rightarrow> 'b list \<Rightarrow> nat \<Rightarrow> ('b, 'w) xfer \<Rightarrow> ('b, 'w) xfer \<Rightarrow> bool"
  for cfg os r sfd dfd src n s0 where
  start: "xfer_reach cfg os r sfd dfd src n s0 s0"
| step: "xfer_reach cfg os r sfd dfd src n s0 s \<Longrightarrow> xfer_step cfg os r sfd dfd src n s s' \<Longrightarrow>
     xfer_reach cfg os r sfd dfd src n s0 s'"

section \<open>Arithmetic of offsets\<close>

text \<open>
  The chunk of a runner: its bounds fit the types of the source, it starts at a multiple of the
  alignment, and it ends at one or at the end of the file.
\<close>

definition chunk_ok :: "'b list \<Rightarrow> CopyRunner \<Rightarrow> bool" where
  "chunk_ok src this \<longleftrightarrow>
     0 \<le> cr_offset this \<and> 0 < cr_size this \<and> 0 < uint (cr_alignment this) \<and>
     cr_size this + uint (cr_alignment this) \<le> 2 ^ 32 \<and> cr_offset this + cr_size this < 2 ^ 63 \<and>
     cr_offset this + cr_size this \<le> int (length src) \<and>
     uint (cr_alignment this) dvd cr_offset this \<and>
     (uint (cr_alignment this) dvd cr_offset this + cr_size this \<or> cr_offset this + cr_size this = int (length src))"

lemma uint_of_int_u32: "0 \<le> x \<Longrightarrow> x < 2 ^ 32 \<Longrightarrow> uint (word_of_int x :: u32) = x"
  by (simp add: uint_word_of_int)

lemma uint_of_int_u64: "0 \<le> x \<Longrightarrow> x < 2 ^ 64 \<Longrightarrow> uint (word_of_int x :: u64) = x"
  by (simp add: uint_word_of_int)

lemma round_up_uint:
  assumes "0 < left" "0 < uint A" "left + uint A \<le> 2 ^ 32"
  shows "left \<le> uint (round_up (word_of_int left) A)"
    "uint A dvd left \<Longrightarrow> uint (round_up (word_of_int left) A) = left"
    "uint (round_up (word_of_int left) A) < left + uint A"
    "uint A dvd uint (round_up (word_of_int left) A)"
proof -
  let ?l = "word_of_int left :: u32"
  have l: "uint ?l = left" using assms by (intro uint_of_int_u32) auto
  have c: "uint (ucast ?l :: u64) = left" using l by (simp add: uint_up_ucast is_up)
  have d: "uint (ucast ?l div A) = left div uint A" "uint (ucast ?l mod A) = left mod uint A"
    using c by (simp_all add: uint_div uint_mod)
  show same: "uint A dvd left \<Longrightarrow> uint (round_up ?l A) = left"
    using d(2) l by (simp add: round_up_def dvd_eq_mod_eq_0 uint_0_iff)
  have up: "uint (round_up ?l A) = (left div uint A + 1) * uint A" if "\<not> uint A dvd left"
  proof -
    have "(left div uint A + 1) * uint A = left - left mod uint A + uint A"
      by (simp add: algebra_simps minus_mod_eq_mult_div)
    also have "\<dots> < 2 ^ 32"
    proof -
      have "0 < left mod uint A" using that assms(2) by (simp add: dvd_eq_mod_eq_0 less_le)
      then show ?thesis using assms(3) by linarith
    qed
    finally have lt: "(left div uint A + 1) * uint A < 2 ^ 32" .
    have nn: "0 \<le> left div uint A" using assms by (simp add: pos_imp_zdiv_nonneg_iff)
    have "left div uint A + 1 \<le> (left div uint A + 1) * uint A" using nn assms(2) by simp
    then have "left div uint A + 1 < 2 ^ 32" using lt by (rule le_less_trans)
    then have "uint (ucast ?l div A + 1) = left div uint A + 1"
      using d(1) nn by (simp add: uint_word_ariths)
    then have m: "uint ((ucast ?l div A + 1) * A) = (left div uint A + 1) * uint A"
      using lt nn by (simp add: uint_word_ariths)
    have "ucast ?l mod A \<noteq> 0" using that d(2) by (metis dvd_eq_mod_eq_0 uint_0_eq)
    then show ?thesis using m lt nn
      by (simp add: round_up_def unsigned_ucast_eq take_bit_int_eq_self)
  qed
  have frac: "0 < left mod uint A" if "\<not> uint A dvd left"
    using that assms(2) by (simp add: dvd_eq_mod_eq_0 less_le)
  have small: "left mod uint A < uint A" by (rule pos_mod_bound [OF assms(2)])
  have sum: "(left div uint A + 1) * uint A = left - left mod uint A + uint A"
    by (simp add: algebra_simps minus_mod_eq_mult_div)
  show "left \<le> uint (round_up ?l A)" "uint (round_up ?l A) < left + uint A" "uint A dvd uint (round_up ?l A)"
    using same up frac small sum assms(2) by (cases "uint A dvd left"; simp; linarith)+
qed

lemma advance_read_ok:
  assumes "chunk_ok src this" "cr_offset this \<le> readOffset this" "0 \<le> k"
    and "readOffset this + k \<le> cr_offset this + cr_size this"
  obtains x where "advance_read k this = Inr (this\<lparr>readOffset := x\<rparr>)"
    "cr_offset this \<le> x" "x \<le> readOffset this + k"
    "x = cr_offset this + cr_size this \<or> uint (cr_alignment this) dvd x"
proof -
  let ?A = "uint (cr_alignment this)" and ?e = "cr_offset this + cr_size this" and ?p = "readOffset this + k"
  note ok = assms(1) [unfolded chunk_ok_def]
  have z: "(word_of_int (?e - ?p) :: u32) = 0 \<longleftrightarrow> ?e = ?p"
    using ok assms(2-4) by (subst uint_0_iff [symmetric], subst uint_of_int_u32) auto
  have nz: "cr_alignment this \<noteq> 0" using ok by auto
  have adv_eq: "advance_read k this = (if (word_of_int (?e - ?p) :: u32) \<noteq> 0
      then defined_if ''/ alignment'' (cr_alignment this \<noteq> 0)
        (Inr (this\<lparr>readOffset := sint ((word_of_int ?p div cr_alignment this) * cr_alignment this)\<rparr>))
      else Inr (this\<lparr>readOffset := ?p\<rparr>))"
    by (simp add: advance_read_def Let_def)
  show thesis
  proof (cases "?e = ?p")
    case True
    then have "advance_read k this = Inr (this\<lparr>readOffset := ?p\<rparr>)" unfolding adv_eq using z by (simp only: if_False simp_thms)
    then show thesis using that [of ?p] True assms ok by simp
  next
    case False
    let ?x = "(?p div ?A) * ?A"
    have p: "0 \<le> ?p" "?p < 2 ^ 63" using ok assms(2-4) by auto
    have "?p mod ?A = ?p - ?x" by (simp add: minus_div_mult_eq_mod)
    then have x: "0 \<le> ?x" "?x \<le> ?p"
      using p ok pos_mod_sign [of ?A ?p] by (auto intro!: mult_nonneg_nonneg simp: pos_imp_zdiv_nonneg_iff)
    have u: "uint (word_of_int ?p :: u64) = ?p" using p by (intro uint_of_int_u64) auto
    have "uint ((word_of_int ?p div cr_alignment this) * cr_alignment this) = ?x"
      using x p u by (simp add: uint_word_ariths uint_div)
    then have "sint ((word_of_int ?p div cr_alignment this) * cr_alignment this) = ?x"
      using x p by (simp add: sint_uint signed_take_bit_int_eq_self)
    then have adv: "advance_read k this = Inr (this\<lparr>readOffset := ?x\<rparr>)"
      unfolding adv_eq using False z nz by (simp only: if_True simp_thms defined_if_True)
    have "cr_offset this div ?A * ?A \<le> ?x"
      using ok assms(2,3) by (intro mult_right_mono zdiv_mono1) auto
    then have "cr_offset this \<le> ?x" using ok by (simp add: dvd_div_mult_self)
    then show thesis using that [OF adv] x by simp
  qed
qed

section \<open>Bytes in the buffer\<close>

definition buf_holds :: "'b list \<Rightarrow> CopyRunner \<Rightarrow> (u64 \<Rightarrow> 'b) \<Rightarrow> int \<Rightarrow> bool" where
  "buf_holds src this mem hi \<longleftrightarrow>
     (\<forall>i. cr_offset this \<le> i \<and> i < hi \<longrightarrow> mem (bufferAligned this + word_of_int (i - cr_offset this)) = src ! nat i)"

definition dst_holds :: "'b list \<Rightarrow> CopyRunner \<Rightarrow> (nat \<Rightarrow> 'b) \<Rightarrow> int \<Rightarrow> bool" where
  "dst_holds src this dst hi \<longleftrightarrow> (\<forall>i. cr_offset this \<le> i \<and> i < hi \<longrightarrow> dst (nat i) = src ! nat i)"

lemma read_fills_buffer:
  assumes "chunk_ok src this" "buf_holds src this mem (readOffset this)" "cr_offset this \<le> readOffset this"
    and "nat (readOffset this) + k \<le> length src" "k < 2 ^ 33" "readOffset this \<le> cr_offset this + cr_size this"
  shows "buf_holds src this
    (write_mem (bufferAligned this + word_of_int (readOffset this) - word_of_int (cr_offset this))
      (take k (drop (nat (readOffset this)) src)) mem) (readOffset this + int k)"
  unfolding buf_holds_def
proof (intro allI impI)
  fix i assume i: "cr_offset this \<le> i \<and> i < readOffset this + int k"
  let ?ro = "readOffset this" and ?O = "cr_offset this" and ?B = "bufferAligned this"
  let ?bs = "take k (drop (nat ?ro) src)"
  have len: "length ?bs = k" using assms(4) by simp
  note ok = assms(1) [unfolded chunk_ok_def]
  have d: "?B + word_of_int (i - ?O) - (?B + word_of_int ?ro - word_of_int ?O) = (word_of_int (i - ?ro) :: u64)"
    by simp
  show "write_mem (?B + word_of_int ?ro - word_of_int ?O) ?bs mem (?B + word_of_int (i - ?O)) = src ! nat i"
  proof (cases "?ro \<le> i")
    case True
    then have "uint (word_of_int (i - ?ro) :: u64) = i - ?ro" using i assms(5) by (intro uint_of_int_u64) auto
    then have "unat (word_of_int (i - ?ro) :: u64) = nat (i - ?ro)" by (simp only: unat_eq_nat_uint)
    moreover have "nat (i - ?ro) < k" "nat ?ro + nat (i - ?ro) = nat i" using True i assms(3) ok by linarith+
    ultimately show ?thesis
      unfolding write_mem_def d len using assms(4) by simp
  next
    case False
    then have "(word_of_int (i - ?ro) :: u64) = word_of_int (2 ^ 64 + (i - ?ro))"
      unfolding word_uint_eq_iff uint_word_of_int by simp
    moreover have "uint (word_of_int (2 ^ 64 + (i - ?ro)) :: u64) = 2 ^ 64 + (i - ?ro)"
      using False i ok assms(6) by (intro uint_of_int_u64) auto
    ultimately have "unat (word_of_int (i - ?ro) :: u64) = nat (2 ^ 64 + (i - ?ro))"
      by (simp only: unat_eq_nat_uint)
    moreover have "9223372036854775808 \<le> 18446744073709551616 + (i - ?ro)" "k < 8589934592"
      using i ok assms(5,6) by simp_all
    then have "\<not> nat (2 ^ 64 + (i - ?ro)) < k" by simp
    ultimately have "\<not> unat (word_of_int (i - ?ro) :: u64) < k" by presburger
    then show ?thesis
      unfolding write_mem_def d len using assms(2) i False by (simp add: buf_holds_def)
  qed
qed

lemma write_copies:
  assumes "chunk_ok src this" "buf_holds src this mem (cr_offset this + cr_size this)"
    and "dst_holds src this dst (writeOffset this)" "cr_offset this \<le> writeOffset this"
    and "writeOffset this + int k \<le> cr_offset this + cr_size this"
  shows "dst_holds src this (write_file (nat (writeOffset this))
    (read_mem (bufferAligned this + word_of_int (writeOffset this) - word_of_int (cr_offset this)) k mem) dst)
    (writeOffset this + int k)"
  unfolding dst_holds_def
proof (intro allI impI)
  fix i assume i: "cr_offset this \<le> i \<and> i < writeOffset this + int k"
  let ?wo = "writeOffset this" and ?O = "cr_offset this" and ?B = "bufferAligned this"
  note ok = assms(1) [unfolded chunk_ok_def]
  show "write_file (nat ?wo) (read_mem (?B + word_of_int ?wo - word_of_int ?O) k mem) dst (nat i) = src ! nat i"
  proof (cases "?wo \<le> i")
    case True
    have ij: "int (nat i - nat ?wo) = i - ?wo" "nat i - nat ?wo < k" "nat ?wo \<le> nat i"
        "nat i < nat ?wo + k"
      using True i ok assms(4) by linarith+
    have j: "(of_nat (nat i - nat ?wo) :: u64) = word_of_int (i - ?wo)" by (metis ij(1) of_int_of_nat_eq)
    have "?B + word_of_int ?wo - word_of_int ?O + word_of_int (i - ?wo) = ?B + word_of_int (i - ?O)" by simp
    moreover have "mem (?B + word_of_int (i - ?O)) = src ! nat i"
      using assms(2,5) i unfolding buf_holds_def by auto
    ultimately show ?thesis
      using ij(2-4) j unfolding write_file_def read_mem_def by (simp only: length_map length_upt nth_map_upt) simp
  next
    case False
    then have "\<not> nat ?wo \<le> nat i" using i ok by linarith
    then show ?thesis using assms(3) i False by (simp add: write_file_def dst_holds_def)
  qed
qed

section \<open>What a completion does to its runner\<close>

lemma close_if_open_runners:
  "close_if_open nd os d (res, q, w) = Inr (res', q', w') \<Longrightarrow> runners q' = runners q"
  by (auto simp: close_if_open_def outcome_simps notifyClosed_def Let_def case_prod_beta split: if_splits)

lemma handleFileClose_runners:
  "handleFileClose nd os r q w = Inr (res, q', w') \<Longrightarrow> runners q' = runners q"
  by (auto simp: handleFileClose_def with_runner_def outcome_simps split: if_splits
      dest!: close_if_open_runners)

lemma saveError_runner:
  assumes "saveError nd os e r q w = Inr (q', w')" "runners q r = Some this" "savedError this = None"
  shows "runners q' = (runners q)(r \<mapsto> this\<lparr>savedError := Some e\<rparr>)"
  using assms
  by (auto simp: saveError_def with_runner_def cleanupOnError_def outcome_simps dest!: handleFileClose_runners)

definition runner_after :: "EventType \<Rightarrow> int \<Rightarrow> CopyRunner \<Rightarrow> CopyRunner \<Rightarrow> bool" where
  "runner_after type res this this' \<longleftrightarrow>
     (if savedError this \<noteq> None then this' = this
      else case type of
        Read \<Rightarrow> if res < 0 then \<exists>e. this' = this\<lparr>savedError := Some e\<rparr>
                else if res = 0 then \<exists>e. advance_read 0 (this\<lparr>savedError := Some e\<rparr>) = Inr this'
                else advance_read res this = Inr this'
      | Write \<Rightarrow> if res = - ECANCELED then this' = this
                 else if res < 0 then \<exists>e. this' = this\<lparr>savedError := Some e\<rparr>
                 else this' = this\<lparr>writeOffset := writeOffset this + res\<rparr>)"

definition runner_verdict :: "CopyRunner \<Rightarrow> RunnerResult" where
  "runner_verdict this =
     (if jobsRunning this = 0 then
        (case savedError this of
           Some e \<Rightarrow> RunnerError e
         | None \<Rightarrow> if writeOffset this = cr_offset this + cr_size this then FinishedTag else RescheduleTag)
      else ContinueTag)"

lemma on_read_runner:
  assumes "on_read cfg os r res q w = Inr (q', w')" "runners q r = Some this" "savedError this = None"
  shows "\<exists>this'. runners q' r = Some this' \<and> runner_after Read res this this'"
proof (cases "res = 0")
  case True
  then obtain e q1 w1 where save: "saveError (NDEBUG cfg) os e r q w = Inr (q1, w1)"
    and q': "\<exists>t this'. runners q1 r = Some t \<and> advance_read 0 t = Inr this' \<and> q' = q1\<lparr>runners := (runners q1)(r \<mapsto> this')\<rparr>"
    using assms by (auto simp: on_read_def with_runner_def outcome_simps Let_def)
  then have "runners q1 r = Some (this\<lparr>savedError := Some e\<rparr>)"
    using saveError_runner [OF save assms(2,3)] by simp
  then show ?thesis using q' True assms(3) by (auto simp: runner_after_def)
next
  case False
  show ?thesis
  proof (cases "res < 0")
    case True
    then obtain e where save: "saveError (NDEBUG cfg) os e r q w = Inr (q', w')"
      using False assms by (auto simp: on_read_def with_runner_def outcome_simps Let_def)
    then show ?thesis
      using saveError_runner [OF save assms(2,3)] True assms(3) by (auto simp: runner_after_def)
  next
    case False
    then show ?thesis
      using \<open>res \<noteq> 0\<close> assms by (auto simp: on_read_def with_runner_def outcome_simps Let_def runner_after_def)
  qed
qed

lemma on_write_runner:
  assumes "on_write cfg os r res q w = Inr (q', w')" "runners q r = Some this" "savedError this = None"
  shows "\<exists>this'. runners q' r = Some this' \<and> runner_after Write res this this'"
proof (cases "res < 0 \<and> res \<noteq> - ECANCELED")
  case True
  then obtain e where save: "saveError (NDEBUG cfg) os e r q w = Inr (q', w')"
    using assms by (auto simp: on_write_def with_runner_def outcome_simps)
  then show ?thesis
    using saveError_runner [OF save assms(2,3)] True assms(3) by (auto simp: runner_after_def)
next
  case False
  then show ?thesis
    using assms by (auto simp: on_write_def with_runner_def outcome_simps runner_after_def split: if_splits)
qed

lemma onCompletionEvent_runner:
  assumes "onCompletionEvent cfg os r type res q w = Inr (v, q', w')" "runners q r = Some this"
    and "\<not> DEBUG_FORCE_PARTIAL_READS cfg"
  shows "\<exists>this'. runners q' r = Some this' \<and> v = runner_verdict this' \<and>
    runner_after type res (this\<lparr>jobsRunning := jobsRunning this - 1\<rparr>) this'"
proof -
  let ?t1 = "this\<lparr>jobsRunning := jobsRunning this - 1\<rparr>"
  let ?q1 = "q\<lparr>runners := (runners q)(r \<mapsto> ?t1)\<rparr>"
  have ov: "override_result cfg type res ?t1 = (res, ?t1)" using assms(3) by (simp add: override_result_def Let_def)
  have dup: "?q1\<lparr>runners := (runners ?q1)(r \<mapsto> ?t1)\<rparr> = ?q1" by simp
  let ?mid = "if savedError ?t1 = None then
       (case type of Read \<Rightarrow> on_read cfg os r res ?q1 w | Write \<Rightarrow> on_write cfg os r res ?q1 w)
       else Inr (?q1, w)"
  have "debug_assert (NDEBUG cfg) ''jobsRunning >= 0'' (jobsRunning ?t1 \<ge> 0)
      (and_then ?mid (\<lambda>(q, w). and_then (object ''CopyRunner'' (runners q) r) (\<lambda>this.
         debug_assert (NDEBUG cfg) ''this->writeOffset <= this->offset + this->size''
           (writeOffset this \<le> cr_offset this + cr_size this) (Inr (runner_verdict this, q, w))))) = Inr (v, q', w')"
    using assms(1,2) ov
    by (simp only: onCompletionEvent_def with_runner_def Let_def runner_verdict_def object_Some and_then.simps
        prod.case dup)
  then obtain q2 w2 where q2: "?mid = Inr (q2, w2)"
    and v: "\<exists>this'. runners q2 r = Some this' \<and> v = runner_verdict this' \<and> q' = q2"
    unfolding debug_assert_Inr and_then_Inr by (auto simp: outcome_simps)
  have "\<exists>this'. runners q2 r = Some this' \<and> runner_after type res ?t1 this'"
  proof (cases "savedError this = None")
    case True
    then show ?thesis
      using q2 on_read_runner [of cfg os r res ?q1 w q2 w2 ?t1] on_write_runner [of cfg os r res ?q1 w q2 w2 ?t1]
      by (cases type) auto
  next
    case False
    then show ?thesis using q2 by (auto simp: runner_after_def)
  qed
  then show ?thesis using v by auto
qed

section \<open>The invariant of a transfer\<close>

definition chunk_end :: "CopyRunner \<Rightarrow> int" where
  "chunk_end t = cr_offset t + cr_size t"

definition rd_req :: "nat \<Rightarrow> int \<Rightarrow> CopyRunner \<Rightarrow> io_uring_sqe" where
  "rd_req r sfd t = read_sqe t r sfd (round_up (word_of_int (chunk_end t - readOffset t)) (cr_alignment t)) zero_sqe"

definition wr_req :: "nat \<Rightarrow> int \<Rightarrow> CopyRunner \<Rightarrow> io_uring_sqe" where
  "wr_req r dfd t = write_sqe t r dfd (word_of_int (chunk_end t - writeOffset t)) zero_sqe"

definition same_chunk :: "CopyRunner \<Rightarrow> CopyRunner \<Rightarrow> bool" where
  "same_chunk t t' \<longleftrightarrow> cr_offset t' = cr_offset t \<and> cr_size t' = cr_size t \<and> cr_alignment t' = cr_alignment t \<and>
     bufferAligned t' = bufferAligned t"

lemma jobsRunning_frame [simp]:
  "chunk_end (t\<lparr>jobsRunning := x\<rparr>) = chunk_end t"
  "chunk_ok src (t\<lparr>jobsRunning := x\<rparr>) = chunk_ok src t"
  "buf_holds bs (t\<lparr>jobsRunning := x\<rparr>) = buf_holds bs t"
  "dst_holds bs (t\<lparr>jobsRunning := x\<rparr>) = dst_holds bs t"
  "same_chunk t0 (t\<lparr>jobsRunning := x\<rparr>) = same_chunk t0 t"
  "wr_req r dfd (t\<lparr>jobsRunning := x\<rparr>) = wr_req r dfd t"
  "rd_req r sfd (t\<lparr>jobsRunning := x\<rparr>) = rd_req r sfd t"
  by (simp_all add: chunk_end_def chunk_ok_def buf_holds_def dst_holds_def same_chunk_def wr_req_def rd_req_def
      write_sqe_def read_sqe_def fun_eq_iff)

lemma savedError_frame [simp]:
  "chunk_end (t\<lparr>savedError := x\<rparr>) = chunk_end t"
  "chunk_ok src (t\<lparr>savedError := x\<rparr>) = chunk_ok src t"
  "buf_holds bs (t\<lparr>savedError := x\<rparr>) = buf_holds bs t"
  "dst_holds bs (t\<lparr>savedError := x\<rparr>) = dst_holds bs t"
  "same_chunk t0 (t\<lparr>savedError := x\<rparr>) = same_chunk t0 t"
  "wr_req r dfd (t\<lparr>savedError := x\<rparr>) = wr_req r dfd t"
  "rd_req r sfd (t\<lparr>savedError := x\<rparr>) = rd_req r sfd t"
  by (simp_all add: chunk_end_def chunk_ok_def buf_holds_def dst_holds_def same_chunk_def wr_req_def rd_req_def
      write_sqe_def read_sqe_def fun_eq_iff)

lemma readOffset_frame [simp]:
  "chunk_end (t\<lparr>readOffset := x\<rparr>) = chunk_end t"
  "chunk_ok src (t\<lparr>readOffset := x\<rparr>) = chunk_ok src t"
  "buf_holds bs (t\<lparr>readOffset := x\<rparr>) = buf_holds bs t"
  "dst_holds bs (t\<lparr>readOffset := x\<rparr>) = dst_holds bs t"
  "same_chunk t0 (t\<lparr>readOffset := x\<rparr>) = same_chunk t0 t"
  "wr_req r dfd (t\<lparr>readOffset := x\<rparr>) = wr_req r dfd t"
  by (simp_all add: chunk_end_def chunk_ok_def buf_holds_def dst_holds_def same_chunk_def wr_req_def rd_req_def
      write_sqe_def read_sqe_def fun_eq_iff)

lemma writeOffset_frame [simp]:
  "chunk_end (t\<lparr>writeOffset := x\<rparr>) = chunk_end t"
  "chunk_ok src (t\<lparr>writeOffset := x\<rparr>) = chunk_ok src t"
  "buf_holds bs (t\<lparr>writeOffset := x\<rparr>) = buf_holds bs t"
  "dst_holds bs (t\<lparr>writeOffset := x\<rparr>) = dst_holds bs t"
  "same_chunk t0 (t\<lparr>writeOffset := x\<rparr>) = same_chunk t0 t"
  by (simp_all add: chunk_end_def chunk_ok_def buf_holds_def dst_holds_def same_chunk_def wr_req_def rd_req_def
      write_sqe_def read_sqe_def fun_eq_iff)

lemma buf_holds_mono: "buf_holds src t mem hi \<Longrightarrow> lo \<le> hi \<Longrightarrow> buf_holds src t mem lo"
  by (auto simp: buf_holds_def)

lemma dst_holds_mono: "dst_holds src t dst hi \<Longrightarrow> lo \<le> hi \<Longrightarrow> dst_holds src t dst lo"
  by (auto simp: dst_holds_def)

definition xshape :: "nat \<Rightarrow> int \<Rightarrow> int \<Rightarrow> CopyRunner \<Rightarrow> ('b, 'w) xfer \<Rightarrow> bool" where
  "xshape r sfd dfd t s \<longleftrightarrow>
     jobsRunning t = int (length (inflight s) + length (completions s)) \<and>
     distinct (map fst (completions s)) \<and>
     fst ` set (completions s) \<subseteq> {event_ptr r Read, event_ptr r Write} \<and>
     (inflight s = [] \<or>
      inflight s = [wr_req r dfd t] \<and> event_ptr r Write \<notin> fst ` set (completions s) \<or>
      inflight s = [rd_req r sfd t, wr_req r dfd t] \<and> completions s = [] \<and> readOffset t < chunk_end t)"

definition xbounds :: "nat \<Rightarrow> CopyRunner \<Rightarrow> (u64 \<times> int) list \<Rightarrow> bool" where
  "xbounds r t cs \<longleftrightarrow>
     cr_offset t \<le> readOffset t \<and> readOffset t \<le> chunk_end t \<and>
     (readOffset t = chunk_end t \<or> uint (cr_alignment t) dvd readOffset t) \<and>
     cr_offset t \<le> writeOffset t \<and> writeOffset t \<le> chunk_end t \<and>
     (\<forall>k. (event_ptr r Read, k) \<in> set cs \<longrightarrow> readOffset t + k \<le> chunk_end t) \<and>
     (\<forall>k. (event_ptr r Write, k) \<in> set cs \<longrightarrow> writeOffset t + k \<le> chunk_end t)"

definition xdata :: "'b list \<Rightarrow> nat \<Rightarrow> CopyRunner \<Rightarrow> ('b, 'w) xfer \<Rightarrow> bool" where
  "xdata src r t s \<longleftrightarrow>
     buf_holds src t (xmem s) (readOffset t) \<and> dst_holds src t (xdst s) (writeOffset t) \<and>
     (\<forall>k. (event_ptr r Read, k) \<in> set (completions s) \<longrightarrow> buf_holds src t (xmem s) (readOffset t + k)) \<and>
     (\<forall>k. (event_ptr r Write, k) \<in> set (completions s) \<longrightarrow> dst_holds src t (xdst s) (writeOffset t + k)) \<and>
     (length (inflight s) = 1 \<longrightarrow> buf_holds src t (xmem s) (chunk_end t))"

definition xverdict :: "CopyRunner \<Rightarrow> ('b, 'w) xfer \<Rightarrow> bool" where
  "xverdict t s \<longleftrightarrow>
     (verdict s = FinishedTag \<longrightarrow> savedError t = None \<and> writeOffset t = chunk_end t) \<and>
     (verdict s = RescheduleTag \<longrightarrow> savedError t = None \<and> inflight s = [] \<and> completions s = [])"

definition xinv :: "'b list \<Rightarrow> nat \<Rightarrow> int \<Rightarrow> int \<Rightarrow> CopyRunner \<Rightarrow> ('b, 'w) xfer \<Rightarrow> bool" where
  "xinv src r sfd dfd t0 s \<longleftrightarrow>
     (\<exists>t. runners (xq s) r = Some t \<and> same_chunk t0 t \<and> chunk_ok src t \<and> xshape r sfd dfd t s \<and>
        xbounds r t (completions s) \<and> (savedError t = None \<longrightarrow> xdata src r t s) \<and> xverdict t s)"

lemma xinvE:
  assumes "xinv src r sfd dfd t0 s"
  obtains t where "runners (xq s) r = Some t" "same_chunk t0 t" "chunk_ok src t" "xshape r sfd dfd t s"
    "xbounds r t (completions s)" "savedError t = None \<longrightarrow> xdata src r t s" "xverdict t s"
  using assms unfolding xinv_def by (elim conjE exE) (rule that)

lemma xinvI:
  assumes "runners (xq s) r = Some t" "same_chunk t0 t" "chunk_ok src t" "xshape r sfd dfd t s"
    "xbounds r t (completions s)" "savedError t = None \<longrightarrow> xdata src r t s" "xverdict t s"
  shows "xinv src r sfd dfd t0 s"
  using assms unfolding xinv_def by (intro conjI exI)

lemma event_ptr_inj:
  assumes "r < 2 ^ 62"
  shows "event_ptr r Read \<noteq> event_ptr r Write" "event_type (event_ptr r ty) = ty" "event_runner (event_ptr r ty) = r"
proof -
  have lt: "2 * r < 2 ^ 64" "2 * r + 1 < 2 ^ 64" using assms by simp_all
  have u: "unat (event_ptr r Read) = 2 * r" "unat (event_ptr r Write) = 2 * r + 1"
    unfolding event_ptr.simps by (rule unat_of_nat_u64 [OF lt(1)], rule unat_of_nat_u64 [OF lt(2)])
  then show "event_ptr r Read \<noteq> event_ptr r Write" by (metis add_cancel_right_right zero_neq_one)
  show "event_type (event_ptr r ty) = ty" "event_runner (event_ptr r ty) = r"
    using u by (cases ty; simp add: event_type_def event_runner_def)+
qed

declare event_ptr.simps [simp del]

text \<open>The fields of the two requests.\<close>

lemma rd_req_fields:
  "sqe_user_data (rd_req r sfd t) = event_ptr r Read" "is_op IORING_OP_READ (rd_req r sfd t)"
  "\<not> is_op IORING_OP_WRITE (rd_req r sfd t)" "is_linked (rd_req r sfd t)"
  "sqe_addr (rd_req r sfd t) = bufferAligned t + word_of_int (readOffset t) - word_of_int (cr_offset t)"
  "sqe_off (rd_req r sfd t) = word_of_int (readOffset t)"
  "sqe_len (rd_req r sfd t) = round_up (word_of_int (chunk_end t - readOffset t)) (cr_alignment t)"
  unfolding rd_req_def read_sqe_def io_uring_prep_read_def io_uring_prep_rw_def Let_def
  by (simp_all add: is_op_def op_code_def io_uring_ops_def is_linked_def IOSQE_IO_LINK_def)

lemma wr_req_fields:
  "sqe_user_data (wr_req r dfd t) = event_ptr r Write" "is_op IORING_OP_WRITE (wr_req r dfd t)"
  "\<not> is_op IORING_OP_READ (wr_req r dfd t)" "\<not> is_linked (wr_req r dfd t)"
  "sqe_addr (wr_req r dfd t) = bufferAligned t + word_of_int (writeOffset t) - word_of_int (cr_offset t)"
  "sqe_off (wr_req r dfd t) = word_of_int (writeOffset t)"
  "sqe_len (wr_req r dfd t) = word_of_int (chunk_end t - writeOffset t)"
  unfolding wr_req_def write_sqe_def io_uring_prep_write_def io_uring_prep_rw_def
  by (simp_all add: is_op_def op_code_def io_uring_ops_def is_linked_def)

lemma chunk_offsets:
  assumes "chunk_ok src t" "cr_offset t \<le> x" "x \<le> chunk_end t"
  shows "unat (word_of_int x :: u64) = nat x" "uint (word_of_int (chunk_end t - x) :: u32) = chunk_end t - x"
    "(word_of_int (chunk_end t - x) :: u32) = 0 \<longleftrightarrow> x = chunk_end t"
proof -
  note ok = assms(1) [unfolded chunk_ok_def]
  have "uint (word_of_int x :: u64) = x"
    using ok assms(2,3) by (intro uint_of_int_u64) (auto simp: chunk_end_def)
  then show "unat (word_of_int x :: u64) = nat x" by (simp only: unat_eq_nat_uint)
  show u: "uint (word_of_int (chunk_end t - x) :: u32) = chunk_end t - x"
    using ok assms(2,3) by (intro uint_of_int_u32) (auto simp: chunk_end_def)
  have "(word_of_int (chunk_end t - x) :: u32) = 0 \<longleftrightarrow> uint (word_of_int (chunk_end t - x) :: u32) = 0"
    by (rule uint_0_iff [symmetric])
  then show "(word_of_int (chunk_end t - x) :: u32) = 0 \<longleftrightarrow> x = chunk_end t" unfolding u by auto
qed

lemma requests_eq:
  assumes "chunk_ok src t" "cr_offset t \<le> readOffset t" "readOffset t \<le> chunk_end t"
  shows "requests t r sfd dfd =
    (if readOffset t = chunk_end t then [wr_req r dfd t] else [rd_req r sfd t, wr_req r dfd t])"
  using chunk_offsets(3) [OF assms]
  unfolding requests_def rd_req_def wr_req_def chunk_end_def Let_def by (simp only: if_distrib) simp

text \<open>A read that completes in full ends at the end of the chunk, a short one before it.\<close>

lemma read_result:
  assumes "chunk_ok src t" "cr_offset t \<le> readOffset t" "readOffset t < chunk_end t"
    and "uint (cr_alignment t) dvd readOffset t"
    and "k \<le> unat (round_up (word_of_int (chunk_end t - readOffset t)) (cr_alignment t))"
    and "nat (readOffset t) + k \<le> length src"
  shows "readOffset t + int k \<le> chunk_end t" "k < 2 ^ 33"
    "int k = uint (round_up (word_of_int (chunk_end t - readOffset t)) (cr_alignment t)) \<Longrightarrow>
       readOffset t + int k = chunk_end t"
proof -
  let ?A = "uint (cr_alignment t)" and ?left = "chunk_end t - readOffset t"
  let ?len = "uint (round_up (word_of_int ?left) (cr_alignment t))"
  note ok = assms(1) [unfolded chunk_ok_def]
  have l: "0 < ?left" "0 < ?A" "?left + ?A \<le> 2 ^ 32" using ok assms(2,3) by (auto simp: chunk_end_def)
  note ru = round_up_uint [OF l]
  have k: "int k \<le> ?len" unfolding uint_nat using assms(5) by (simp only: of_nat_le_iff)
  have src: "readOffset t + int k \<le> int (length src)" using assms(2,6) ok by linarith
  show "k < 2 ^ 33" using k ru(3) l(3) by simp
  have dvd: "?A dvd ?left" if "?A dvd chunk_end t" using that assms(4) by simp
  show le: "readOffset t + int k \<le> chunk_end t"
    using ok dvd ru(2) k src by (auto simp: chunk_end_def [symmetric])
  show "int k = ?len \<Longrightarrow> readOffset t + int k = chunk_end t" using ru(1) le by linarith
qed

subsection \<open>Preservation\<close>

lemma xinv_submit:
  assumes "xinv src r sfd dfd t0 s" "verdict s = RescheduleTag" "can_submit n r sfd dfd this (xq s)"
    and "addToBatch cfg os r (xq s) (xw s) = Inr (Success, q, w)"
    and "\<not> DEBUG_FORCE_PARTIAL_READS cfg" "\<not> DEBUG_FORCE_PARTIAL_WRITES cfg"
  shows "xinv src r sfd dfd t0 (s\<lparr>xq := q, xw := w, verdict := ContinueTag,
    inflight := drop (length (sq_queued (ring_sq (ring (xq s))))) (sq_queued (ring_sq (ring q)))\<rparr>)"
proof -
  obtain t where t: "runners (xq s) r = Some t" "same_chunk t0 t" "chunk_ok src t" "xshape r sfd dfd t s"
      "xbounds r t (completions s)" "savedError t = None \<longrightarrow> xdata src r t s" "xverdict t s"
    using assms(1) by (rule xinvE)
  have "this = t" using assms(3) t(1) by (simp add: can_submit_def)
  then obtain q' where q': "addToBatch cfg os r (xq s) (xw s) = Inr (Success, q', xw s)"
    "sq_queued (ring_sq (ring q')) = sq_queued (ring_sq (ring (xq s))) @ requests t r sfd dfd"
    "q' = (xq s)\<lparr>ring := ring q', runners := (runners (xq s))(r \<mapsto> t\<lparr>jobsRunning := int (length (requests t r sfd dfd))\<rparr>),
       submissionsRunning := submissionsRunning (xq s) + of_nat (length (requests t r sfd dfd))\<rparr>"
    using addToBatch_requests [OF assms(3,5,6), of os "xw s"] by auto
  let ?t = "t\<lparr>jobsRunning := int (length (requests t r sfd dfd))\<rparr>"
  have q: "q = q'" using q'(1) assms(4) by simp
  have rt: "runners q r = Some ?t" unfolding q by (subst q'(3)) simp
  have quiet: "savedError t = None" "inflight s = []" "completions s = []"
    using t(7) assms(2) by (auto simp: xverdict_def)
  have b: "cr_offset t \<le> readOffset t" "readOffset t \<le> chunk_end t" using t(5) by (auto simp: xbounds_def)
  have "xshape r sfd dfd ?t (s\<lparr>xq := q, xw := w, verdict := ContinueTag, inflight := requests t r sfd dfd\<rparr>)"
    using quiet b requests_eq [OF t(3) b, of r sfd dfd] by (auto simp: xshape_def)
  moreover have "xdata src r ?t (s\<lparr>xq := q, xw := w, verdict := ContinueTag, inflight := requests t r sfd dfd\<rparr>)"
    using quiet t(6) requests_eq [OF t(3) b, of r sfd dfd] by (auto simp: xdata_def)
  moreover have "xbounds r ?t (completions s)" using t(5) by (simp add: xbounds_def)
  moreover have "same_chunk t0 ?t" using t(2) by simp
  ultimately show ?thesis
    using rt t(3) q'(2) q by (intro xinvI [of _ _ ?t]) (simp_all add: xverdict_def)
qed

lemma xinv_read:
  assumes "xinv src r sfd dfd t0 s" "r < 2 ^ 62" "inflight s = e # rest" "is_op IORING_OP_READ e"
    and "k \<le> unat (sqe_len e)" "unat (sqe_off e) + k \<le> length src"
  shows "xinv src r sfd dfd t0
    (post e (int k) rest (s\<lparr>xmem := write_mem (sqe_addr e) (take k (drop (unat (sqe_off e)) src)) (xmem s)\<rparr>))"
proof -
  obtain t where t: "runners (xq s) r = Some t" "same_chunk t0 t" "chunk_ok src t" "xshape r sfd dfd t s"
      "xbounds r t (completions s)" "savedError t = None \<longrightarrow> xdata src r t s" "xverdict t s"
    using assms(1) by (rule xinvE)
  have e: "e = rd_req r sfd t" "rest = [wr_req r dfd t]" "completions s = []" "readOffset t < chunk_end t"
      "jobsRunning t = 2"
    using t(4) assms(3,4) wr_req_fields(3) by (auto simp: xshape_def)
  have b: "cr_offset t \<le> readOffset t" "uint (cr_alignment t) dvd readOffset t"
      "cr_offset t \<le> writeOffset t" "writeOffset t \<le> chunk_end t"
    using t(5) e(4) by (auto simp: xbounds_def)
  have off: "unat (sqe_off e) = nat (readOffset t)"
    using chunk_offsets(1) [OF t(3) b(1)] e(1,4) rd_req_fields(6) by simp
  let ?len = "round_up (word_of_int (chunk_end t - readOffset t)) (cr_alignment t)"
  have len: "sqe_len e = ?len" using e(1) rd_req_fields(7) by simp
  note res = read_result [OF t(3) b(1) e(4) b(2) assms(5) [unfolded len] assms(6) [unfolded off]]
  let ?mem = "write_mem (sqe_addr e) (take k (drop (unat (sqe_off e)) src)) (xmem s)"
  have buf: "savedError t = None \<longrightarrow> buf_holds src t ?mem (readOffset t + int k) \<and> dst_holds src t (xdst s) (writeOffset t)"
    using read_fills_buffer [OF t(3) _ b(1) assms(6) [unfolded off] res(2)] t(6) e(1,4) off rd_req_fields(5)
    by (auto simp: xdata_def chunk_end_def)
  have ev: "event_ptr r Read \<noteq> event_ptr r Write" by (rule event_ptr_inj [OF assms(2)])
  let ?s = "post e (int k) rest (s\<lparr>xmem := ?mem\<rparr>)"
  have post: "inflight ?s = (if int k = uint ?len then [wr_req r dfd t] else [])"
    "completions ?s = (event_ptr r Read, int k) # (if int k = uint ?len then [] else [(event_ptr r Write, - ECANCELED)])"
    using e len rd_req_fields(1,4) wr_req_fields(1) by (simp_all add: post_def finish_request_def)
  have frame: "xq ?s = xq s" "xmem ?s = ?mem" "xdst ?s = xdst s" "verdict ?s = verdict s"
    by (simp_all add: post_def split: prod.splits)
  have sh: "xshape r sfd dfd t ?s" using post e(5) ev by (simp add: xshape_def)
  have bd: "xbounds r t (completions ?s)" using t(5) post(2) res(1) ev b(4) by (auto simp: xbounds_def split: if_splits)
  have dat: "savedError t = None \<longrightarrow> xdata src r t ?s"
    using buf post frame res(3) ev buf_holds_mono [of src t ?mem "readOffset t + int k"]
      dst_holds_mono [of src t "xdst s" "writeOffset t"] by (auto simp: xdata_def split: if_splits)
  have "xverdict t ?s" using t(7) assms(3) frame by (auto simp: xverdict_def)
  then show ?thesis using t(1-3) sh bd dat frame by (intro xinvI [of _ _ t]) simp_all
qed

lemma xinv_write:
  assumes "xinv src r sfd dfd t0 s" "r < 2 ^ 62" "inflight s = e # rest" "is_op IORING_OP_WRITE e"
    and "k \<le> unat (sqe_len e)"
  shows "xinv src r sfd dfd t0
    (post e (int k) rest (s\<lparr>xdst := write_file (unat (sqe_off e)) (read_mem (sqe_addr e) k (xmem s)) (xdst s)\<rparr>))"
proof -
  obtain t where t: "runners (xq s) r = Some t" "same_chunk t0 t" "chunk_ok src t" "xshape r sfd dfd t s"
      "xbounds r t (completions s)" "savedError t = None \<longrightarrow> xdata src r t s" "xverdict t s"
    using assms(1) by (rule xinvE)
  have e: "e = wr_req r dfd t" "rest = []" "event_ptr r Write \<notin> fst ` set (completions s)"
    using t(4) assms(3,4) rd_req_fields(3) by (auto simp: xshape_def)
  have b: "cr_offset t \<le> writeOffset t" "writeOffset t \<le> chunk_end t" using t(5) by (auto simp: xbounds_def)
  have off: "unat (sqe_off e) = nat (writeOffset t)"
    using chunk_offsets(1) [OF t(3) b] e(1) wr_req_fields(6) by simp
  have "int k \<le> uint (sqe_len e)" unfolding uint_nat using assms(5) by (simp only: of_nat_le_iff)
  then have k: "writeOffset t + int k \<le> chunk_end t"
    using chunk_offsets(2) [OF t(3) b] e(1) wr_req_fields(7) [of r dfd t] by simp
  let ?dst = "write_file (unat (sqe_off e)) (read_mem (sqe_addr e) k (xmem s)) (xdst s)"
  let ?s = "post e (int k) rest (s\<lparr>xdst := ?dst\<rparr>)"
  have post: "inflight ?s = []" "completions ?s = completions s @ [(event_ptr r Write, int k)]"
    using e wr_req_fields(1,4) by (simp_all add: post_def finish_request_def)
  have frame: "xq ?s = xq s" "xmem ?s = xmem s" "xdst ?s = ?dst" "verdict ?s = verdict s"
    by (simp_all add: post_def split: prod.splits)
  have sh: "xshape r sfd dfd t ?s" using t(4) post assms(3) e by (auto simp: xshape_def)
  have bd: "xbounds r t (completions ?s)"
    using t(5) post(2) k e(3) event_ptr_inj(1) [OF assms(2)] by (auto simp: xbounds_def)
  have dst: "dst_holds src t ?dst (writeOffset t + int k)" if "savedError t = None"
    using write_copies [OF t(3) _ _ b(1), of "xmem s" "xdst s" k] t(6) that assms(3) e(1,2) off k wr_req_fields(5)
    by (auto simp: xdata_def chunk_end_def)
  have dat: "savedError t = None \<longrightarrow> xdata src r t ?s"
  proof
    assume no: "savedError t = None"
    have "k' = int k" if "(event_ptr r Write, k') \<in> set (completions ?s)" for k'
      using that post(2) e(3) by (auto simp: image_iff)
    moreover have "dst_holds src t ?dst (writeOffset t)" by (rule dst_holds_mono [OF dst [OF no]]) simp
    ultimately show "xdata src r t ?s"
      using t(6) no post frame dst [OF no] event_ptr_inj(1) [OF assms(2)] by (auto simp: xdata_def)
  qed
  have "xverdict t ?s" using t(7) assms(3) frame by (auto simp: xverdict_def)
  then show ?thesis using t(1-3) sh bd dat frame by (intro xinvI [of _ _ t]) simp_all
qed

lemma xinv_fail:
  assumes "xinv src r sfd dfd t0 s" "r < 2 ^ 62" "inflight s = e # rest" "res < 0"
  shows "xinv src r sfd dfd t0 (post e res rest s)"
proof -
  obtain t where t: "runners (xq s) r = Some t" "same_chunk t0 t" "chunk_ok src t" "xshape r sfd dfd t s"
      "xbounds r t (completions s)" "savedError t = None \<longrightarrow> xdata src r t s" "xverdict t s"
    using assms(1) by (rule xinvE)
  have ev: "event_ptr r Read \<noteq> event_ptr r Write" by (rule event_ptr_inj [OF assms(2)])
  let ?s = "post e res rest s"
  have ne: "res \<noteq> uint (sqe_len e)" using assms(4) uint_ge_0 [of "sqe_len e"] by linarith
  have frame: "xq ?s = xq s" "xmem ?s = xmem s" "xdst ?s = xdst s" "verdict ?s = verdict s"
    by (simp_all add: post_def split: prod.splits)
  consider (w) "e = wr_req r dfd t" "rest = []" "event_ptr r Write \<notin> fst ` set (completions s)"
    | (rw) "e = rd_req r sfd t" "rest = [wr_req r dfd t]" "completions s = []"
    using t(4) assms(3) by (auto simp: xshape_def)
  then have new: "inflight ?s = [] \<and> jobsRunning t = int (length (completions ?s)) \<and>
      distinct (map fst (completions ?s)) \<and> fst ` set (completions ?s) \<subseteq> {event_ptr r Read, event_ptr r Write} \<and>
      (\<forall>c \<in> set (completions ?s). c \<in> set (completions s) \<or> snd c < 0)"
  proof cases
    case w
    then show ?thesis
      using t(4) assms(3,4) wr_req_fields(1,4) by (simp add: xshape_def post_def finish_request_def)
  next
    case rw
    then show ?thesis
      using t(4) assms(3,4) ne ev rd_req_fields(1,4) wr_req_fields(1) by (simp add: xshape_def post_def finish_request_def)
  qed
  have sh: "xshape r sfd dfd t ?s" using new by (simp add: xshape_def)
  have neg: "c \<in> set (completions s) \<or> snd c < 0" if "c \<in> set (completions ?s)" for c using new that by blast
  have bd: "xbounds r t (completions ?s)" using t(5) neg unfolding xbounds_def by fastforce
  have dat: "savedError t = None \<longrightarrow> xdata src r t ?s"
  proof
    assume "savedError t = None"
    then have d: "xdata src r t s" using t(6) by simp
    have "buf_holds src t (xmem s) (readOffset t + k)" if "(event_ptr r Read, k) \<in> set (completions ?s)" for k
      using d neg [OF that] buf_holds_mono [of src t "xmem s" "readOffset t" "readOffset t + k"]
      unfolding xdata_def by fastforce
    moreover have "dst_holds src t (xdst s) (writeOffset t + k)" if "(event_ptr r Write, k) \<in> set (completions ?s)" for k
      using d neg [OF that] dst_holds_mono [of src t "xdst s" "writeOffset t" "writeOffset t + k"]
      unfolding xdata_def by fastforce
    ultimately show "xdata src r t ?s" using d new frame by (simp add: xdata_def)
  qed
  have "xverdict t ?s" using t(7) assms(3) frame by (auto simp: xverdict_def)
  then show ?thesis using t(1-3) sh bd dat frame by (intro xinvI [of _ _ t]) simp_all
qed

lemma runner_after_read:
  assumes "runner_after Read res t t'" "chunk_ok src t" "cr_offset t \<le> readOffset t" "readOffset t \<le> chunk_end t"
    and "readOffset t = chunk_end t \<or> uint (cr_alignment t) dvd readOffset t" "readOffset t + res \<le> chunk_end t"
  obtains x e where "t' = t\<lparr>readOffset := x, savedError := e\<rparr>" "cr_offset t \<le> x" "x \<le> chunk_end t"
    "x = chunk_end t \<or> uint (cr_alignment t) dvd x"
    "e = None \<Longrightarrow> savedError t = None \<and> x \<le> readOffset t + res"
proof -
  have same: "t = t\<lparr>readOffset := readOffset t, savedError := savedError t\<rparr>" by simp
  consider (saved) "savedError t \<noteq> None" | (fail) "savedError t = None" "res < 0"
    | (eof) "savedError t = None" "res = 0" | (ok) "savedError t = None" "0 < res" by linarith
  then show thesis
  proof cases
    case saved
    then have "t' = t" using assms(1) by (simp add: runner_after_def)
    then show thesis using that [where x = "readOffset t" and e = "savedError t"] saved assms same by simp
  next
    case fail
    then obtain e where "t' = t\<lparr>savedError := Some e\<rparr>" using assms(1) by (auto simp: runner_after_def)
    then show thesis using that [where x = "readOffset t" and e = "Some e"] assms by simp
  next
    case eof
    then obtain e where e: "advance_read 0 (t\<lparr>savedError := Some e\<rparr>) = Inr t'"
      using assms(1) by (auto simp: runner_after_def)
    obtain x where x: "advance_read 0 (t\<lparr>savedError := Some e\<rparr>) = Inr (t\<lparr>savedError := Some e, readOffset := x\<rparr>)"
        "cr_offset t \<le> x" "x \<le> readOffset t" "x = chunk_end t \<or> uint (cr_alignment t) dvd x"
      by (rule advance_read_ok [of src "t\<lparr>savedError := Some e\<rparr>" 0]) (use assms in \<open>simp_all add: chunk_end_def\<close>)
    then have "t' = t\<lparr>readOffset := x, savedError := Some e\<rparr>" using e by simp
    then show thesis using that [where x = x and e = "Some e"] x assms(4) by simp
  next
    case ok
    then have e: "advance_read res t = Inr t'" using assms(1) by (simp add: runner_after_def)
    obtain x where x: "advance_read res t = Inr (t\<lparr>readOffset := x\<rparr>)"
        "cr_offset t \<le> x" "x \<le> readOffset t + res" "x = chunk_end t \<or> uint (cr_alignment t) dvd x"
      by (rule advance_read_ok [of src t res]) (use assms ok in \<open>simp_all add: chunk_end_def\<close>)
    then have "t' = t\<lparr>readOffset := x, savedError := None\<rparr>" using e ok(1) by simp
    then show thesis using that [where x = x and e = None] x assms(6) ok(1) by simp
  qed
qed

lemma runner_after_write:
  assumes "runner_after Write res t t'" "cr_offset t \<le> writeOffset t" "writeOffset t \<le> chunk_end t"
    and "writeOffset t + res \<le> chunk_end t"
  obtains y e where "t' = t\<lparr>writeOffset := y, savedError := e\<rparr>" "cr_offset t \<le> y" "y \<le> chunk_end t"
    "e = None \<Longrightarrow> savedError t = None \<and> (y = writeOffset t \<or> y = writeOffset t + res)"
proof (cases "savedError t = None \<and> 0 \<le> res")
  case True
  then have "t' = t\<lparr>writeOffset := writeOffset t + res, savedError := None\<rparr>"
    using assms(1) by (simp add: runner_after_def)
  then show thesis using that [where y = "writeOffset t + res" and e = None] assms True by simp
next
  case False
  then consider "t' = t" | e where "t' = t\<lparr>savedError := Some e\<rparr>"
    using assms(1) by (auto simp: runner_after_def split: if_splits)
  then show thesis
  proof cases
    case 1
    then show thesis using that [where y = "writeOffset t" and e = "savedError t"] assms by simp
  next
    case (2 e)
    then show thesis using that [where y = "writeOffset t" and e = "Some e"] assms by simp
  qed
qed

lemma xinv_complete:
  assumes "xinv src r sfd dfd t0 s" "r < 2 ^ 62" "completions s = cs @ (ud, res) # cs'"
    and "onCompletionEvent cfg os r (event_type ud) res (xq s) (xw s) = Inr (v, q, w)"
    and "\<not> DEBUG_FORCE_PARTIAL_READS cfg"
  shows "xinv src r sfd dfd t0 (s\<lparr>xq := q, xw := w, completions := cs @ cs', verdict := v\<rparr>)"
proof -
  obtain t where t: "runners (xq s) r = Some t" "same_chunk t0 t" "chunk_ok src t" "xshape r sfd dfd t s"
      "xbounds r t (completions s)" "savedError t = None \<longrightarrow> xdata src r t s" "xverdict t s"
    using assms(1) by (rule xinvE)
  let ?t1 = "t\<lparr>jobsRunning := jobsRunning t - 1\<rparr>"
  let ?s = "s\<lparr>xq := q, xw := w, completions := cs @ cs', verdict := v\<rparr>"
  obtain t' where t': "runners q r = Some t'" "v = runner_verdict t'" "runner_after (event_type ud) res ?t1 t'"
    using onCompletionEvent_runner [OF assms(4) t(1) assms(5)] by blast
  have here: "(ud, res) \<in> set (completions s)" using assms(3) by simp
  have jobs: "jobsRunning ?t1 = int (length (inflight s) + length (cs @ cs'))"
    and dist: "distinct (map fst (cs @ cs'))" "ud \<notin> fst ` set (cs @ cs')"
    and sub: "fst ` set (cs @ cs') \<subseteq> {event_ptr r Read, event_ptr r Write}"
    and infl: "inflight s = [] \<or> inflight s = [wr_req r dfd t] \<and> event_ptr r Write \<notin> fst ` set (completions s)"
    using t(4) assms(3) by (auto simp: xshape_def)
  have verd: "xverdict t'' ?s" if "v = runner_verdict t''" "jobsRunning t'' = jobsRunning ?t1" for t''
  proof -
    have "inflight s = [] \<and> cs @ cs' = []" if "jobsRunning ?t1 = 0"
    proof -
      have "length (inflight s) + length (cs @ cs') = 0" using jobs that by linarith
      then show ?thesis by simp
    qed
    then show ?thesis
      using that by (auto simp: xverdict_def runner_verdict_def chunk_end_def split: option.splits if_splits)
  qed
  note bb = t(5) [unfolded xbounds_def]
  consider (rd) "ud = event_ptr r Read" "event_type ud = Read" | (wr) "ud = event_ptr r Write" "event_type ud = Write"
    using t(4) here event_ptr_inj(2) [OF assms(2)] by (auto simp: xshape_def)
  then show ?thesis
  proof cases
    case rd
    obtain x e where x: "t' = ?t1\<lparr>readOffset := x, savedError := e\<rparr>" "cr_offset t \<le> x" "x \<le> chunk_end t"
        "x = chunk_end t \<or> uint (cr_alignment t) dvd x" "e = None \<Longrightarrow> savedError t = None \<and> x \<le> readOffset t + res"
      by (rule runner_after_read [of res ?t1 t' src]) (use t' rd t(3) bb here in auto)
    have gone: "(event_ptr r Read, k) \<notin> set (cs @ cs')" for k using dist(2) rd(1) by force
    have old: "(event_ptr r Write, k) \<in> set (cs @ cs') \<Longrightarrow> (event_ptr r Write, k) \<in> set (completions s)" for k
      using assms(3) by auto
    have sh: "xshape r sfd dfd t' ?s"
      using jobs dist sub infl assms(3) unfolding x(1) by (auto simp: xshape_def)
    have bd: "xbounds r t' (completions ?s)"
      using bb x(2-4) gone old unfolding x(1) by (simp add: xbounds_def)
    have dat: "savedError t' = None \<longrightarrow> xdata src r t' ?s"
    proof
      assume "savedError t' = None"
      then have e: "e = None" using x(1) by simp
      then have d: "xdata src r t s" using x(5) t(6) by simp
      have "buf_holds src t (xmem s) x"
        by (rule buf_holds_mono [of src t _ "readOffset t + res"]) (use d here rd(1) x(5) e in \<open>auto simp: xdata_def\<close>)
      then show "xdata src r t' ?s" using d gone old unfolding x(1) by (simp add: xdata_def)
    qed
    show ?thesis
      by (rule xinvI [of _ _ t']) (use t' t(2,3) x(1) sh bd dat verd [of t'] in simp_all)
  next
    case wr
    obtain y e where y: "t' = ?t1\<lparr>writeOffset := y, savedError := e\<rparr>" "cr_offset t \<le> y" "y \<le> chunk_end t"
        "e = None \<Longrightarrow> savedError t = None \<and> (y = writeOffset t \<or> y = writeOffset t + res)"
      by (rule runner_after_write [of res ?t1 t']) (use t' wr bb here in auto)
    have gone: "(event_ptr r Write, k) \<notin> set (cs @ cs')" for k using dist(2) wr(1) by force
    have old: "(event_ptr r Read, k) \<in> set (cs @ cs') \<Longrightarrow> (event_ptr r Read, k) \<in> set (completions s)" for k
      using assms(3) by auto
    have idle: "inflight s = []" using infl here wr(1) by force
    have sh: "xshape r sfd dfd t' ?s" using jobs dist sub idle unfolding y(1) by (simp add: xshape_def)
    have bd: "xbounds r t' (completions ?s)" using bb y(2,3) gone old unfolding y(1) by (simp add: xbounds_def)
    have dat: "savedError t' = None \<longrightarrow> xdata src r t' ?s"
    proof
      assume "savedError t' = None"
      then have e: "e = None" using y(1) by simp
      then have d: "xdata src r t s" using y(4) t(6) by simp
      then have "dst_holds src t (xdst s) y" using here wr(1) y(4) e by (auto simp: xdata_def)
      then show "xdata src r t' ?s" using d gone old idle unfolding y(1) by (simp add: xdata_def)
    qed
    show ?thesis
      by (rule xinvI [of _ _ t']) (use t' t(2,3) y(1) sh bd dat verd [of t'] in simp_all)
  qed
qed

lemma xinv_own:
  assumes "runner_step cfg os r sfd dfd src n s s'" "xinv src r sfd dfd t0 s" "r < 2 ^ 62"
    and "\<not> DEBUG_FORCE_PARTIAL_READS cfg" "\<not> DEBUG_FORCE_PARTIAL_WRITES cfg"
  shows "xinv src r sfd dfd t0 s'"
  using assms(1)
proof (cases rule: runner_step.cases)
  case submit
  then show ?thesis using xinv_submit [OF assms(2)] assms(4,5) by blast
next
  case kernel_read
  then show ?thesis using xinv_read [OF assms(2,3)] by blast
next
  case kernel_write
  then show ?thesis using xinv_write [OF assms(2,3)] by blast
next
  case kernel_fail
  then show ?thesis using xinv_fail [OF assms(2,3)] by blast
next
  case complete
  then show ?thesis using xinv_complete [OF assms(2,3)] assms(4) by blast
qed

text \<open>What a runner relies on: the bytes of its own areas stay what they are.\<close>

lemma buf_holds_cong:
  assumes "\<forall>a \<in> buffer_area t. mem' a = mem a" "hi \<le> chunk_end t"
  shows "buf_holds src t mem' hi \<longleftrightarrow> buf_holds src t mem hi"
proof -
  have "bufferAligned t + word_of_int (i - cr_offset t) \<in> buffer_area t" if "cr_offset t \<le> i" "i < hi" for i
    unfolding buffer_area_def by (rule imageI) (use that assms(2) in \<open>simp add: chunk_end_def\<close>)
  then show ?thesis using assms(1) by (simp add: buf_holds_def)
qed

lemma dst_holds_cong:
  assumes "\<forall>i \<in> chunk_area t. dst' i = dst i" "hi \<le> chunk_end t" "0 \<le> cr_offset t"
  shows "dst_holds src t dst' hi \<longleftrightarrow> dst_holds src t dst hi"
proof -
  have "nat i \<in> chunk_area t" if "cr_offset t \<le> i" "i < hi" for i
    using that assms(2,3) by (simp add: chunk_area_def chunk_end_def)
  then show ?thesis using assms(1) by (simp add: dst_holds_def)
qed

lemma xinv_others:
  assumes "xinv src r sfd dfd t0 s" "runners (xq s) r = Some t" "runners q r = Some t"
    and "\<forall>a \<in> buffer_area t. mem a = xmem s a" "\<forall>i \<in> chunk_area t. dst i = xdst s i"
  shows "xinv src r sfd dfd t0 (s\<lparr>xq := q, xw := w, xmem := mem, xdst := dst\<rparr>)"
proof -
  let ?s = "s\<lparr>xq := q, xw := w, xmem := mem, xdst := dst\<rparr>"
  have t: "same_chunk t0 t" "chunk_ok src t" "xshape r sfd dfd t s" "xbounds r t (completions s)"
      "savedError t = None \<longrightarrow> xdata src r t s" "xverdict t s"
    using xinvE [OF assms(1)] assms(2) by (metis option.inject)+
  have "0 \<le> cr_offset t" using t(2) by (simp add: chunk_ok_def)
  then have "xdata src r t ?s" if "xdata src r t s"
    using that t(4) buf_holds_cong [OF assms(4)] dst_holds_cong [OF assms(5)] by (auto simp: xdata_def xbounds_def)
  then show ?thesis
    using t assms(3) by (intro xinvI [of _ _ t]) (simp_all add: xshape_def xverdict_def)
qed

lemma xinv_step:
  assumes "xfer_step cfg os r sfd dfd src n s s'" "xinv src r sfd dfd t0 s" "r < 2 ^ 62"
    and "\<not> DEBUG_FORCE_PARTIAL_READS cfg" "\<not> DEBUG_FORCE_PARTIAL_WRITES cfg"
  shows "xinv src r sfd dfd t0 s'"
  using assms(1)
proof (cases rule: xfer_step.cases)
  case own
  then show ?thesis using xinv_own assms by blast
next
  case others
  then show ?thesis using xinv_others [OF assms(2)] by blast
qed

text \<open>What a runner guarantees: its steps change no byte outside of its areas.\<close>

lemma same_areas: "same_chunk t0 t \<Longrightarrow> buffer_area t = buffer_area t0 \<and> chunk_area t = chunk_area t0"
  by (simp add: same_chunk_def buffer_area_def chunk_area_def)

lemma read_in_area:
  assumes "xinv src r sfd dfd t0 s" "inflight s = e # rest" "is_op IORING_OP_READ e"
    and "k \<le> unat (sqe_len e)" "unat (sqe_off e) + k \<le> length src" "a \<notin> buffer_area t0"
  shows "write_mem (sqe_addr e) (take k (drop (unat (sqe_off e)) src)) mem a = mem a"
proof -
  obtain t where t: "same_chunk t0 t" "chunk_ok src t" "xshape r sfd dfd t s" "xbounds r t (completions s)"
    using assms(1) by (rule xinvE)
  have e: "e = rd_req r sfd t" "readOffset t < chunk_end t"
    using t(3) assms(2,3) wr_req_fields(3) by (auto simp: xshape_def)
  have b: "cr_offset t \<le> readOffset t" "uint (cr_alignment t) dvd readOffset t" using t(4) e(2) by (auto simp: xbounds_def)
  have off: "unat (sqe_off e) = nat (readOffset t)" using chunk_offsets(1) [OF t(2) b(1)] e rd_req_fields(6) by simp
  have k: "readOffset t + int k \<le> chunk_end t"
    using read_result(1) [OF t(2) b(1) e(2) b(2), of k] assms(4,5) e(1) off rd_req_fields(7) by simp
  have "\<not> unat (a - sqe_addr e) < k"
  proof
    assume lt: "unat (a - sqe_addr e) < k"
    define d where "d = int (unat (a - sqe_addr e))"
    have d: "0 \<le> d" "d < int k" "word_of_int d = a - sqe_addr e" using lt unfolding d_def by (simp_all only: of_nat_0_le_iff of_nat_less_iff) simp
    have "a = sqe_addr e + word_of_int d" unfolding d(3) by simp
    also have "\<dots> = bufferAligned t + word_of_int (readOffset t - cr_offset t + d)"
      unfolding e(1) rd_req_fields(5) by simp
    finally have "a \<in> buffer_area t"
      unfolding buffer_area_def by (rule image_eqI) (use d(1,2) b(1) k in \<open>simp add: chunk_end_def\<close>)
    then show False using assms(6) same_areas [OF t(1)] by simp
  qed
  then show ?thesis using assms(5) by (simp add: write_mem_def)
qed

lemma write_in_area:
  assumes "xinv src r sfd dfd t0 s" "inflight s = e # rest" "is_op IORING_OP_WRITE e"
    and "k \<le> unat (sqe_len e)" "i \<notin> chunk_area t0"
  shows "write_file (unat (sqe_off e)) (read_mem addr k (xmem s)) dst i = dst i"
proof -
  obtain t where t: "same_chunk t0 t" "chunk_ok src t" "xshape r sfd dfd t s" "xbounds r t (completions s)"
    using assms(1) by (rule xinvE)
  have e: "e = wr_req r dfd t" using t(3) assms(2,3) rd_req_fields(3) by (auto simp: xshape_def)
  have b: "cr_offset t \<le> writeOffset t" "writeOffset t \<le> chunk_end t" using t(4) by (auto simp: xbounds_def)
  have off: "unat (sqe_off e) = nat (writeOffset t)" using chunk_offsets(1) [OF t(2) b] e wr_req_fields(6) by simp
  have "int k \<le> uint (sqe_len e)" unfolding uint_nat using assms(4) by (simp only: of_nat_le_iff)
  then have k: "writeOffset t + int k \<le> chunk_end t"
    using chunk_offsets(2) [OF t(2) b] e wr_req_fields(7) [of r dfd t] by simp
  have "i \<notin> chunk_area t" using assms(5) same_areas [OF t(1)] by simp
  then have "\<not> (nat (writeOffset t) \<le> i \<and> i < nat (writeOffset t) + k)"
    using t(2) b k unfolding chunk_area_def chunk_end_def chunk_ok_def by auto
  then show ?thesis unfolding off by (auto simp: write_file_def read_mem_def)
qed

lemma runner_step_guarantee:
  assumes "runner_step cfg os r sfd dfd src n s s'" "xinv src r sfd dfd t0 s"
  shows "(\<forall>a. a \<notin> buffer_area t0 \<longrightarrow> xmem s' a = xmem s a) \<and> (\<forall>i. i \<notin> chunk_area t0 \<longrightarrow> xdst s' i = xdst s i)"
  using assms(1)
proof (cases rule: runner_step.cases)
  case (kernel_read e rest k)
  then show ?thesis using read_in_area [OF assms(2) kernel_read(2,3,5,6)] by (simp add: post_def split: prod.splits)
next
  case (kernel_write e rest k)
  then show ?thesis using write_in_area [OF assms(2) kernel_write(2,3,5)] by (simp add: post_def split: prod.splits)
qed (auto simp: post_def split: prod.splits)

lemma xinv_finished:
  assumes "xinv src r sfd dfd t0 s" "verdict s = FinishedTag" "i \<in> chunk_area t0"
  shows "xdst s i = src ! i"
proof -
  obtain t where t: "same_chunk t0 t" "savedError t = None \<longrightarrow> xdata src r t s" "xverdict t s"
    using assms(1) by (rule xinvE)
  have "dst_holds src t (xdst s) (chunk_end t)" using t(2,3) assms(2) by (simp add: xverdict_def xdata_def)
  moreover have "i \<in> chunk_area t" using assms(3) same_areas [OF t(1)] by simp
  ultimately have "xdst s (nat (int i)) = src ! nat (int i)"
    unfolding dst_holds_def chunk_area_def chunk_end_def by blast
  then show ?thesis by simp
qed

definition xfer_start :: "CopyRunner \<Rightarrow> nat \<Rightarrow> ('b, 'w) xfer \<Rightarrow> bool" where
  "xfer_start t r s \<longleftrightarrow>
     runners (xq s) r = Some t \<and> savedError t = None \<and> readOffset t = cr_offset t \<and> writeOffset t = cr_offset t \<and>
     jobsRunning t = 0 \<and> inflight s = [] \<and> completions s = [] \<and> verdict s = RescheduleTag"

lemma xinv_start:
  assumes "xfer_start t r s" "chunk_ok src t"
  shows "xinv src r sfd dfd t s"
  using assms
  by (intro xinvI [of _ _ t])
    (auto simp: xfer_start_def same_chunk_def xshape_def xbounds_def xdata_def xverdict_def buf_holds_def dst_holds_def
      chunk_ok_def chunk_end_def)

lemma xinv_reach:
  assumes "xfer_reach cfg os r sfd dfd src n s0 s" "xfer_start t r s0" "chunk_ok src t" "r < 2 ^ 62"
    and "\<not> DEBUG_FORCE_PARTIAL_READS cfg" "\<not> DEBUG_FORCE_PARTIAL_WRITES cfg"
  shows "xinv src r sfd dfd t s"
  using assms(1)
proof induction
  case start
  show ?case by (rule xinv_start [OF assms(2,3)])
next
  case (step s s')
  show ?case by (rule xinv_step [OF step.hyps(2) step.IH assms(4-6)])
qed

text \<open>
  C2. A runner copies its chunk. Whatever the kernel does with its requests (short reads, short
  writes, failures, cancelled writes), in whatever order the completions arrive and whatever other
  runners do in between outside of the memory and the chunk of this one: when the runner has reported
  \<open>FinishedTag\<close>, every byte of its chunk in the destination file is the byte of the source file; and no
  step of it changes a byte of the destination outside its chunk or a byte of memory outside its buffer.
  The source file is assumed not to change during the copy, and the
  chunk to start at a multiple of the alignment and to end at one or at the end of the file.
\<close>

theorem runner_copies_chunk:
  assumes "xfer_reach cfg os r sfd dfd src n s0 s" "xfer_start t r s0" "chunk_ok src t" "r < 2 ^ 62"
    and "\<not> DEBUG_FORCE_PARTIAL_READS cfg" "\<not> DEBUG_FORCE_PARTIAL_WRITES cfg"
  shows "(verdict s = FinishedTag \<longrightarrow> (\<forall>i \<in> chunk_area t. xdst s i = src ! i)) \<and>
    (\<forall>s'. runner_step cfg os r sfd dfd src n s s' \<longrightarrow>
       (\<forall>i. i \<notin> chunk_area t \<longrightarrow> xdst s' i = xdst s i) \<and> (\<forall>a. a \<notin> buffer_area t \<longrightarrow> xmem s' a = xmem s a))"
proof -
  have inv: "xinv src r sfd dfd t s" by (rule xinv_reach [OF assms])
  then show ?thesis using xinv_finished [OF inv] runner_step_guarantee [OF _ inv] by blast
qed

text \<open>A chunk of four bytes, read and written in full.\<close>

definition four_runner :: CopyRunner where
  "four_runner = example_runner\<lparr>cr_size := 4, cr_alignment := 4\<rparr>"

definition four_start :: "(char, unit) xfer" where
  "four_start = \<lparr>xq = example_copy\<lparr>runners := [3 \<mapsto> four_runner]\<rparr>, xw = (), xmem = (\<lambda>_. CHR ''?''),
     xdst = (\<lambda>_. CHR ''-''), inflight = [], completions = [], verdict = RescheduleTag\<rparr>"

lemma four_chunk: "chunk_ok ''abcd'' four_runner" "xfer_start four_runner 3 four_start"
  "can_submit 1 3 5 6 four_runner (xq four_start)"
  using wrapping_sq_inv wrapping_sq_empty
  by (simp_all add: chunk_ok_def four_runner_def example_runner_def xfer_start_def four_start_def can_submit_def
      example_copy_def CopyQueue_init_def fd_ready_def empty_ring_def)

lemma four_requests: "requests four_runner 3 5 6 = [rd_req 3 5 four_runner, wr_req 3 6 four_runner]"
  "unat (sqe_len (rd_req 3 5 four_runner)) = 4" "unat (sqe_len (wr_req 3 6 four_runner)) = 4"
  "unat (sqe_off (rd_req 3 5 four_runner)) = 0" "sqe_fd (rd_req 3 5 four_runner) = 5" "sqe_fd (wr_req 3 6 four_runner) = 6"
proof -
  show "requests four_runner 3 5 6 = [rd_req 3 5 four_runner, wr_req 3 6 four_runner]"
    by (subst requests_eq [OF four_chunk(1)]) (simp_all add: four_runner_def example_runner_def chunk_end_def)
  show "unat (sqe_len (rd_req 3 5 four_runner)) = 4" "unat (sqe_len (wr_req 3 6 four_runner)) = 4"
    "unat (sqe_off (rd_req 3 5 four_runner)) = 0"
    unfolding rd_req_fields wr_req_fields by (simp_all add: four_runner_def example_runner_def chunk_end_def round_up_def)
  show "sqe_fd (rd_req 3 5 four_runner) = 5" "sqe_fd (wr_req 3 6 four_runner) = 6"
    by (simp_all add: rd_req_def wr_req_def read_sqe_def write_sqe_def io_uring_prep_read_def io_uring_prep_write_def
        io_uring_prep_rw_def Let_def)
qed

lemma four_run:
  "\<exists>s. xfer_reach (Config_default False) no_os 3 5 6 ''abcd'' 1 four_start s \<and> verdict s = FinishedTag"
proof -
  let ?cfg = "Config_default False" and ?t = four_runner and ?s0 = four_start
  let ?reach = "xfer_reach ?cfg no_os 3 5 6 ''abcd'' 1 ?s0"
  let ?R = "event_ptr 3 Read" and ?W = "event_ptr 3 Write"
  have cfg: "\<not> DEBUG_FORCE_PARTIAL_READS ?cfg" "\<not> DEBUG_FORCE_PARTIAL_WRITES ?cfg" "\<not> NDEBUG ?cfg"
    by (simp_all add: Config_default_def)
  obtain q1 where add: "addToBatch ?cfg no_os 3 (xq ?s0) (xw ?s0) = Inr (Success, q1, xw ?s0)"
    and que: "sq_queued (ring_sq (ring q1)) = sq_queued (ring_sq (ring (xq ?s0))) @ requests ?t 3 5 6"
    and q1: "q1 = (xq ?s0)\<lparr>ring := ring q1,
       runners := (runners (xq ?s0))(3 \<mapsto> ?t\<lparr>jobsRunning := int (length (requests ?t 3 5 6))\<rparr>),
       submissionsRunning := submissionsRunning (xq ?s0) + of_nat (length (requests ?t 3 5 6))\<rparr>"
    using addToBatch_requests [OF four_chunk(3) cfg(1,2), of no_os "xw ?s0"] by blast
  have run1: "runners q1 3 = Some (?t\<lparr>jobsRunning := 2\<rparr>)" by (subst q1) (simp add: four_requests(1))
  let ?rd = "rd_req 3 5 ?t" and ?wr = "wr_req 3 6 ?t"
  let ?s1 = "?s0\<lparr>xq := q1, xw := xw ?s0, verdict := ContinueTag,
      inflight := drop (length (sq_queued (ring_sq (ring (xq ?s0))))) (sq_queued (ring_sq (ring q1)))\<rparr>"
  have i1: "inflight ?s1 = [?rd, ?wr]" using que four_requests(1) by simp
  have "?reach ?s0" by (rule xfer_reach.start)
  then have r1: "?reach ?s1"
    by (rule xfer_reach.step) (rule xfer_step.own, rule submit [OF _ _ four_chunk(3) add], simp_all add: four_start_def)
  define s2 where "s2 = post ?rd (int 4) [?wr]
      (?s1\<lparr>xmem := write_mem (sqe_addr ?rd) (take 4 (drop (unat (sqe_off ?rd)) ''abcd'')) (xmem ?s1)\<rparr>)"
  have r2: "?reach s2" unfolding s2_def using r1
    by (rule xfer_reach.step) (rule xfer_step.own, rule kernel_read [OF i1], simp_all add: rd_req_fields(2) four_requests)
  have full: "uint (sqe_len ?rd) = 4" unfolding uint_nat four_requests by simp
  have i2: "inflight s2 = [?wr]" "completions s2 = [(?R, 4)]" "xq s2 = q1" "xw s2 = ()"
    using full by (simp_all add: s2_def post_def finish_request_def rd_req_fields(1) four_start_def)
  define s3 where "s3 = post ?wr (int 4) []
      (s2\<lparr>xdst := write_file (unat (sqe_off ?wr)) (read_mem (sqe_addr ?wr) 4 (xmem s2)) (xdst s2)\<rparr>)"
  have r3: "?reach s3" unfolding s3_def using r2
    by (rule xfer_reach.step) (rule xfer_step.own, rule kernel_write [OF i2(1)], simp_all add: wr_req_fields(2) four_requests)
  have i3: "completions s3 = [(?R, 4), (?W, 4)]" "xq s3 = q1" "xw s3 = ()"
    using i2 by (simp_all add: s3_def post_def finish_request_def wr_req_fields(1,4))
  let ?t4 = "?t\<lparr>jobsRunning := 1, readOffset := 4\<rparr>" and ?t5 = "?t\<lparr>jobsRunning := 0, readOffset := 4, writeOffset := 4\<rparr>"
  let ?q4 = "q1\<lparr>runners := (runners q1)(3 \<mapsto> ?t4)\<rparr>"
  let ?q5 = "q1\<lparr>runners := (runners q1)(3 \<mapsto> ?t5), totalBytesCopied := totalBytesCopied q1 + 4\<rparr>"
  have "advance_read 4 (?t\<lparr>jobsRunning := 1\<rparr>) = Inr ?t4"
    by (simp add: advance_read_def four_runner_def example_runner_def)
  then have c4: "onCompletionEvent ?cfg no_os 3 Read 4 q1 () = Inr (ContinueTag, ?q4, ())"
    using run1 cfg
    by (simp add: onCompletionEvent_def with_runner_def override_result_def on_read_def Let_def four_runner_def
        example_runner_def)
  have c5: "onCompletionEvent ?cfg no_os 3 Write 4 ?q4 () = Inr (FinishedTag, ?q5, ())"
    using cfg
    by (simp add: onCompletionEvent_def with_runner_def override_result_def on_write_def Let_def four_runner_def
        example_runner_def)
  have ev: "event_type ?R = Read" "event_type ?W = Write" "event_runner ?R = 3" "event_runner ?W = 3"
    by (rule event_ptr_inj; simp)+
  let ?s4 = "s3\<lparr>xq := ?q4, xw := (), completions := [] @ [(?W, 4)], verdict := ContinueTag\<rparr>"
  have r4: "?reach ?s4" using r3
    by (rule xfer_reach.step) (rule xfer_step.own, rule complete [where ud = ?R and res = 4], use i3 ev c4 in simp_all)
  have "?reach (?s4\<lparr>xq := ?q5, xw := (), completions := [] @ [], verdict := FinishedTag\<rparr>)" using r4
    by (rule xfer_reach.step) (rule xfer_step.own, rule complete [where ud = ?W and res = 4], use i3 ev c5 in simp_all)
  then show ?thesis by (intro exI conjI) (assumption, simp)
qed

theorem runner_copies_chunk_witness:
  "\<exists>s. xfer_reach (Config_default False) no_os 3 5 6 ''abcd'' 1 four_start s \<and> verdict s = FinishedTag \<and>
     map (xdst s) [0, 1, 2, 3] = ''abcd''"
proof -
  obtain s where s: "xfer_reach (Config_default False) no_os 3 5 6 ''abcd'' 1 four_start s" "verdict s = FinishedTag"
    using four_run by blast
  have "\<forall>i \<in> chunk_area four_runner. xdst s i = ''abcd'' ! i"
    using runner_copies_chunk [OF s(1) four_chunk(2,1)] s(2) by (simp add: Config_default_def)
  then have "\<forall>i. int i < 4 \<longrightarrow> xdst s i = ''abcd'' ! i" by (simp add: chunk_area_def four_runner_def example_runner_def)
  then have "xdst s 0 = CHR ''a''" "xdst s 1 = CHR ''b''" "xdst s 2 = CHR ''c''" "xdst s 3 = CHR ''d''" by simp_all
  then show ?thesis using s by auto
qed

end
