(* ===== verification/Copy_Jobs.thy ===== *)
theory Copy_Jobs
  imports Copy_Transfer
begin

text \<open>
  The part of \<open>src/CopyQueue.cpp\<close> that turns a file into runners: \<open>addFileCopy\<close>, \<open>addCopyJob\<close>
  and \<open>addCopyJobPart\<close>. A file is cut into chunks of at most one block of the heap, one runner per
  chunk; the runners share the two descriptors of the file and a counter of its chunks. The theorems
  show that the chunks partition the file, that every chunk meets the conditions under which a
  runner copies it (\<open>chunk_ok\<close> of \<open>Copy_Transfer\<close>), and that a block is large enough
  for the aligned and rounded reads.
\<close>

section \<open>Operations\<close>

definition getBlockSize :: "CopyQueue \<Rightarrow> u64" where
  "getBlockSize q = blockSize (copyBufferHeap q)"

definition getHeapAlignment :: "CopyQueue \<Rightarrow> u64" where
  "getHeapAlignment q = alignment (copyBufferHeap q)"

definition addCopyJobPart ::
  "bool \<Rightarrow> nat \<Rightarrow> nat \<Rightarrow> int \<Rightarrow> int \<Rightarrow> u64 \<Rightarrow> nat \<Rightarrow> CopyQueue \<Rightarrow> CopyQueue outcome" where
  "addCopyJobPart ndebug src dst offset sz align chunkCount q =
     debug_assert ndebug ''this->state == State::Running || this->state == State::Idle''
       (q_state q = Running \<or> q_state q = Idle)
    (let q = q\<lparr>totalBytesToCopy := totalBytesToCopy q + word_of_int sz,
               etaCalulator := onCopyAdded (word_of_int sz) (etaCalulator q)\<rparr>
     in case CopyRunner_new src dst offset sz align chunkCount q of
          (r, q) \<Rightarrow> Inr (q\<lparr>copiesPendingStart := copiesPendingStart q @ [r],
                          copiesPendingStartCount := copiesPendingStartCount q + 1\<rparr>))"

text \<open>The local variable \<open>chunkSize\<close> of \<open>addCopyJob\<close>.\<close>

definition chunk_size :: "u64 \<Rightarrow> CopyQueue \<Rightarrow> u64" where
  "chunk_size requiredAlignment q =
     (if requiredAlignment > getHeapAlignment q then
        (let bytesRemaining = getBlockSize q - (requiredAlignment - 1);
             alignmentBlocks = bytesRemaining div requiredAlignment
         in alignmentBlocks * requiredAlignment)
      else getBlockSize q)"

text \<open>
  The local variable \<open>chunkCount\<close>: the quotient is stored into an \<open>int32_t\<close>, and the increment of
  the largest one is undefined.
\<close>

definition chunk_count :: "u64 \<Rightarrow> u64 \<Rightarrow> int outcome" where
  "chunk_count sz chunkSize =
     (let chunkCount = signed_take_bit 31 (uint (sz div chunkSize))
      in if sz mod chunkSize \<noteq> 0
         then defined_if ''chunkCount++'' (chunkCount < INT_MAX) (Inr (chunkCount + 1))
         else Inr chunkCount)"

text \<open>The loop that adds the chunks from \<open>offset\<close> on. With chunks of no bytes it would not end.\<close>

lemma chunk_decreases:
  "offset \<noteq> sz \<Longrightarrow> chunkSize \<noteq> 0 \<Longrightarrow>
     unat (sz - (offset + min chunkSize (sz - offset))) < unat (sz - offset :: u64)"
proof -
  assume a: "offset \<noteq> sz" "chunkSize \<noteq> 0"
  let ?l = "sz - offset" and ?c = "min chunkSize (sz - offset)"
  have "unat (?l - ?c) = unat ?l - unat ?c" by (rule unat_sub) simp
  then have eq: "unat (sz - (offset + ?c)) = unat ?l - unat ?c" by (metis diff_diff_eq)
  have "?l \<noteq> 0" using a(1) by simp
  then have "0 < unat ?c" "0 < unat ?l" using a(2) by (simp_all add: min_def unat_gt_0)
  then show ?thesis unfolding eq by simp
qed

function add_chunks ::
  "bool \<Rightarrow> nat \<Rightarrow> nat \<Rightarrow> u64 \<Rightarrow> nat \<Rightarrow> u64 \<Rightarrow> u64 \<Rightarrow> u64 \<Rightarrow> int \<Rightarrow> CopyQueue \<Rightarrow> (int \<times> CopyQueue) outcome" where
  "add_chunks ndebug src dst align counter chunkSize sz offset i q =
     (if offset = sz then Inr (i, q)
      else if chunkSize = 0 then Inl (Diverges ''offset != st.stx_size'')
      else let count = min chunkSize (sz - offset)
           in case addCopyJobPart ndebug src dst (sint offset) (sint count) align counter q of
                Inl a \<Rightarrow> Inl a
              | Inr q \<Rightarrow> if i < INT_MAX
                         then add_chunks ndebug src dst align counter chunkSize sz (offset + count) (i + 1) q
                         else Inl (UndefinedBehaviour ''i++''))"
  by pat_completeness auto

termination
  by (relation "measure (\<lambda>(_, _, _, _, _, _, sz, offset, _, _). unat (sz - offset))")
    (auto simp only: in_measure split_conv wf_measure intro!: chunk_decreases)

declare add_chunks.simps [simp del]

definition new_counter :: "int \<Rightarrow> CopyQueue \<Rightarrow> nat \<times> CopyQueue" where
  "new_counter n q =
     (next_object q, q\<lparr>counters := (counters q)(next_object q \<mapsto> n), next_object := next_object q + 1\<rparr>)"

text \<open>
  \<open>lost\<close> says for each of the two descriptors whether its compare-and-exchange on the count of
  descriptors is lost to the submit thread.
\<close>

definition addCopyJob ::
  "bool \<Rightarrow> 'w os \<Rightarrow> bool \<times> bool \<Rightarrow> path \<Rightarrow> path \<Rightarrow> statx \<Rightarrow> CopyQueue \<Rightarrow> 'w \<Rightarrow> (CopyQueue \<times> 'w) outcome" where
  "addCopyJob ndebug os lost src dest st q w =
     and_then (QueueFileDescriptor_new os (fst lost) src (O_RDONLY OR O_DIRECT OR O_CLOEXEC) 0 q w) (\<lambda>(sfd, q, w).
     and_then (QueueFileDescriptor_new os (snd lost) dest (O_WRONLY OR O_CREAT OR O_TRUNC OR O_CLOEXEC) (stx_mode st) q w)
       (\<lambda>(dfd, q, w).
     if stx_size st = 0 then
       (case new_counter 1 q of (c, q) \<Rightarrow>
          and_then (addCopyJobPart ndebug sfd dfd 0 0 0 c q) (\<lambda>q. Inr (q, w)))
     else
       let requiredAlignment = ucast (stx_blksize st);
           chunkSize = chunk_size requiredAlignment q
       in release_assert ''chunkSize > 0'' (chunkSize > 0)
         (and_then (chunk_count (stx_size st) chunkSize) (\<lambda>chunkCount.
          case new_counter chunkCount q of (c, q) \<Rightarrow>
            and_then (add_chunks ndebug sfd dfd requiredAlignment c chunkSize (stx_size st) 0 0 q) (\<lambda>(i, q).
            debug_assert ndebug ''chunkCount == i'' (chunkCount = i) (Inr (q, w)))))))"

definition addFileCopy ::
  "bool \<Rightarrow> 'w os \<Rightarrow> bool \<times> bool \<Rightarrow> path \<Rightarrow> path \<Rightarrow> statx option \<Rightarrow> CopyQueue \<Rightarrow> 'w \<Rightarrow> (CopyQueue \<times> 'w) outcome" where
  "addFileCopy ndebug os lost from dest fromStatBuffer q w =
     (case fromStatBuffer of
        Some st \<Rightarrow> addCopyJob ndebug os lost from dest st q w
      | None \<Rightarrow>
          (case myStatx os AT_FDCWD from 0 STATX_BASIC_STATS \<lparr>stx_mode = 0, stx_size = 0, stx_blksize = 0\<rparr> w of
             (Inl e, _, w) \<Rightarrow> Inr (onError e q, w)
           | (Inr _, st, w) \<Rightarrow> addCopyJob ndebug os lost from dest st q w))"

section \<open>The chunks of a file\<close>

text \<open>
  The reference: the offsets and sizes of the chunks from \<open>off\<close> on of a file of \<open>n\<close> bytes.
\<close>

function chunks_from :: "nat \<Rightarrow> nat \<Rightarrow> nat \<Rightarrow> (nat \<times> nat) list" where
  "chunks_from cs n off =
     (if off < n \<and> 0 < cs then (off, min cs (n - off)) # chunks_from cs n (off + min cs (n - off)) else [])"
  by pat_completeness auto

termination
  by (relation "measure (\<lambda>(cs, n, off). n - off)") auto

declare chunks_from.simps [simp del]

lemma chunks_from_done [simp]: "chunks_from cs n n = []"
  by (simp add: chunks_from.simps)

lemma chunks_from_partition:
  "0 < cs \<Longrightarrow> off \<le> n \<Longrightarrow> concat (map (\<lambda>(o1, k). [o1..<o1 + k]) (chunks_from cs n off)) = [off..<n]"
proof (induction cs n off rule: chunks_from.induct)
  case (1 cs n off)
  show ?case
  proof (cases "off < n")
    case True
    let ?k = "min cs (n - off)"
    have "[off..<off + ?k] @ [off + ?k..<n] = [off..<n]"
      using True upt_add_eq_append [of off "off + ?k" "n - (off + ?k)"] by simp
    then show ?thesis using 1 True by (subst chunks_from.simps) simp
  qed (use 1 in simp)
qed

lemma chunks_from_mem:
  assumes "(o1, k) \<in> set (chunks_from cs n off)" "cs dvd off"
  shows "cs dvd o1 \<and> 0 < k \<and> k \<le> cs \<and> o1 + k \<le> n \<and> (k = cs \<or> o1 + k = n)"
  using assms
proof (induction cs n off rule: chunks_from.induct)
  case (1 cs n off)
  then have lt: "off < n" "0 < cs" by (auto simp: chunks_from.simps [of cs n off] split: if_splits)
  show ?case
  proof (cases "(o1, k) = (off, min cs (n - off))")
    case True
    then show ?thesis using lt "1.prems" by auto
  next
    case False
    then have mem: "(o1, k) \<in> set (chunks_from cs n (off + min cs (n - off)))"
      using "1.prems" lt by (subst (asm) chunks_from.simps) auto
    show ?thesis
    proof (cases "cs \<le> n - off")
      case True
      then show ?thesis using "1.IH" [OF _ mem] "1.prems" lt by simp
    next
      case False
      then show ?thesis using mem lt by (simp add: min_def)
    qed
  qed
qed

lemma chunks_from_length:
  "0 < cs \<Longrightarrow> off \<le> n \<Longrightarrow>
     length (chunks_from cs n off) = (n - off) div cs + (if (n - off) mod cs = 0 then 0 else 1)"
proof (induction cs n off rule: chunks_from.induct)
  case (1 cs n off)
  show ?case
  proof (cases "off < n")
    case True
    show ?thesis
    proof (cases "cs \<le> n - off")
      case le: True
      then have "n - off = cs + (n - (off + cs))" by simp
      then have "(n - off) div cs = 1 + (n - (off + cs)) div cs" "(n - off) mod cs = (n - (off + cs)) mod cs"
        using "1.prems" by (metis div_add_self1 add.commute less_not_refl2, metis mod_add_self1)
      then show ?thesis using 1 True le by (subst chunks_from.simps) (simp add: min_def)
    next
      case False
      then show ?thesis using 1 True by (subst chunks_from.simps) (simp add: min_def)
    qed
  qed (use 1 in simp)
qed

section \<open>What adding a job does\<close>

definition fresh_runner :: "nat \<Rightarrow> nat \<Rightarrow> u64 \<Rightarrow> nat \<Rightarrow> int \<times> int \<Rightarrow> CopyRunner" where
  "fresh_runner src dst align counter chunk =
     \<lparr>savedError = None, sourceFd = src, destFd = dst, cr_offset = fst chunk, cr_size = snd chunk,
      cr_alignment = align, chunksRemaining = counter, buffer = 0, bufferAligned = 0,
      readOffset = fst chunk, writeOffset = fst chunk, jobsRunning = 0, readOverride = INT_MAX, writeOverride = INT_MAX\<rparr>"

definition part_added :: "nat \<Rightarrow> nat \<Rightarrow> u64 \<Rightarrow> nat \<Rightarrow> int \<times> int \<Rightarrow> CopyQueue \<Rightarrow> CopyQueue" where
  "part_added src dst align counter chunk q =
     q\<lparr>totalBytesToCopy := totalBytesToCopy q + word_of_int (snd chunk),
       etaCalulator := onCopyAdded (word_of_int (snd chunk)) (etaCalulator q),
       next_object := next_object q + 1,
       runners := (runners q)(next_object q \<mapsto> fresh_runner src dst align counter chunk),
       keepAliveCount := keepAliveCount q + 1,
       copiesPendingStart := copiesPendingStart q @ [next_object q],
       copiesPendingStartCount := copiesPendingStartCount q + 1\<rparr>"

definition can_add :: "CopyQueue \<Rightarrow> bool" where
  "can_add q \<longleftrightarrow> q_state q = Running \<or> q_state q = Idle"

lemma addCopyJobPart_eq:
  "can_add q \<Longrightarrow> addCopyJobPart nd src dst o1 k align counter q = Inr (part_added src dst align counter (o1, k) q)"
  by (simp add: addCopyJobPart_def can_add_def CopyRunner_new_def part_added_def fresh_runner_def Let_def)

lemma part_added_frame [simp]:
  "q_state (part_added src dst align counter chunk q) = q_state q"
  "fds (part_added src dst align counter chunk q) = fds q"
  "counters (part_added src dst align counter chunk q) = counters q"
  "next_object (part_added src dst align counter chunk q) = next_object q + 1"
  "can_add (part_added src dst align counter chunk q) = can_add q"
  by (simp_all add: part_added_def can_add_def)

definition parts_added :: "nat \<Rightarrow> nat \<Rightarrow> u64 \<Rightarrow> nat \<Rightarrow> (nat \<times> nat) list \<Rightarrow> CopyQueue \<Rightarrow> CopyQueue" where
  "parts_added src dst align counter =
     fold (\<lambda>(o1, k). part_added src dst align counter (int o1, int k))"

lemma sint_small: "unat (x :: u64) < 2 ^ 63 \<Longrightarrow> sint x = int (unat x)"
proof -
  assume "unat x < 2 ^ 63"
  then have "uint x < 2 ^ 63" by (simp only: unat_eq_nat_uint nat_less_numeral_power_cancel_iff)
  moreover have "- (2 ^ 63) \<le> uint x" by (rule order_trans [of _ 0]) simp_all
  ultimately show ?thesis by (simp add: sint_uint signed_take_bit_int_eq_self)
qed

text \<open>The loop adds the reference chunks, one after the other.\<close>

lemma add_chunks_eq:
  assumes "can_add q" "0 < cs" "off \<le> sz" "unat sz < 2 ^ 63"
    and "i + int (length (chunks_from (unat cs) (unat sz) (unat off))) \<le> INT_MAX"
  shows "add_chunks nd src dst align counter cs sz off i q =
    Inr (i + int (length (chunks_from (unat cs) (unat sz) (unat off))),
      parts_added src dst align counter (chunks_from (unat cs) (unat sz) (unat off)) q)"
  using assms
proof (induction nd src dst align counter cs sz off i q rule: add_chunks.induct)
  case (1 nd src dst align counter cs sz off i q)
  show ?case
  proof (cases "off = sz")
    case True
    then show ?thesis by (subst add_chunks.simps) (simp add: parts_added_def)
  next
    case False
    let ?k = "min cs (sz - off)"
    have sub: "unat (sz - off) = unat sz - unat off" using "1.prems"(3) by (rule unat_sub)
    have k: "unat ?k = min (unat cs) (unat sz - unat off)"
      unfolding sub [symmetric] by (simp add: min_def word_le_nat_alt)
    have "off < sz" using False "1.prems"(3) by simp
    then have lt: "unat off < unat sz" "0 < unat cs" "cs \<noteq> 0"
      using "1.prems"(2) by (auto simp: word_less_nat_alt)
    have sum: "unat (off + ?k) = unat off + unat ?k"
      using k lt "1.prems"(4) by (simp add: unat_word_ariths)
    have chunks: "chunks_from (unat cs) (unat sz) (unat off) =
        (unat off, unat ?k) # chunks_from (unat cs) (unat sz) (unat (off + ?k))"
      using lt k sum by (subst chunks_from.simps) simp
    have si: "sint off = int (unat off)" "sint ?k = int (unat ?k)"
      using lt k "1.prems"(4) by (simp_all add: sint_small)
    let ?q = "part_added src dst align counter (int (unat off), int (unat ?k)) q"
    have part: "addCopyJobPart nd src dst (sint off) (sint ?k) align counter q = Inr ?q"
      unfolding si by (rule addCopyJobPart_eq) (rule "1.prems"(1))
    have i: "i < INT_MAX" using "1.prems"(5) unfolding chunks by simp
    have "add_chunks nd src dst align counter cs sz (off + ?k) (i + 1) ?q =
      Inr (i + 1 + int (length (chunks_from (unat cs) (unat sz) (unat (off + ?k)))),
        parts_added src dst align counter (chunks_from (unat cs) (unat sz) (unat (off + ?k))) ?q)"
    proof (rule "1.IH" [OF False lt(3) refl part i])
      show "off + ?k \<le> sz" using k sum lt by (simp add: word_le_nat_alt)
    qed (use "1.prems" chunks in simp_all)
    then show ?thesis
      using False lt(3) i part
      by (subst add_chunks.simps) (simp add: Let_def chunks parts_added_def)
  qed
qed

lemma part_added_more [simp]:
  "copyBufferHeap (part_added src dst align counter chunk q) = copyBufferHeap q"
  "copiesPendingStart (part_added src dst align counter chunk q) = copiesPendingStart q @ [next_object q]"
  "copiesPendingStartCount (part_added src dst align counter chunk q) = copiesPendingStartCount q + 1"
  "keepAliveCount (part_added src dst align counter chunk q) = keepAliveCount q + 1"
  "totalBytesToCopy (part_added src dst align counter chunk q) = totalBytesToCopy q + word_of_int (snd chunk)"
  "runners (part_added src dst align counter chunk q) =
     (runners q)(next_object q \<mapsto> fresh_runner src dst align counter chunk)"
  by (simp_all add: part_added_def)

lemma parts_added_Nil [simp]: "parts_added src dst align counter [] q = q"
  by (simp add: parts_added_def)

lemma parts_added_Cons [simp]:
  "parts_added src dst align counter (x # chunks) q =
     parts_added src dst align counter chunks (part_added src dst align counter (map_prod int int x) q)"
  by (cases x) (simp add: parts_added_def)

lemma parts_added_fields:
  fixes q :: CopyQueue
  defines "n \<equiv> next_object q"
  shows "next_object (parts_added src dst align counter chunks q) = n + length chunks"
    "copiesPendingStart (parts_added src dst align counter chunks q) = copiesPendingStart q @ [n..<n + length chunks]"
    "copiesPendingStartCount (parts_added src dst align counter chunks q) =
       copiesPendingStartCount q + of_nat (length chunks)"
    "keepAliveCount (parts_added src dst align counter chunks q) = keepAliveCount q + of_nat (length chunks)"
    "totalBytesToCopy (parts_added src dst align counter chunks q) =
       totalBytesToCopy q + of_nat (sum_list (map snd chunks))"
    "fds (parts_added src dst align counter chunks q) = fds q"
    "counters (parts_added src dst align counter chunks q) = counters q"
  unfolding n_def
  by (induction chunks arbitrary: q) (simp_all add: upt_conv_Cons del: upt_Suc)

lemma parts_added_runners:
  "runners (parts_added src dst align counter chunks q) r =
     (if next_object q \<le> r \<and> r < next_object q + length chunks
      then Some (fresh_runner src dst align counter (map_prod int int (chunks ! (r - next_object q))))
      else runners q r)"
proof (induction chunks arbitrary: q)
  case (Cons x chunks)
  show ?case by (auto simp: Cons.IH nth_Cons')
qed auto

lemma QueueFileDescriptor_new_eq:
  obtains fd used w' where
    "QueueFileDescriptor_new os lost path oflag mode q w =
       Inr (next_object q,
         q\<lparr>fds := (fds q)(next_object q \<mapsto> \<lparr>qfd_path = path, qfd_oflag = oflag, qfd_mode = mode, qfd_fd = fd\<rparr>),
           next_object := next_object q + 1, fileDescriptorsUsed := used\<rparr>, w')"
    "fd = NEVER_OPENED_VAL \<or> 0 \<le> fd"
proof -
  let ?obj = "\<lparr>qfd_path = path, qfd_oflag = oflag, qfd_mode = mode, qfd_fd = NEVER_OPENED_VAL\<rparr>"
  let ?q = "q\<lparr>next_object := next_object q + 1, fds := (fds q)(next_object q \<mapsto> ?obj)\<rparr>"
  obtain res w' where m: "myOpen os path oflag mode w = (res, w')" by fastforce
  show thesis
  proof (cases "fst (reserveFileDescriptor Low lost ?q)")
    case True
    then have r: "reserveFileDescriptor Low lost ?q = (True, ?q\<lparr>fileDescriptorsUsed := fileDescriptorsUsed q + 1\<rparr>)"
      by (auto simp: reserveFileDescriptor_def Let_def split: if_splits)
    show thesis
    proof (cases res)
      case (Inl e)
      then show thesis using that [where fd = NEVER_OPENED_VAL and used = "fileDescriptorsUsed q + 1" and w' = w'] m r
        by (simp add: QueueFileDescriptor_new_def doOpen_def Let_def)
    next
      case (Inr fd)
      then show thesis using that [where fd = fd and used = "fileDescriptorsUsed q + 1" and w' = w'] m r myOpen_nonneg [of os path oflag mode w fd w']
        by (simp add: QueueFileDescriptor_new_def doOpen_def Let_def)
    qed
  next
    case False
    then have "reserveFileDescriptor Low lost ?q = (False, ?q)"
      by (auto simp: reserveFileDescriptor_def Let_def split: if_splits)
    then show thesis using that [where fd = NEVER_OPENED_VAL and used = "fileDescriptorsUsed q" and w' = w]
      by (simp add: QueueFileDescriptor_new_def Let_def)
  qed
qed

text \<open>The chunks of a file, with the one empty chunk of an empty file.\<close>

definition file_chunks :: "u64 \<Rightarrow> u64 \<Rightarrow> (nat \<times> nat) list" where
  "file_chunks cs sz = (if sz = 0 then [(0, 0)] else chunks_from (unat cs) (unat sz) 0)"

definition addable :: "statx \<Rightarrow> CopyQueue \<Rightarrow> bool" where
  "addable st q \<longleftrightarrow> can_add q \<and>
     (stx_size st \<noteq> 0 \<longrightarrow> 0 < chunk_size (ucast (stx_blksize st)) q \<and> unat (stx_size st) < 2 ^ 63 \<and>
        unat (stx_size st) div unat (chunk_size (ucast (stx_blksize st)) q) < 2 ^ 31 - 1)"

lemma chunk_count_eq:
  assumes "0 < unat cs" "unat sz div unat cs < 2 ^ 31 - 1"
  shows "chunk_count sz cs = Inr (int (length (chunks_from (unat cs) (unat sz) 0)))"
    and "int (length (chunks_from (unat cs) (unat sz) 0)) \<le> INT_MAX"
proof -
  let ?n = "unat sz div unat cs"
  have n: "uint (sz div cs) = int ?n" unfolding uint_nat unat_div by (rule refl)
  have m: "sz mod cs = 0 \<longleftrightarrow> unat sz mod unat cs = 0" unfolding unat_mod [symmetric] unat_eq_0 by (rule refl)
  have "signed_take_bit 31 (int ?n) = int ?n"
    using assms(2) by (intro signed_take_bit_int_eq_self) auto
  then show "chunk_count sz cs = Inr (int (length (chunks_from (unat cs) (unat sz) 0)))"
    using assms n m chunks_from_length [of "unat cs" 0 "unat sz"]
    by (simp add: chunk_count_def INT_MAX_def defined_if_def Let_def)
  show "int (length (chunks_from (unat cs) (unat sz) 0)) \<le> INT_MAX"
    using assms chunks_from_length [of "unat cs" 0 "unat sz"] by (simp add: INT_MAX_def)
qed

text \<open>The queue with the two descriptors and the counter of a new job, before its runners.\<close>

definition job_opened ::
  "path \<Rightarrow> path \<Rightarrow> u32 \<Rightarrow> int \<Rightarrow> int \<Rightarrow> nat \<Rightarrow> u64 \<Rightarrow> CopyQueue \<Rightarrow> CopyQueue" where
  "job_opened src dest mode sfd dfd chunkCount used q =
     (let n = next_object q
      in q\<lparr>fds := (fds q)(
             n \<mapsto> \<lparr>qfd_path = src, qfd_oflag = O_RDONLY OR O_DIRECT OR O_CLOEXEC, qfd_mode = 0, qfd_fd = sfd\<rparr>,
             n + 1 \<mapsto> \<lparr>qfd_path = dest, qfd_oflag = O_WRONLY OR O_CREAT OR O_TRUNC OR O_CLOEXEC, qfd_mode = mode,
                      qfd_fd = dfd\<rparr>),
           next_object := n + 3, fileDescriptorsUsed := used, counters := (counters q)(n + 2 \<mapsto> int chunkCount)\<rparr>)"

lemma job_opened_frame [simp]:
  "q_state (job_opened src dest mode sfd dfd k used q) = q_state q"
  "runners (job_opened src dest mode sfd dfd k used q) = runners q"
  "copyBufferHeap (job_opened src dest mode sfd dfd k used q) = copyBufferHeap q"
  "copiesPendingStart (job_opened src dest mode sfd dfd k used q) = copiesPendingStart q"
  "copiesPendingStartCount (job_opened src dest mode sfd dfd k used q) = copiesPendingStartCount q"
  "keepAliveCount (job_opened src dest mode sfd dfd k used q) = keepAliveCount q"
  "totalBytesToCopy (job_opened src dest mode sfd dfd k used q) = totalBytesToCopy q"
  "next_object (job_opened src dest mode sfd dfd k used q) = next_object q + 3"
  "can_add (job_opened src dest mode sfd dfd k used q) = can_add q"
  by (simp_all add: job_opened_def can_add_def Let_def)

definition job_alignment :: "statx \<Rightarrow> u64" where
  "job_alignment st = (if stx_size st = 0 then 0 else ucast (stx_blksize st))"

definition job_chunks :: "statx \<Rightarrow> CopyQueue \<Rightarrow> (nat \<times> nat) list" where
  "job_chunks st q = file_chunks (chunk_size (ucast (stx_blksize st)) q) (stx_size st)"

lemma chunk_size_cong: "copyBufferHeap q' = copyBufferHeap q \<Longrightarrow> chunk_size a q' = chunk_size a q"
  by (simp add: chunk_size_def getHeapAlignment_def getBlockSize_def)

lemma job_chunks_cong: "copyBufferHeap q' = copyBufferHeap q \<Longrightarrow> job_chunks st q' = job_chunks st q"
  by (simp add: job_chunks_def chunk_size_def getHeapAlignment_def getBlockSize_def)

text \<open>A job under way: its two descriptors, its alignment, its counter, and the chunks still to be added.\<close>

record job =
  job_source :: nat
  job_dest :: nat
  job_align :: u64
  job_counter :: nat
  job_todo :: "(int \<times> int) list"

text \<open>\<open>addCopyJob\<close> before its first call of \<open>addCopyJobPart\<close>.\<close>

definition job_begin ::
  "'w os \<Rightarrow> bool \<times> bool \<Rightarrow> path \<Rightarrow> path \<Rightarrow> statx \<Rightarrow> CopyQueue \<Rightarrow> 'w \<Rightarrow> (job \<times> CopyQueue \<times> 'w) outcome" where
  "job_begin os lost src dest st q w =
     and_then (QueueFileDescriptor_new os (fst lost) src (O_RDONLY OR O_DIRECT OR O_CLOEXEC) 0 q w) (\<lambda>(sfd, q, w).
     and_then (QueueFileDescriptor_new os (snd lost) dest (O_WRONLY OR O_CREAT OR O_TRUNC OR O_CLOEXEC) (stx_mode st) q w)
       (\<lambda>(dfd, q, w).
     let chunks = job_chunks st q
     in case new_counter (int (length chunks)) q of (c, q) \<Rightarrow>
          Inr (\<lparr>job_source = sfd, job_dest = dfd, job_align = job_alignment st, job_counter = c,
                 job_todo = map (map_prod int int) chunks\<rparr>, q, w)))"

definition job_part :: "bool \<Rightarrow> job \<Rightarrow> int \<times> int \<Rightarrow> CopyQueue \<Rightarrow> CopyQueue outcome" where
  "job_part ndebug j chunk q =
     addCopyJobPart ndebug (job_source j) (job_dest j) (fst chunk) (snd chunk) (job_align j) (job_counter j) q"

fun job_parts :: "bool \<Rightarrow> job \<Rightarrow> (int \<times> int) list \<Rightarrow> CopyQueue \<Rightarrow> CopyQueue outcome" where
  "job_parts ndebug j [] q = Inr q"
| "job_parts ndebug j (chunk # chunks) q = and_then (job_part ndebug j chunk q) (job_parts ndebug j chunks)"

lemma job_part_eq:
  "can_add q \<Longrightarrow> job_part nd j chunk q =
     Inr (part_added (job_source j) (job_dest j) (job_align j) (job_counter j) chunk q)"
  by (simp add: job_part_def addCopyJobPart_eq)

lemma job_parts_eq:
  "can_add q \<Longrightarrow> job_parts nd j (map (map_prod int int) chunks) q =
     Inr (parts_added (job_source j) (job_dest j) (job_align j) (job_counter j) chunks q)"
  by (induction chunks arbitrary: q) (simp_all add: job_part_eq)

lemma job_begin_eq:
  obtains sfd dfd used w' where
    "job_begin os lost src dest st q w =
       Inr (\<lparr>job_source = next_object q, job_dest = next_object q + 1, job_align = job_alignment st,
              job_counter = next_object q + 2, job_todo = map (map_prod int int) (job_chunks st q)\<rparr>,
            job_opened src dest (stx_mode st) sfd dfd (length (job_chunks st q)) used q, w')"
    "sfd = NEVER_OPENED_VAL \<or> 0 \<le> sfd" "dfd = NEVER_OPENED_VAL \<or> 0 \<le> dfd"
proof -
  let ?n = "next_object q"
  let ?so = "O_RDONLY OR O_DIRECT OR O_CLOEXEC" and ?do = "O_WRONLY OR O_CREAT OR O_TRUNC OR O_CLOEXEC"
  obtain sfd used1 w1 where s: "QueueFileDescriptor_new os (fst lost) src ?so 0 q w =
      Inr (?n, q\<lparr>fds := (fds q)(?n \<mapsto> \<lparr>qfd_path = src, qfd_oflag = ?so, qfd_mode = 0,
        qfd_fd = sfd\<rparr>), next_object := ?n + 1, fileDescriptorsUsed := used1\<rparr>, w1)"
    and sfd: "sfd = NEVER_OPENED_VAL \<or> 0 \<le> sfd"
    by (rule QueueFileDescriptor_new_eq)
  let ?q1 = "q\<lparr>fds := (fds q)(?n \<mapsto> \<lparr>qfd_path = src, qfd_oflag = ?so, qfd_mode = 0,
        qfd_fd = sfd\<rparr>), next_object := ?n + 1, fileDescriptorsUsed := used1\<rparr>"
  obtain dfd used w' where d: "QueueFileDescriptor_new os (snd lost) dest ?do (stx_mode st) ?q1 w1 =
      Inr (next_object ?q1, ?q1\<lparr>fds := (fds ?q1)(next_object ?q1 \<mapsto> \<lparr>qfd_path = dest, qfd_oflag = ?do,
        qfd_mode = stx_mode st, qfd_fd = dfd\<rparr>), next_object := next_object ?q1 + 1, fileDescriptorsUsed := used\<rparr>, w')"
    and dfd: "dfd = NEVER_OPENED_VAL \<or> 0 \<le> dfd"
    by (rule QueueFileDescriptor_new_eq)
  let ?q2 = "?q1\<lparr>fds := (fds ?q1)(next_object ?q1 \<mapsto> \<lparr>qfd_path = dest, qfd_oflag = ?do,
        qfd_mode = stx_mode st, qfd_fd = dfd\<rparr>), next_object := next_object ?q1 + 1, fileDescriptorsUsed := used\<rparr>"
  have "job_chunks st ?q2 = job_chunks st q" by (rule job_chunks_cong) simp
  moreover have "new_counter (int k) ?q2 = (?n + 2, job_opened src dest (stx_mode st) sfd dfd k used q)" for k
    by (simp add: new_counter_def job_opened_def Let_def)
  ultimately show thesis using that [of sfd dfd used w', OF _ sfd dfd] s d by (simp add: job_begin_def Let_def)
qed

text \<open>Without interference the pieces make up \<open>addCopyJob\<close>.\<close>

lemma addCopyJob_pieces:
  assumes "addable st q"
  shows "addCopyJob nd os lost src dest st q w =
    and_then (job_begin os lost src dest st q w) (\<lambda>(j, q, w). and_then (job_parts nd j (job_todo j) q) (\<lambda>q. Inr (q, w)))"
proof -
  note ok = assms [unfolded addable_def]
  have tail: "(if stx_size st = 0 then
       (case new_counter 1 q2 of (c, q) \<Rightarrow>
          and_then (addCopyJobPart nd sfd dfd 0 0 0 c q) (\<lambda>q. Inr (q, w)))
     else
       let requiredAlignment = ucast (stx_blksize st);
           chunkSize = chunk_size requiredAlignment q2
       in release_assert ''chunkSize > 0'' (chunkSize > 0)
         (and_then (chunk_count (stx_size st) chunkSize) (\<lambda>chunkCount.
          case new_counter chunkCount q2 of (c, q) \<Rightarrow>
            and_then (add_chunks nd sfd dfd requiredAlignment c chunkSize (stx_size st) 0 0 q) (\<lambda>(i, q).
            debug_assert nd ''chunkCount == i'' (chunkCount = i) (Inr (q, w)))))) =
     (case new_counter (int (length (job_chunks st q2))) q2 of (c, q) \<Rightarrow>
        and_then (job_parts nd \<lparr>job_source = sfd, job_dest = dfd, job_align = job_alignment st, job_counter = c,
              job_todo = map (map_prod int int) (job_chunks st q2)\<rparr> (map (map_prod int int) (job_chunks st q2)) q)
          (\<lambda>q. Inr (q, w)))"
    if q2: "addable st q2" for sfd dfd q2 and w :: 'a
  proof (cases "stx_size st = 0")
    case True
    then show ?thesis
      using q2 by (simp add: job_chunks_def file_chunks_def job_alignment_def job_part_def addable_def
          addCopyJobPart_eq new_counter_def can_add_def)
  next
    case False
    let ?A = "ucast (stx_blksize st) :: u64"
    let ?cs = "chunk_size ?A q2"
    note ok = q2 [unfolded addable_def]
    have pos: "0 < unat ?cs" using ok False by (simp add: unat_gt_0 word_gt_0)
    have jc: "job_chunks st q2 = chunks_from (unat ?cs) (unat (stx_size st)) 0" "job_alignment st = ?A"
      using False by (simp_all add: job_chunks_def file_chunks_def job_alignment_def)
    note cc = chunk_count_eq [OF pos, of "stx_size st"]
    have "add_chunks nd sfd dfd ?A c ?cs (stx_size st) 0 0 q3 =
        Inr (int (length (job_chunks st q2)), parts_added sfd dfd ?A c (job_chunks st q2) q3)" if "can_add q3" for c q3
      using add_chunks_eq [of q3 ?cs 0 "stx_size st" 0 nd sfd dfd ?A c] ok False cc(2) that unfolding jc by simp
    then show ?thesis
      using False ok cc(1) jc by (simp add: Let_def new_counter_def can_add_def job_parts_eq)
  qed
  obtain sfd q1 w1 where s: "QueueFileDescriptor_new os (fst lost) src (O_RDONLY OR O_DIRECT OR O_CLOEXEC) 0 q w = Inr (sfd, q1, w1)"
    "copyBufferHeap q1 = copyBufferHeap q" "q_state q1 = q_state q"
    by (rule QueueFileDescriptor_new_eq [of os "fst lost" src "O_RDONLY OR O_DIRECT OR O_CLOEXEC" 0 q w]) simp
  obtain dfd q2 w2 where d: "QueueFileDescriptor_new os (snd lost) dest (O_WRONLY OR O_CREAT OR O_TRUNC OR O_CLOEXEC) (stx_mode st) q1 w1 = Inr (dfd, q2, w2)"
    "copyBufferHeap q2 = copyBufferHeap q1" "q_state q2 = q_state q1"
    by (rule QueueFileDescriptor_new_eq [of os "snd lost" dest "O_WRONLY OR O_CREAT OR O_TRUNC OR O_CLOEXEC" "stx_mode st" q1 w1]) simp
  have "chunk_size a q2 = chunk_size a q" for a by (rule chunk_size_cong) (use s(2) d(2) in simp)
  then have "addable st q2" using assms s(3) d(3) by (simp add: addable_def can_add_def)
  moreover obtain c q3 where "new_counter (int (length (job_chunks st q2))) q2 = (c, q3)" by fastforce
  ultimately show ?thesis using tail [of q2 sfd dfd w2] s(1) d(1) by (simp add: addCopyJob_def job_begin_def)
qed

lemma addCopyJob_eq:
  assumes "addable st q"
  obtains sfd dfd used w' where
    "addCopyJob nd os lost src dest st q w =
       Inr (parts_added (next_object q) (next_object q + 1) (job_alignment st) (next_object q + 2) (job_chunks st q)
              (job_opened src dest (stx_mode st) sfd dfd (length (job_chunks st q)) used q), w')"
    "sfd = NEVER_OPENED_VAL \<or> 0 \<le> sfd" "dfd = NEVER_OPENED_VAL \<or> 0 \<le> dfd"
proof -
  obtain sfd dfd used w' where
    "job_begin os lost src dest st q w =
       Inr (\<lparr>job_source = next_object q, job_dest = next_object q + 1, job_align = job_alignment st,
              job_counter = next_object q + 2, job_todo = map (map_prod int int) (job_chunks st q)\<rparr>,
            job_opened src dest (stx_mode st) sfd dfd (length (job_chunks st q)) used q, w')"
    "sfd = NEVER_OPENED_VAL \<or> 0 \<le> sfd" "dfd = NEVER_OPENED_VAL \<or> 0 \<le> dfd"
    by (rule job_begin_eq)
  then show thesis
    using that addCopyJob_pieces [OF assms, of nd os lost src dest w] assms
    by (simp add: job_parts_eq addable_def)
qed

section \<open>Chunks and blocks\<close>

lemma unat_and_minus_power:
  "a < 64 \<Longrightarrow> unat (x AND - (2 ^ a) :: u64) = unat x - unat x mod 2 ^ a"
proof -
  assume a: "a < 64"
  have t: "unat (take_bit a x) = unat x mod 2 ^ a" unfolding unsigned_take_bit_eq by (rule take_bit_eq_mod)
  have "take_bit a x \<le> x" unfolding word_le_nat_alt t by (rule mod_less_eq_dividend)
  then have "unat (x - take_bit a x) = unat x - unat x mod 2 ^ a" unfolding t [symmetric] by (rule unat_sub)
  moreover have "x - take_bit a x = x AND NOT (take_bit a x)"
    by (rule disjunctive_diff) (simp add: bit_take_bit_iff)
  moreover have "x AND NOT (take_bit a x) = x AND - (2 ^ a)"
    unfolding minus_exp_eq_not_mask by (rule bit_eqI) (auto simp: bit_simps)
  ultimately show ?thesis by simp
qed

text \<open>\<open>aligned_address\<close> is the first multiple of the alignment at or after the block.\<close>

lemma aligned_address_unat:
  assumes "a < 64" "0 < unat p" "unat p + 2 ^ a \<le> 2 ^ 64"
  shows "unat p \<le> unat (aligned_address p (2 ^ a))" "2 ^ a dvd unat (aligned_address p (2 ^ a))"
    "unat (aligned_address p (2 ^ a)) < unat p + 2 ^ a"
    "2 ^ a dvd unat p \<Longrightarrow> aligned_address p (2 ^ a) = p"
proof -
  let ?A = "2 ^ a :: nat" and ?m = "unat p - 1 + 2 ^ a"
  have A: "unat (2 ^ a :: u64) = ?A" using assms(1) by (intro unat_power_two) simp
  have one: "unat (p - 1) = unat p - 1" using assms(2) by (subst unat_sub) (simp_all add: word_le_nat_alt)
  have "unat (p - 1 + 2 ^ a) = ?m" using one A assms(2,3) by (simp add: unat_word_ariths)
  then have r: "unat (aligned_address p (2 ^ a)) = ?m - ?m mod ?A"
    unfolding aligned_address_def unat_and_minus_power [OF assms(1)] by simp
  have mod: "?m mod ?A < ?A" by simp
  show lo: "unat p \<le> unat (aligned_address p (2 ^ a))" and hi: "unat (aligned_address p (2 ^ a)) < unat p + 2 ^ a"
    using r mod assms(2) by linarith+
  show d: "2 ^ a dvd unat (aligned_address p (2 ^ a))" unfolding r by (rule dvd_minus_mod)
  show "aligned_address p (2 ^ a) = p" if div: "2 ^ a dvd unat p"
  proof -
    obtain j where j: "unat p = ?A * j" using div by (rule dvdE)
    obtain k where k: "unat (aligned_address p (2 ^ a)) = ?A * k" using d by (rule dvdE)
    have "?A * j \<le> ?A * k" "?A * k < ?A * (j + 1)" using lo hi unfolding j k by simp_all
    then have "j \<le> k" "k < j + 1" by (simp_all only: mult_le_cancel1 mult_less_cancel1)
    then have "k = j" by simp
    then show ?thesis using j k by (simp add: word_unat_eq_iff)
  qed
qed

text \<open>
  A queue whose heap can serve files with block size \<open>2 ^ a\<close>: powers of two, a block of at
  least twice the alignment, and sizes that the 32-bit counts of a runner hold.
\<close>

definition block_serves :: "nat \<Rightarrow> CopyQueue \<Rightarrow> bool" where
  "block_serves a q \<longleftrightarrow> heap_wf (copyBufferHeap q) \<and> a < 32 \<and>
     (\<exists>b < 64. getHeapAlignment q = 2 ^ b) \<and> 2 * 2 ^ a \<le> unat (getBlockSize q) \<and>
     unat (getBlockSize q) + 2 ^ a \<le> 2 ^ 32"

lemma power_dvd_iff: "(2 :: nat) ^ a \<le> 2 ^ b \<Longrightarrow> 2 ^ a dvd (2 :: nat) ^ b"
  by (simp add: le_imp_power_dvd)

lemma chunk_size_bounds:
  assumes "block_serves a q"
  shows "0 < unat (chunk_size (2 ^ a) q)" "2 ^ a dvd unat (chunk_size (2 ^ a) q)"
    "2 ^ a \<le> unat (getHeapAlignment q) \<Longrightarrow> unat (chunk_size (2 ^ a) q) = unat (getBlockSize q)"
    "\<not> 2 ^ a \<le> unat (getHeapAlignment q) \<Longrightarrow>
       unat (chunk_size (2 ^ a) q) + (2 ^ a - 1) \<le> unat (getBlockSize q)"
proof -
  note ok = assms [unfolded block_serves_def]
  let ?A = "2 ^ a :: nat" and ?B = "unat (getBlockSize q)"
  have a: "a < 64" using ok by simp
  have A: "unat (2 ^ a :: u64) = ?A" using a by (intro unat_power_two) simp
  have gt: "2 ^ a > getHeapAlignment q \<longleftrightarrow> \<not> ?A \<le> unat (getHeapAlignment q)"
    using A by (simp add: word_less_nat_alt not_le)
  have big: "unat (chunk_size (2 ^ a) q) = (?B - (?A - 1)) div ?A * ?A" if "\<not> ?A \<le> unat (getHeapAlignment q)"
  proof -
    have m: "unat ((2 ^ a :: u64) - 1) = ?A - 1" using A by (subst unat_sub) (simp_all add: word_le_nat_alt)
    have "unat (getBlockSize q - (2 ^ a - 1)) = ?B - (?A - 1)"
      using m ok by (subst unat_sub) (simp_all add: word_le_nat_alt le_diff_conv)
    then have d: "unat ((getBlockSize q - (2 ^ a - 1)) div 2 ^ a) = (?B - (?A - 1)) div ?A"
      using A by (simp add: unat_div)
    have "(?B - (?A - 1)) div ?A * ?A \<le> ?B" by (rule order_trans [OF div_times_less_eq_dividend diff_le_self])
    then have "(?B - (?A - 1)) div ?A * ?A < 2 ^ 64" using unat_u64_bound [of "getBlockSize q"] by simp
    then show ?thesis
      using that gt d A by (simp add: chunk_size_def Let_def unat_word_ariths)
  qed
  show small: "unat (chunk_size (2 ^ a) q) = ?B" if "?A \<le> unat (getHeapAlignment q)"
    using that gt by (simp add: chunk_size_def)
  show "unat (chunk_size (2 ^ a) q) + (?A - 1) \<le> ?B" if "\<not> ?A \<le> unat (getHeapAlignment q)"
  proof -
    have "(?B - (?A - 1)) div ?A * ?A \<le> ?B - (?A - 1)" by (rule div_times_less_eq_dividend)
    then show ?thesis unfolding big [OF that] using ok by linarith
  qed
  show "2 ^ a dvd unat (chunk_size (2 ^ a) q)"
  proof (cases "?A \<le> unat (getHeapAlignment q)")
    case True
    obtain b where b: "b < 64" "getHeapAlignment q = 2 ^ b" using ok by auto
    then have "unat (getHeapAlignment q) = 2 ^ b" by (simp add: unat_power_two)
    then have "?A dvd unat (getHeapAlignment q)" using True power_dvd_iff by simp
    also have "\<dots> dvd ?B" using ok heap_wfD(7) by (simp add: getHeapAlignment_def getBlockSize_def)
    finally show ?thesis using small [OF True] by simp
  qed (use big in simp)
  show "0 < unat (chunk_size (2 ^ a) q)"
  proof (cases "?A \<le> unat (getHeapAlignment q)")
    case False
    have "?A \<le> ?B - (?A - 1)" using ok by linarith
    then have "0 < (?B - (?A - 1)) div ?A" by (simp add: div_greater_zero_iff)
    then show ?thesis unfolding big [OF False] by simp
  next
    case True
    then show ?thesis using small ok heap_wfD(2) by (simp add: getBlockSize_def)
  qed
qed

lemma held_block:
  assumes "heap_wf h" "p \<in> held h"
  shows "0 < unat p" "unat p + unat (blockSize h) < 2 ^ 64" "unat (alignment h) dvd unat p"
proof -
  obtain i where i: "i < unat (blocks h)" "p = block_addr h i" using assms by (rule held_memE)
  show "0 < unat p" using block_in_slab(3) [OF assms(1) i(1)] i(2) by (simp add: unat_gt_0)
  show "unat (alignment h) dvd unat p" using block_in_slab(2) [OF assms(1) i(1)] i(2) by (simp add: dvd_eq_mod_eq_0)
  show "unat p + unat (blockSize h) < 2 ^ 64"
    using unat_block_addr [OF assms(1) i(1)] block_offset_bound(2) [OF assms(1) i(1)] heap_wfD(5) [OF assms(1)]
    unfolding i(2) by linarith
qed

text \<open>The aligned address and a whole chunk behind it lie in the block.\<close>

lemma chunk_in_block:
  assumes "block_serves a q" "p \<in> held (copyBufferHeap q)"
  shows "unat (aligned_address p (2 ^ a)) + unat (chunk_size (2 ^ a) q) \<le> unat p + unat (getBlockSize q)"
    "unat p \<le> unat (aligned_address p (2 ^ a))" "2 ^ a dvd unat (aligned_address p (2 ^ a))"
proof -
  note ok = assms(1) [unfolded block_serves_def]
  have wf: "heap_wf (copyBufferHeap q)" using ok by simp
  note p = held_block [OF wf assms(2), folded getBlockSize_def getHeapAlignment_def]
  have a: "a < 64" using ok by simp
  have "unat p + 2 ^ a \<le> 2 ^ 64" using p(2) ok by linarith
  note al = aligned_address_unat [OF a p(1) this]
  show "unat p \<le> unat (aligned_address p (2 ^ a))" "2 ^ a dvd unat (aligned_address p (2 ^ a))" by (rule al)+
  show "unat (aligned_address p (2 ^ a)) + unat (chunk_size (2 ^ a) q) \<le> unat p + unat (getBlockSize q)"
  proof (cases "2 ^ a \<le> unat (getHeapAlignment q)")
    case True
    obtain b where b: "b < 64" "getHeapAlignment q = 2 ^ b" using ok by auto
    then have "unat (getHeapAlignment q) = 2 ^ b" by (simp add: unat_power_two)
    then have "2 ^ a dvd unat (getHeapAlignment q)" using True power_dvd_iff by simp
    then have "2 ^ a dvd unat p" using p(3) by (rule dvd_trans)
    then show ?thesis using al(4) chunk_size_bounds(3) [OF assms(1) True] by simp
  next
    case False
    show ?thesis using al(3) chunk_size_bounds(4) [OF assms(1) False] by linarith
  qed
qed

text \<open>The read of a chunk, rounded up to whole blocks of the file system, is no longer than a chunk.\<close>

lemma rounded_read_fits:
  assumes "block_serves a q" "0 < k" "k \<le> unat (chunk_size (2 ^ a) q)"
  shows "unat (round_up (word_of_int (int k)) (2 ^ a)) \<le> unat (chunk_size (2 ^ a) q)"
proof -
  note ok = assms(1) [unfolded block_serves_def]
  let ?C = "unat (chunk_size (2 ^ a) q)" and ?A = "2 ^ a :: int"
  have "unat (2 ^ a :: u64) = 2 ^ a" using ok by (intro unat_power_two) simp
  then have A: "uint (2 ^ a :: u64) = ?A" by (simp add: uint_nat)
  have "?C \<le> unat (getBlockSize q)" using chunk_size_bounds(3,4) [OF assms(1)] by linarith
  then have "k + 2 ^ a \<le> 2 ^ 32" using assms(3) ok by linarith
  then have "int (k + 2 ^ a) \<le> int (2 ^ 32)" by (simp only: of_nat_le_iff)
  then have le: "int k + uint (2 ^ a :: u64) \<le> 2 ^ 32" unfolding A by simp
  have pos: "0 < int k" "0 < uint (2 ^ a :: u64)" using assms(2) A by simp_all
  note r = round_up_uint [OF pos le, unfolded A]
  let ?R = "round_up (word_of_int (int k)) (2 ^ a)"
  have "?A dvd int ?C" using chunk_size_bounds(2) [OF assms(1)] by (metis int_dvd_int_iff of_nat_numeral of_nat_power)
  then obtain c where c: "int ?C = ?A * c" by (rule dvdE)
  obtain d where d: "uint ?R = ?A * d" using r(4) by (rule dvdE)
  have "int k \<le> ?A * c" using assms(3) c by (metis of_nat_le_iff)
  then have "?A * d < ?A * (c + 1)" using r(3) unfolding d distrib_left mult_1_right by linarith
  then have "d \<le> c" by (simp only: mult_less_cancel_left) simp
  then have "uint ?R \<le> int ?C" unfolding c d by simp
  then show ?thesis by (simp only: unat_eq_nat_uint nat_le_iff)
qed

lemma giveBuffer_ok:
  assumes "block_serves a q" "p \<in> held (copyBufferHeap q)" "runners q r = Some t" "cr_alignment t = 2 ^ a"
    and "buffer t = 0" "0 < cr_size t" "cr_size t \<le> int (unat (chunk_size (2 ^ a) q))"
  shows "giveBuffer nd r p q =
    Inr (q\<lparr>runners := (runners q)(r \<mapsto> t\<lparr>buffer := p, bufferAligned := aligned_address p (2 ^ a)\<rparr>)\<rparr>)"
proof -
  note ok = assms(1) [unfolded block_serves_def]
  have wf: "heap_wf (copyBufferHeap q)" using ok by simp
  note fit = chunk_in_block [OF assms(1,2)]
  note p = held_block [OF wf assms(2), folded getBlockSize_def]
  let ?al = "aligned_address p (2 ^ a)"
  have A: "unat (2 ^ a :: u64) = 2 ^ a" using ok by (intro unat_power_two) simp
  then have nz: "(2 ^ a :: u64) \<noteq> 0" by (metis unat_0 power_not_zero zero_neq_numeral)
  have mod: "?al mod 2 ^ a = 0"
    using fit(3) unfolding unat_eq_0 [symmetric] unat_mod A by (simp only: dvd_eq_mod_eq_0)
  obtain k where k: "cr_size t = int k" "k \<le> unat (chunk_size (2 ^ a) q)"
    using assms(6,7) by (metis nonneg_int_cases less_imp_le of_nat_le_iff)
  have le: "unat ?al + k \<le> unat p + unat (getBlockSize q)" using fit(1) k(2) by linarith
  have ka: "unat (of_nat k :: u64) = k"
    using k(2) unat_u64_bound [of "chunk_size (2 ^ a) q"] by (intro unat_of_nat_u64) linarith
  have "unat (?al + of_nat k) = unat ?al + k" "unat (p + getBlockSize q) = unat p + unat (getBlockSize q)"
    using le p(2) ka by (simp_all add: unat_word_ariths)
  then have "?al + word_of_int (cr_size t) \<le> p + blockSize (copyBufferHeap q)"
    using le k(1) by (simp add: word_le_nat_alt getBlockSize_def)
  then show ?thesis
    using assms(3-6) mod nz by (simp add: giveBuffer_def with_runner_def Let_def)
qed

lemma fresh_runner_sel [simp]:
  "cr_offset (fresh_runner src dst align c chunk) = fst chunk" "cr_size (fresh_runner src dst align c chunk) = snd chunk"
  "cr_alignment (fresh_runner src dst align c chunk) = align" "buffer (fresh_runner src dst align c chunk) = 0"
  "sourceFd (fresh_runner src dst align c chunk) = src" "destFd (fresh_runner src dst align c chunk) = dst"
  "chunksRemaining (fresh_runner src dst align c chunk) = c" "jobsRunning (fresh_runner src dst align c chunk) = 0"
  "savedError (fresh_runner src dst align c chunk) = None"
  "readOffset (fresh_runner src dst align c chunk) = fst chunk" "writeOffset (fresh_runner src dst align c chunk) = fst chunk"
  by (simp_all add: fresh_runner_def)

section \<open>Correctness of addCopyJob\<close>

lemma chunks_from_sum: "0 < cs \<Longrightarrow> sum_list (map snd (chunks_from cs n 0)) = n"
proof -
  assume "0 < cs"
  then have "length (concat (map (\<lambda>(o1, k). [o1..<o1 + k]) (chunks_from cs n 0))) = n"
    by (simp add: chunks_from_partition)
  then show ?thesis by (simp add: length_concat comp_def case_prod_beta)
qed

lemma job_chunks_facts:
  assumes "addable st q"
  shows "concat (map (\<lambda>(o1, k). [o1..<o1 + k]) (job_chunks st q)) = [0..<unat (stx_size st)]"
    "sum_list (map snd (job_chunks st q)) = unat (stx_size st)" "job_chunks st q \<noteq> []"
proof -
  have pos: "0 < unat (chunk_size (ucast (stx_blksize st)) q)" if "stx_size st \<noteq> 0"
    using assms that by (simp add: addable_def unat_gt_0 word_gt_0)
  show "concat (map (\<lambda>(o1, k). [o1..<o1 + k]) (job_chunks st q)) = [0..<unat (stx_size st)]"
    "sum_list (map snd (job_chunks st q)) = unat (stx_size st)"
    using pos chunks_from_partition chunks_from_sum by (auto simp: job_chunks_def file_chunks_def)
  show "job_chunks st q \<noteq> []"
    using pos by (cases "stx_size st = 0")
      (auto simp: job_chunks_def file_chunks_def unat_gt_0 chunks_from.simps [of _ _ 0])
qed

text \<open>The bytes of the file that the runner at an address is responsible for.\<close>

definition runner_range :: "CopyQueue \<Rightarrow> nat \<Rightarrow> nat list" where
  "runner_range q r =
     (case runners q r of None \<Rightarrow> [] | Some t \<Rightarrow> [nat (cr_offset t)..<nat (cr_offset t + cr_size t)])"

text \<open>
  C5. \<open>addCopyJob\<close> cuts a file into runners. When the queue accepts jobs and the number of chunks
  fits its 32-bit counter, it ends without a failed assertion in either build, and appends new
  runners to those waiting for a start: their ranges, one after the other, are exactly the bytes of
  the file, each once and in order. All of them share the two new descriptors, which name the source
  and the destination, and a counter that holds their number; the count of live runners, the count
  of waiting runners and the total of bytes grow accordingly. The runners the queue had are unchanged.
\<close>

theorem addCopyJob_partitions_file:
  assumes "addable st q" "\<forall>r \<in> dom (runners q). r < next_object q"
  shows "\<exists>q' w' rs sfd dfd c. addCopyJob nd os lost src dest st q w = Inr (q', w') \<and>
    copiesPendingStart q' = copiesPendingStart q @ rs \<and> rs \<noteq> [] \<and> distinct rs \<and> set rs \<inter> dom (runners q) = {} \<and>
    concat (map (runner_range q') rs) = [0..<unat (stx_size st)] \<and>
    (\<forall>r \<in> set rs. \<exists>t. runners q' r = Some t \<and> sourceFd t = sfd \<and> destFd t = dfd \<and> chunksRemaining t = c \<and>
       readOffset t = cr_offset t \<and> writeOffset t = cr_offset t \<and> jobsRunning t = 0 \<and> savedError t = None) \<and>
    map_option qfd_path (fds q' sfd) = Some src \<and> map_option qfd_path (fds q' dfd) = Some dest \<and>
    counters q' c = Some (int (length rs)) \<and> (\<forall>r. r \<notin> set rs \<longrightarrow> runners q' r = runners q r) \<and>
    keepAliveCount q' = keepAliveCount q + of_nat (length rs) \<and>
    copiesPendingStartCount q' = copiesPendingStartCount q + of_nat (length rs) \<and>
    totalBytesToCopy q' = totalBytesToCopy q + stx_size st"
proof -
  let ?n = "next_object q" and ?J = "job_chunks st q"
  obtain sfd dfd used w' where add: "addCopyJob nd os lost src dest st q w =
      Inr (parts_added ?n (?n + 1) (job_alignment st) (?n + 2) ?J
        (job_opened src dest (stx_mode st) sfd dfd (length ?J) used q), w')"
    using assms(1) by (rule addCopyJob_eq)
  let ?q1 = "job_opened src dest (stx_mode st) sfd dfd (length ?J) used q"
  let ?q' = "parts_added ?n (?n + 1) (job_alignment st) (?n + 2) ?J ?q1"
  let ?rs = "[?n + 3..<?n + 3 + length ?J]"
  note f = parts_added_fields [of ?n "?n + 1" "job_alignment st" "?n + 2" ?J ?q1, simplified]
  note r = parts_added_runners [of ?n "?n + 1" "job_alignment st" "?n + 2" ?J ?q1, simplified]
  note J = job_chunks_facts [OF assms(1)]
  have "map (runner_range ?q') ?rs = map (\<lambda>(o1, k). [o1..<o1 + k]) ?J"
    by (rule nth_equalityI) (auto simp: runner_range_def r nat_add_distrib split: prod.splits)
  then have ranges: "concat (map (runner_range ?q') ?rs) = [0..<unat (stx_size st)]" using J(1) by simp
  have "r \<notin> set ?rs" if "r \<in> dom (runners q)" for r using bspec [OF assms(2) that] by simp
  then have new: "set ?rs \<inter> dom (runners q) = {}" by blast
  have total: "totalBytesToCopy ?q' = totalBytesToCopy q + stx_size st" using f J(2) by simp
  have shared: "map_option qfd_path (fds ?q' ?n) = Some src" "map_option qfd_path (fds ?q' (?n + 1)) = Some dest"
    "counters ?q' (?n + 2) = Some (int (length ?rs))"
    using f by (simp_all add: job_opened_def Let_def)
  have each: "\<exists>t. runners ?q' r = Some t \<and> sourceFd t = ?n \<and> destFd t = ?n + 1 \<and> chunksRemaining t = ?n + 2 \<and>
       readOffset t = cr_offset t \<and> writeOffset t = cr_offset t \<and> jobsRunning t = 0 \<and> savedError t = None"
    if "r \<in> set ?rs" for r using that by (simp add: r)
  have others: "runners ?q' r = runners q r" if "r \<notin> set ?rs" for r using that by (auto simp: r)
  have lists: "copiesPendingStart ?q' = copiesPendingStart q @ ?rs" "?rs \<noteq> []"
    "keepAliveCount ?q' = keepAliveCount q + of_nat (length ?rs)"
    "copiesPendingStartCount ?q' = copiesPendingStartCount q + of_nat (length ?rs)"
    using J(3) f by simp_all
  show ?thesis
    by (rule exI [of _ ?q'], rule exI [of _ w'], rule exI [of _ ?rs], rule exI [of _ ?n], rule exI [of _ "?n + 1"],
        rule exI [of _ "?n + 2"], intro conjI ballI allI impI)
      (rule add lists distinct_upt new ranges each shared others total | assumption)+
qed

text \<open>A file of 10000 bytes is cut into two chunks by a heap with blocks of 8192 bytes.\<close>

definition big_stat :: statx where
  "big_stat = \<lparr>stx_mode = 0x81A4, stx_size = 10000, stx_blksize = 512\<rparr>"

definition small_queue :: CopyQueue where
  "small_queue = CopyQueue_init 10 \<lparr>usedList = [True, False], data = 8192, blocks = 2, blockSize = 8192, alignment = 4096\<rparr>
     empty_ring 2"

lemma small_chunk_size: "chunk_size (ucast (stx_blksize big_stat)) small_queue = 8192"
  by (simp add: chunk_size_def big_stat_def small_queue_def CopyQueue_init_def getHeapAlignment_def getBlockSize_def)

lemma small_addable: "addable big_stat small_queue"
  using small_chunk_size by (simp add: addable_def can_add_def big_stat_def small_queue_def CopyQueue_init_def)

theorem addCopyJob_partitions_file_witness:
  "\<exists>q' w' rs. addCopyJob False no_os (False, False) ''a'' ''b'' big_stat small_queue () = Inr (q', w') \<and>
     copiesPendingStart q' = rs \<and> concat (map (runner_range q') rs) = [0..<10000]"
proof -
  have "\<forall>r \<in> dom (runners small_queue). r < next_object small_queue" "copiesPendingStart small_queue = []"
    "unat (stx_size big_stat) = 10000"
    by (simp_all add: small_queue_def CopyQueue_init_def big_stat_def)
  then show ?thesis
    using addCopyJob_partitions_file [OF small_addable, of False no_os "(False, False)" "''a''" "''b''" "()"]
    by auto
qed

text \<open>The new runners of a job, with what is known of their chunks.\<close>

lemma addCopyJob_runner:
  assumes "addable st q" "addCopyJob nd os lost src dest st q w = Inr (q', w')"
    and "r \<in> set (drop (length (copiesPendingStart q)) (copiesPendingStart q'))"
  shows "copyBufferHeap q' = copyBufferHeap q" "\<exists>o1 k. (o1, k) \<in> set (job_chunks st q) \<and>
     runners q' r = Some (fresh_runner (next_object q) (next_object q + 1) (job_alignment st) (next_object q + 2) (int o1, int k))"
proof -
  let ?n = "next_object q" and ?J = "job_chunks st q"
  obtain sfd dfd used where q': "q' = parts_added ?n (?n + 1) (job_alignment st) (?n + 2) ?J
        (job_opened src dest (stx_mode st) sfd dfd (length ?J) used q)"
    using addCopyJob_eq [OF assms(1), of nd os lost src dest w] assms(2) by (metis Pair_inject sum.inject(2))
  let ?q1 = "job_opened src dest (stx_mode st) sfd dfd (length ?J) used q"
  have "copyBufferHeap (parts_added s d al c J q1) = copyBufferHeap q1" for s d al c J q1
    by (induction J arbitrary: q1) simp_all
  then show "copyBufferHeap q' = copyBufferHeap q" by (simp add: q')
  have "r \<in> set [?n + 3..<?n + 3 + length ?J]" using assms(3) by (simp add: q' parts_added_fields)
  moreover obtain o1 k where "?J ! (r - (?n + 3)) = (o1, k)" by fastforce
  ultimately show "\<exists>o1 k. (o1, k) \<in> set ?J \<and>
     runners q' r = Some (fresh_runner ?n (?n + 1) (job_alignment st) (?n + 2) (int o1, int k))"
    by (intro exI [of _ o1] exI [of _ k]) (auto simp: q' parts_added_runners in_set_conv_nth
        intro!: exI [of _ "r - (?n + 3)"])
qed

text \<open>A chunk of a job, as the data of a runner.\<close>

lemma job_chunk:
  assumes "addable st q" "(o1, k) \<in> set (job_chunks st q)" "block_serves a q" "stx_blksize st = 2 ^ a"
    and "length src = unat (stx_size st)" "stx_size st \<noteq> 0"
  shows "job_alignment st = 2 ^ a" "0 < k" "k \<le> unat (chunk_size (2 ^ a) q)"
    "chunk_ok src (fresh_runner s d (2 ^ a) c (int o1, int k))"
proof -
  note ok = assms(3) [unfolded block_serves_def]
  have "unat (stx_blksize st) = 2 ^ a" unfolding assms(4) using ok by (intro unat_power_two) simp
  then have A32: "unat (ucast (stx_blksize st) :: u64) = 2 ^ a" using ok by (simp add: unsigned_ucast_eq take_bit_nat_eq_self_iff)
  have A: "unat (2 ^ a :: u64) = 2 ^ a" using ok by (intro unat_power_two) simp
  then have A64: "ucast (stx_blksize st) = (2 ^ a :: u64)" using A32 by (simp only: word_unat_eq_iff)
  let ?cs = "unat (chunk_size (2 ^ a) q)"
  show "job_alignment st = 2 ^ a" using assms(6) A64 by (simp add: job_alignment_def)
  have "(o1, k) \<in> set (chunks_from ?cs (unat (stx_size st)) 0)"
    using assms(2,6) A64 by (simp add: job_chunks_def file_chunks_def)
  from chunks_from_mem [OF this] have c: "?cs dvd o1" "0 < k" "k \<le> ?cs" "o1 + k \<le> unat (stx_size st)"
    "k = ?cs \<or> o1 + k = unat (stx_size st)" by simp_all
  show "0 < k" "k \<le> ?cs" by (rule c)+
  have dv: "2 ^ a dvd o1" "2 ^ a dvd ?cs" using chunk_size_bounds(2) [OF assms(3)] c(1) by (auto intro: dvd_trans)
  have "k + 2 ^ a \<le> 2 ^ 32" using c(3) ok chunk_size_bounds(3,4) [OF assms(3)] by linarith
  then have "int (k + 2 ^ a) \<le> int (2 ^ 32)" by (simp only: of_nat_le_iff)
  moreover have "uint (2 ^ a :: u64) = int (2 ^ a)" unfolding uint_nat A by (rule refl)
  moreover have "int (o1 + k) < int (2 ^ 63)" using c(4) assms(1,6) unfolding addable_def of_nat_less_iff by linarith
  moreover have "int (2 ^ a) dvd int o1" "int (2 ^ a) dvd int (o1 + k) \<or> int (o1 + k) = int (length src)"
    using dv c(5) assms(5) unfolding int_dvd_int_iff of_nat_eq_iff by auto
  moreover have "int (o1 + k) \<le> int (length src)" unfolding of_nat_le_iff assms(5) by (rule c(4))
  ultimately show "chunk_ok src (fresh_runner s d (2 ^ a) c (int o1, int k))" using c(2) by (simp add: chunk_ok_def fresh_runner_def)
qed

text \<open>
  C10. Every runner of a job can be served by every block of the heap. For a file whose preferred
  block size is a power of two, with a heap of blocks at least twice as large: \<open>giveBuffer\<close> fails none of
  its assertions, stores the first aligned address of the block, and the whole read of the chunk,
  rounded up to the file system's block size as \<open>O_DIRECT\<close> asks for, stays inside the block. The
  chunk also meets all conditions under which the runner copies it correctly.
\<close>

theorem chunk_fits_block:
  assumes "addable st q" "addCopyJob nd os lost from dest st q w = Inr (q', w')"
    and "r \<in> set (drop (length (copiesPendingStart q)) (copiesPendingStart q'))"
    and "block_serves a q" "stx_blksize st = 2 ^ a" "length src = unat (stx_size st)" "stx_size st \<noteq> 0"
    and "p \<in> held (copyBufferHeap q')"
  shows "\<exists>t al. runners q' r = Some t \<and> chunk_ok src t \<and>
    giveBuffer nd r p q' = Inr (q'\<lparr>runners := (runners q')(r \<mapsto> t\<lparr>buffer := p, bufferAligned := al\<rparr>)\<rparr>) \<and>
    2 ^ a dvd unat al \<and> unat p \<le> unat al \<and>
    unat al + unat (round_up (word_of_int (cr_size t)) (cr_alignment t)) \<le> unat p + unat (getBlockSize q)"
proof -
  note run = addCopyJob_runner [OF assms(1-3)]
  obtain o1 k where mem: "(o1, k) \<in> set (job_chunks st q)"
    and t: "runners q' r = Some (fresh_runner (next_object q) (next_object q + 1) (job_alignment st) (next_object q + 2) (int o1, int k))"
    using run(2) by blast
  let ?t = "fresh_runner (next_object q) (next_object q + 1) (2 ^ a) (next_object q + 2) (int o1, int k)"
  note c = job_chunk [OF assms(1) mem assms(4-7)]
  have serve: "block_serves a q'" using assms(4) run(1)
    by (simp add: block_serves_def getHeapAlignment_def getBlockSize_def)
  have same: "chunk_size (2 ^ a) q' = chunk_size (2 ^ a) q" by (rule chunk_size_cong [OF run(1)])
  have t': "runners q' r = Some ?t" using t c(1) by simp
  have kc: "int k \<le> uint (chunk_size (2 ^ a) q)" using c(3) unfolding uint_nat of_nat_le_iff .
  have give: "giveBuffer nd r p q' =
      Inr (q'\<lparr>runners := (runners q')(r \<mapsto> ?t\<lparr>buffer := p, bufferAligned := aligned_address p (2 ^ a)\<rparr>)\<rparr>)"
    by (rule giveBuffer_ok [OF serve assms(8) t']) (use c(2) kc same in simp_all)
  note fit = chunk_in_block [OF serve assms(8), unfolded same]
  have rd: "unat (round_up (word_of_int (int k)) (2 ^ a)) \<le> unat (chunk_size (2 ^ a) q)"
    by (rule rounded_read_fits [OF assms(4) c(2,3)])
  have bs: "getBlockSize q' = getBlockSize q" using run(1) by (simp add: getBlockSize_def)
  have "unat (aligned_address p (2 ^ a)) + unat (round_up (word_of_int (cr_size ?t)) (cr_alignment ?t))
      \<le> unat p + unat (getBlockSize q)" using fit(1) rd bs by simp
  then show ?thesis using t' give fit(2,3) c(4) by blast
qed

theorem chunk_fits_block_witness:
  "\<exists>q' w' r t al. addCopyJob False no_os (False, False) ''a'' ''b'' big_stat small_queue () = Inr (q', w') \<and>
     r \<in> set (copiesPendingStart q') \<and> runners q' r = Some t \<and> chunk_ok (replicate 10000 CHR ''x'') t \<and>
     giveBuffer False r 8192 q' = Inr (q'\<lparr>runners := (runners q')(r \<mapsto> t\<lparr>buffer := 8192, bufferAligned := al\<rparr>)\<rparr>) \<and>
     unat al + unat (round_up (word_of_int (cr_size t)) (cr_alignment t)) \<le> 16384"
proof -
  obtain q' w' rs where q': "addCopyJob False no_os (False, False) ''a'' ''b'' big_stat small_queue () = Inr (q', w')"
      "copiesPendingStart q' = rs" "rs \<noteq> []"
    using addCopyJob_eq [OF small_addable, of False no_os "(False, False)" "''a''" "''b''" "()"]
      job_chunks_facts(3) [OF small_addable] by (metis append_is_Nil_conv length_0_conv length_upt parts_added_fields(2) add_diff_cancel_left')
  have none: "copiesPendingStart small_queue = []" by (simp add: small_queue_def CopyQueue_init_def)
  have st: "stx_blksize big_stat = 2 ^ 9" "stx_size big_stat \<noteq> 0" "unat (stx_size big_stat) = 10000"
    by (simp_all add: big_stat_def)
  have b: "block_serves 9 small_queue"
    unfolding block_serves_def
    by (intro conjI exI [of _ 12])
      (simp_all add: heap_wf_def getHeapAlignment_def getBlockSize_def small_queue_def CopyQueue_init_def)
  have r: "hd rs \<in> set (drop (length (copiesPendingStart small_queue)) (copiesPendingStart q'))"
    using q'(2,3) none by simp
  have "block_addr (copyBufferHeap small_queue) 0 \<in> held (copyBufferHeap small_queue)"
    unfolding held_def by (rule imageI) (simp add: held_idx_def small_queue_def CopyQueue_init_def)
  then have p: "8192 \<in> held (copyBufferHeap q')"
    unfolding addCopyJob_runner(1) [OF small_addable q'(1) r]
    by (simp add: block_addr_def small_queue_def CopyQueue_init_def)
  have bs: "getBlockSize small_queue = 8192" by (simp add: getBlockSize_def small_queue_def CopyQueue_init_def)
  obtain t al where "runners q' (hd rs) = Some t" "chunk_ok (replicate 10000 CHR ''x'') t"
    "giveBuffer False (hd rs) 8192 q' = Inr (q'\<lparr>runners := (runners q')(hd rs \<mapsto> t\<lparr>buffer := 8192, bufferAligned := al\<rparr>)\<rparr>)"
    "unat al + unat (round_up (word_of_int (cr_size t)) (cr_alignment t)) \<le> 16384"
    using chunk_fits_block [OF small_addable q'(1) r b st(1) _ st(2) p, of "replicate 10000 CHR ''x''"] st(3) bs by auto
  then show ?thesis using q' by (intro exI [of _ q'] exI [of _ w'] exI [of _ "hd rs"] exI [of _ t] exI [of _ al]) simp
qed

text \<open>
  A file system with blocks larger than those of the heap: the subtraction wraps around, the size of
  a chunk is far beyond that of a block, and the assertion that it is positive holds.
\<close>

lemma chunk_size_wraps:
  "chunk_size 0x10000 small_queue = 0xFFFFFFFFFFFF0000"
  by (simp add: chunk_size_def getHeapAlignment_def getBlockSize_def small_queue_def CopyQueue_init_def Let_def)

end
