(* ===== verification/Copy_Submit.thy ===== *)
theory Copy_Submit
  imports Copy_Jobs Uring_Submit Uring_Setup
begin

text \<open>
  The life of a \<open>CopyQueue\<close> (\<open>src/CopyQueue.cpp\<close>): construction, \<open>start\<close>, the loop of the
  submit thread, \<open>join\<close> and destruction. The loop is given piece by piece: one turn of the loop that
  adds runners to the batch, the system call that submits the batch, one turn of the loop that reaps
  completions, and the exit. \<open>submitLoop_iteration\<close> composes them as one pass of the \<open>while (true)\<close>
  loop does. The theory \<open>Copy_Invariant\<close> interleaves the pieces with the other thread and the kernel.
\<close>

section \<open>Construction and destruction\<close>

text \<open>
  \<open>contents\<close> is the view of the memory that the new ring is mapped to.
\<close>

definition CopyQueue_ctor ::
  "'w sys_setup \<Rightarrow> 'w sys_mmap \<Rightarrow> 'w sys_munmap \<Rightarrow> (int \<Rightarrow> 'w \<Rightarrow> 'w) \<Rightarrow> (ring_map \<Rightarrow> 'w \<Rightarrow> io_uring) \<Rightarrow>
     u64 \<Rightarrow> u64 \<Rightarrow> Heap \<Rightarrow> 'w \<Rightarrow> (CopyQueue \<times> ring_map \<times> 'w) outcome" where
  "CopyQueue_ctor su mmap munmap close contents requestedRingSize cap heap w =
     (let q = CopyQueue_init cap (fst (Heap_move heap)) empty_ring 0
      in release_assert ''this->fileDescriptorCap >= CopyQueue::minimumFileDescriptorCap()''
           (fileDescriptorCap q \<ge> minimumFileDescriptorCap)
        (case io_uring_queue_init_params su mmap munmap close (ucast requestedRingSize) zero_ring zero_params w of
           (ret, rm, params, w) \<Rightarrow>
             release_assert ''io_uring_queue_init_params(requestedRingSize, &this->ring, &params) == 0'' (ret = 0)
               (Inr (q\<lparr>ring := contents rm w, ringSize := ucast (p_sq_entries params)\<rparr>, rm, w))))"

text \<open>
  \<open>destroyed\<close> is the result of \<open>pthread_mutex_destroy\<close>; the heap is destroyed as a member, and the
  address it frees is returned with the world.
\<close>

definition CopyQueue_dtor ::
  "bool \<Rightarrow> 'w sys_munmap \<Rightarrow> (int \<Rightarrow> 'w \<Rightarrow> 'w) \<Rightarrow> int \<Rightarrow> ring_map \<Rightarrow> CopyQueue \<Rightarrow> 'w \<Rightarrow> (u64 \<times> 'w) outcome" where
  "CopyQueue_dtor ndebug munmap close destroyed rm q w =
     (let w = io_uring_queue_exit munmap close (sq_kring_entries (ring_sq (ring q))) rm w
      in debug_assert ndebug ''ret == 0'' (destroyed = 0)
        (and_then (Heap_dtor ndebug (copyBufferHeap q)) (\<lambda>p. Inr (p, w))))"

definition exitProcess :: "CopyQueue \<Rightarrow> int" where
  "exitProcess q = of_bool (errored q)"

section \<open>The submit thread\<close>

text \<open>The local variables of \<open>submitLoop\<close>, with the queue and the world it works on.\<close>

record 'w submitter =
  queue :: CopyQueue
  world :: 'w
  nextBuffer :: u64
  copiesPendingContinue :: "nat list"
  runnersAdded :: int

definition submitter_init :: "CopyQueue \<Rightarrow> 'w \<Rightarrow> 'w submitter" where
  "submitter_init q w = \<lparr>queue = q, world = w, nextBuffer = 0, copiesPendingContinue = [], runnersAdded = 0\<rparr>"

text \<open>The condition under which the adding loop does not \<open>break\<close>.\<close>

definition may_add :: "'w submitter \<Rightarrow> bool" where
  "may_add s =
     (let q = queue s;
          waitingForStart = ucast (copiesPendingStartCount q) + of_nat (length (copiesPendingContinue s)) :: u64;
          rateLimited = (ringSize q - ucast (submissionsRunning q) < of_nat MAX_JOBS_PER_RUNNER);
          waitForDirectoryIteration = (q_state q = Running \<and> totalBytesCopied q \<ge> totalBytesToCopy q div 8)
      in \<not> (waitingForStart = 0 \<or> rateLimited \<or> waitForDirectoryIteration))"

definition fetch_buffer :: "'w submitter \<Rightarrow> 'w submitter" where
  "fetch_buffer s =
     (if nextBuffer s = 0 then
        (case getBlock (copyBufferHeap (queue s)) of
           (h, p) \<Rightarrow> s\<lparr>queue := (queue s)\<lparr>copyBufferHeap := h\<rparr>, nextBuffer := (case p of None \<Rightarrow> 0 | Some p \<Rightarrow> p)\<rparr>)
      else s)"

definition pick_continue :: "bool \<Rightarrow> 'w submitter \<Rightarrow> (nat option \<times> 'w submitter) outcome" where
  "pick_continue ndebug s =
     (case copiesPendingContinue s of
        [] \<Rightarrow> Inr (None, s)
      | toAdd # rest \<Rightarrow>
          with_runner toAdd (queue s) (\<lambda>this.
          debug_assert ndebug ''!toAdd->needsBuffer()'' (\<not> needsBuffer this)
            (Inr (Some toAdd, s\<lparr>copiesPendingContinue := rest\<rparr>))))"

text \<open>The block under the mutex, for a thread that has a buffer and sees a waiting runner.\<close>

definition pick_start :: "bool \<Rightarrow> 'w submitter \<Rightarrow> (nat option \<times> 'w submitter) outcome" where
  "pick_start ndebug s =
     (let q = queue s
      in if nextBuffer s \<noteq> 0 \<and> copiesPendingStartCount q > 0 then
           debug_assert ndebug ''!this->copiesPendingStart.empty()'' (copiesPendingStart q \<noteq> [])
             (case copiesPendingStart q of
                [] \<Rightarrow> Inl (UndefinedBehaviour ''copiesPendingStart.front()'')
              | temp # rest \<Rightarrow>
                  and_then (let outOfFds = (fileDescriptorCap q - fileDescriptorsUsed q < RESERVED_HIGH_PRIORITY_FD_COUNT)
                            in if \<not> outOfFds then Inr True
                               else and_then (needsFileDescriptors temp q) (\<lambda>needs. Inr (\<not> needs))) (\<lambda>ready.
                  if ready then
                    with_runner temp q (\<lambda>this.
                    and_then (if needsBuffer this
                              then and_then (giveBuffer ndebug temp (nextBuffer s) q) (\<lambda>q.
                                     Inr (s\<lparr>queue := q, nextBuffer := 0\<rparr>))
                              else Inr s) (\<lambda>s.
                    Inr (Some temp, s\<lparr>queue := (queue s)\<lparr>copiesPendingStart := rest,
                           copiesPendingStartCount := copiesPendingStartCount (queue s) - 1\<rparr>\<rparr>)))
                  else Inr (None, s)))
         else Inr (None, s))"

definition pick_runner :: "bool \<Rightarrow> 'w submitter \<Rightarrow> (nat option \<times> 'w submitter) outcome" where
  "pick_runner ndebug s =
     and_then (pick_continue ndebug (fetch_buffer s)) (\<lambda>(toAdd, s).
       if toAdd = None then pick_start ndebug s else Inr (toAdd, s))"

definition report :: "Result \<Rightarrow> CopyQueue \<Rightarrow> CopyQueue" where
  "report result q = (case result of Inl e \<Rightarrow> onError e q | Inr _ \<Rightarrow> q)"

text \<open>A file without bytes: the destination is opened and closed.\<close>

definition add_empty :: "Config \<Rightarrow> 'w os \<Rightarrow> nat \<Rightarrow> 'w submitter \<Rightarrow> (bool \<times> 'w submitter) outcome" where
  "add_empty cfg os toAdd s =
     with_runner toAdd (queue s) (\<lambda>this.
     and_then (ensureOpened (NDEBUG cfg) os (destFd this) (queue s) (world s)) (\<lambda>(result, q, w).
     and_then (case result of Inl e \<Rightarrow> Inr (Inl e, q, w) | Inr _ \<Rightarrow> handleFileClose (NDEBUG cfg) os toAdd q w)
       (\<lambda>(result, q, w).
     and_then (CopyRunner_delete (NDEBUG cfg) toAdd (report result q)) (\<lambda>q.
     Inr (False, s\<lparr>queue := q, world := w\<rparr>)))))"

text \<open>Any other runner is added to the batch. The result is \<open>doneAdding\<close>.\<close>

definition add_copy :: "Config \<Rightarrow> 'w os \<Rightarrow> nat \<Rightarrow> 'w submitter \<Rightarrow> (bool \<times> 'w submitter) outcome" where
  "add_copy cfg os toAdd s =
     and_then (addToBatch cfg os toAdd (queue s) (world s)) (\<lambda>(result, q, w).
     case result of
       Inl e \<Rightarrow> and_then (CopyRunner_delete (NDEBUG cfg) toAdd q) (\<lambda>q.
                  Inr (True, s\<lparr>queue := onError e q, world := w\<rparr>))
     | Inr _ \<Rightarrow> Inr (False, s\<lparr>queue := q, world := w, runnersAdded := runnersAdded s + 1\<rparr>))"

definition adding_turn :: "Config \<Rightarrow> 'w os \<Rightarrow> 'w submitter \<Rightarrow> (bool \<times> 'w submitter) outcome" where
  "adding_turn cfg os s =
     (if may_add s then
        and_then (pick_runner (NDEBUG cfg) s) (\<lambda>(toAdd, s).
          case toAdd of
            None \<Rightarrow> Inr (True, s)
          | Some toAdd \<Rightarrow>
              with_runner toAdd (queue s) (\<lambda>this.
                if cr_size this = 0 then add_empty cfg os toAdd s else add_copy cfg os toAdd s))
      else Inr (True, s))"

partial_function (option) adding_loop :: "Config \<Rightarrow> 'w os \<Rightarrow> 'w submitter \<Rightarrow> 'w submitter outcome option" where
  "adding_loop cfg os s =
     (case adding_turn cfg os s of
        Inl a \<Rightarrow> Some (Inl a)
      | Inr (doneAdding, s) \<Rightarrow> if doneAdding then Some (Inr s) else adding_loop cfg os s)"

partial_function (option) submit_retry :: "'w sys_enter \<Rightarrow> io_uring \<Rightarrow> 'w \<Rightarrow> (int \<times> io_uring \<times> 'w) option" where
  "submit_retry enter rng w =
     (case io_uring_submit enter rng w of (ret, rng, w) \<Rightarrow>
        if ret = - EAGAIN \<or> ret = - EINTR then submit_retry enter rng w else Some (ret, rng, w))"

definition submit_batch :: "'w sys_enter \<Rightarrow> 'w submitter \<Rightarrow> 'w submitter outcome" where
  "submit_batch enter s =
     (if runnersAdded s \<noteq> 0 then
        and_then (returned ''io_uring_submit'' (submit_retry enter (ring (queue s)) (world s))) (\<lambda>(ret, rng, w).
        release_assert ''ret > 0'' (ret > 0)
          (Inr (s\<lparr>queue := (queue s)\<lparr>ring := rng\<rparr>, world := w\<rparr>)))
      else Inr s)"

text \<open>What the submit thread does with the verdict of a runner on a completion.\<close>

definition settle :: "Config \<Rightarrow> 'w os \<Rightarrow> nat \<Rightarrow> RunnerResult \<Rightarrow> 'w submitter \<Rightarrow> 'w submitter outcome" where
  "settle cfg os r runnerResult s =
     (case runnerResult of
        FinishedTag \<Rightarrow>
          and_then (handleFileClose (NDEBUG cfg) os r (queue s) (world s)) (\<lambda>(closeResult, q, w).
          with_runner r q (\<lambda>this.
          let q = report closeResult q;
              q = q\<lparr>etaCalulator := onCopyCompleted (word_of_int (cr_size this)) (etaCalulator q)\<rparr>
          in and_then (CopyRunner_delete (NDEBUG cfg) r q) (\<lambda>q. Inr (s\<lparr>queue := q, world := w\<rparr>))))
      | RunnerError e \<Rightarrow>
          and_then (CopyRunner_delete (NDEBUG cfg) r (onError e (queue s))) (\<lambda>q. Inr (s\<lparr>queue := q\<rparr>))
      | RescheduleTag \<Rightarrow> Inr (s\<lparr>copiesPendingContinue := copiesPendingContinue s @ [r]\<rparr>)
      | ContinueTag \<Rightarrow> Inr s)"

text \<open>One turn of the reaping loop: whether the loop goes on, and the state.\<close>

definition complete_turn :: "Config \<Rightarrow> 'w os \<Rightarrow> 'w sys_enter \<Rightarrow> 'w submitter \<Rightarrow> (bool \<times> 'w submitter) outcome" where
  "complete_turn cfg os enter s =
     (if submissionsRunning (queue s) = 0 then Inr (False, s)
      else
        and_then (returned ''io_uring_peek_cqe'' (io_uring_peek_cqe enter (ring (queue s)) (world s)))
          (\<lambda>(err, cqe, rng, w).
        let s = s\<lparr>queue := (queue s)\<lparr>ring := rng\<rparr>, world := w\<rparr>
        in release_assert ''err == 0 || err == -EINTR || err == -EAGAIN'' (err = 0 \<or> err = - EINTR \<or> err = - EAGAIN)
          (if err \<noteq> 0 then Inr (False, s)
           else case cqe of
             None \<Rightarrow> Inl (UndefinedBehaviour ''cqe->user_data'')
           | Some i \<Rightarrow>
               (let e = cq_cqes (ring_cq rng) ! i; ptr = cqe_user_data e; r = event_runner ptr
                in and_then (onCompletionEvent cfg os r (event_type ptr) (cqe_res e) (queue s) w)
                     (\<lambda>(runnerResult, q, w).
                   and_then (settle cfg os r runnerResult (s\<lparr>queue := q, world := w\<rparr>)) (\<lambda>s.
                   let q = queue s
                   in Inr (True, s\<lparr>queue := q\<lparr>ring := io_uring_cqe_seen (ring q) (Some i),
                                submissionsRunning := submissionsRunning q - 1\<rparr>\<rparr>)))))))"

partial_function (option) complete_loop ::
  "Config \<Rightarrow> 'w os \<Rightarrow> 'w sys_enter \<Rightarrow> 'w submitter \<Rightarrow> 'w submitter outcome option" where
  "complete_loop cfg os enter s =
     (case complete_turn cfg os enter s of
        Inl a \<Rightarrow> Some (Inl a)
      | Inr (again, s) \<Rightarrow> if again then complete_loop cfg os enter s else Some (Inr s))"

text \<open>The end of a pass: the thread goes on, ends the process with a status, or returns.\<close>

datatype pass_end = NextPass | ProcessExit int | ThreadReturn

definition submit_exit :: "Config \<Rightarrow> 'w submitter \<Rightarrow> (pass_end \<times> 'w submitter) outcome" where
  "submit_exit cfg s =
     (let q = queue s
      in if isDone q then
           (if completionAction q = ExitProcessNoCleanup \<and> \<not> showingProgress q
            then Inr (ProcessExit (exitProcess q), s)
            else and_then
              (if nextBuffer s \<noteq> 0
               then and_then (returnBlock (NDEBUG cfg) (nextBuffer s) (copyBufferHeap q)) (\<lambda>h.
                      Inr (s\<lparr>queue := q\<lparr>copyBufferHeap := h\<rparr>\<rparr>))
               else Inr s) (\<lambda>s. Inr (ThreadReturn, s)))
         else Inr (NextPass, s))"

definition submitLoop_iteration ::
  "Config \<Rightarrow> 'w os \<Rightarrow> 'w sys_enter \<Rightarrow> 'w submitter \<Rightarrow> (pass_end \<times> 'w submitter) outcome" where
  "submitLoop_iteration cfg os enter s =
     and_then (returned ''while (!doneAdding)'' (adding_loop cfg os (s\<lparr>runnersAdded := 0\<rparr>))) (\<lambda>result.
     and_then result (\<lambda>s.
     and_then (submit_batch enter s) (\<lambda>s.
     and_then (returned ''while (this->submissionsRunning)'' (complete_loop cfg os enter s)) (\<lambda>result.
     and_then result (submit_exit cfg)))))"

section \<open>start and join\<close>

text \<open>
  The results of the two calls of \<open>pthread_create\<close>, of \<open>isatty(STDERR_FILENO)\<close>, and whether
  \<open>TERM\<close> is set, are arguments. \<open>Config::PROGRESS_DEBUG_SIMPLE\<close> is a constant \<open>false\<close>.
\<close>

definition start :: "int \<Rightarrow> int \<Rightarrow> bool \<Rightarrow> bool \<Rightarrow> CopyQueue \<Rightarrow> CopyQueue outcome" where
  "start createdSubmit createdProgress tty term q =
     release_assert ''this->state == State::Idle'' (q_state q = Idle)
    (let q = q\<lparr>q_state := Running\<rparr>
     in release_assert ''pthread_create(&this->submitThread, ...) == 0'' (createdSubmit = 0)
       (let q = q\<lparr>showingProgress := tty \<and> term\<rparr>
        in if showingProgress q
           then release_assert ''pthread_create(&this->showProgressThread, ...) == 0'' (createdProgress = 0) (Inr q)
           else Inr q))"

text \<open>\<open>join\<close> before and after it waits for the submit thread.\<close>

definition join_begin :: "bool \<Rightarrow> OnCompletionAction \<Rightarrow> CopyQueue \<Rightarrow> CopyQueue outcome" where
  "join_begin ndebug onCompletionAction q =
     debug_assert ndebug ''this->state == State::Running'' (q_state q = Running)
       (Inr (q\<lparr>q_state := AdditionComplete, completionAction := onCompletionAction\<rparr>))"

definition join_end :: "bool \<Rightarrow> CopyQueue \<Rightarrow> (bool \<times> CopyQueue) outcome" where
  "join_end ndebug q =
     debug_assert ndebug ''this->submissionsRunning == 0'' (submissionsRunning q = 0)
    (debug_assert ndebug ''this->copyBufferHeap.getFreeBlocksCount() == this->copyBufferHeap.getBlockCount()''
       (getFreeBlocksCount (copyBufferHeap q) = blocks (copyBufferHeap q))
    (Inr (\<not> errored q,
       q\<lparr>q_state := Idle, totalBytesToCopy := 0, totalBytesCopied := 0, totalBytesFailed := 0, errored := False\<rparr>)))"

end
