(* ===== verification/Copy_Effects.thy ===== *)
theory Copy_Effects
  imports Copy_Submit
begin

text \<open>
  What the operations that the submit thread calls do to the queue, stated as relations between the
  queue before and after: the operations on files are \<open>quiet\<close> (they touch no runner, counter, block
  or ring), \<open>addToBatch\<close> queues requests of one runner, a completion changes one runner, and
  \<open>CopyRunner_delete\<close> removes one. The invariant of \<open>Copy_Invariant\<close> rests on these lemmas only.
\<close>

section \<open>Inversion of successful steps\<close>

text \<open>When a step that branches on a value succeeds, it took one of the branches.\<close>

lemma case_sum_Inr:
  "(case x of Inl e \<Rightarrow> f e | Inr y \<Rightarrow> g y) = (Inr r :: 'a outcome) \<longleftrightarrow>
     (\<exists>e. x = Inl e \<and> f e = Inr r) \<or> (\<exists>y. x = Inr y \<and> g y = Inr r)"
  by (cases x) auto

lemma case_prod_Inr: "(case x of (a, b) \<Rightarrow> f a b) = (Inr r :: 'a outcome) \<longleftrightarrow> (\<exists>a b. x = (a, b) \<and> f a b = Inr r)"
  by (cases x) auto

lemma case_option_Inr:
  "(case x of None \<Rightarrow> k | Some y \<Rightarrow> g y) = (Inr r :: 'a outcome) \<longleftrightarrow>
     (x = None \<and> k = Inr r) \<or> (\<exists>y. x = Some y \<and> g y = Inr r)"
  by (cases x) auto

lemma if_Inr: "(if c then a else b) = (Inr r :: 'a outcome) \<longleftrightarrow> (c \<and> a = Inr r) \<or> (\<not> c \<and> b = Inr r)"
  by simp

lemma with_runner_Inr: "with_runner r q k = Inr x \<longleftrightarrow> (\<exists>t. runners q r = Some t \<and> k t = Inr x)"
  by (simp add: with_runner_def outcome_simps)

lemmas effect_simps = outcome_simps case_sum_Inr case_prod_Inr case_option_Inr if_Inr with_runner_Inr

section \<open>Quiet operations\<close>

definition calm :: "CopyQueue \<Rightarrow> CopyQueue \<Rightarrow> bool" where
  "calm q q' \<longleftrightarrow>
     counters q' = counters q \<and> dom (fds q') = dom (fds q) \<and> copyBufferHeap q' = copyBufferHeap q \<and>
     ringSize q' = ringSize q \<and> copiesPendingStart q' = copiesPendingStart q \<and>
     copiesPendingStartCount q' = copiesPendingStartCount q \<and> keepAliveCount q' = keepAliveCount q \<and>
     next_object q' = next_object q \<and> q_state q' = q_state q \<and> (errored q \<longrightarrow> errored q')"

definition quiet :: "CopyQueue \<Rightarrow> CopyQueue \<Rightarrow> bool" where
  "quiet q q' \<longleftrightarrow> calm q q' \<and> runners q' = runners q \<and> ring q' = ring q \<and>
     submissionsRunning q' = submissionsRunning q"

lemma quiet_refl [simp]: "quiet q q"
  by (simp add: quiet_def calm_def)

lemma quiet_trans: "quiet q1 q2 \<Longrightarrow> quiet q2 q3 \<Longrightarrow> quiet q1 q3"
  by (simp add: quiet_def calm_def)

lemma doOpen_quiet: "doOpen os d q w = Inr (r, q', w') \<Longrightarrow> quiet q q'"
  by (auto simp: quiet_def calm_def elim!: doOpen_cases split: if_splits)

lemma ensureOpened_quiet:
  assumes "ensureOpened nd os d q w = Inr (r, q', w')"
  shows "quiet q q'"
proof -
  have *: "quiet q q'" if "doOpen os d (q\<lparr>fileDescriptorsUsed := n\<rparr>) w = Inr (r, q', w')" for n
    using doOpen_quiet [OF that] by (simp add: quiet_def calm_def)
  show ?thesis
    using assms by (auto simp: ensureOpened_def outcome_simps reserve_loop_eq split: if_splits dest!: *)
qed

lemma close_if_open_quiet: "close_if_open nd os d (res, q, w) = Inr (r, q', w') \<Longrightarrow> quiet q q'"
  by (auto simp: close_if_open_def effect_simps notifyClosed_def Let_def quiet_def calm_def split: if_splits)

lemma handleFileClose_quiet: "handleFileClose nd os r q w = Inr (res, q', w') \<Longrightarrow> quiet q q'"
  by (auto simp: handleFileClose_def effect_simps dest!: close_if_open_quiet intro: quiet_trans)

lemma cleanupOnError_quiet: "cleanupOnError nd os r q w = Inr (q', w') \<Longrightarrow> quiet q q'"
  by (auto simp: cleanupOnError_def effect_simps dest: handleFileClose_quiet)

lemma onError_quiet [simp]: "quiet q (onError e q)"
  by (simp add: onError_def quiet_def calm_def Let_def)

lemma report_quiet [simp]: "quiet q (report res q)"
  by (simp add: report_def split: sum.splits)

lemma open_files_quiet: "open_files nd os this q w = Inr (r, q', w') \<Longrightarrow> quiet q q'"
  by (auto simp: open_files_def effect_simps dest!: ensureOpened_quiet intro: quiet_trans)

text \<open>The kernel's requests in flight are not touched by the system calls outside the ring.\<close>

definition os_keeps :: "('w \<Rightarrow> 'f) \<Rightarrow> 'w os \<Rightarrow> bool" where
  "os_keeps flight os \<longleftrightarrow>
     (\<forall>p f m w. flight (snd (snd (os_open os p f m w))) = flight w) \<and>
     (\<forall>fd w. flight (snd (snd (os_close os fd w))) = flight w) \<and>
     (\<forall>w. flight (snd (os_rand os w)) = flight w)"

lemma myOpen_keeps:
  assumes "os_keeps flight os" "myOpen os p f m w = (r, w')"
  shows "flight w' = flight w"
proof -
  have loop: "flight (snd (snd (myOpen_loop os n p f m x))) = flight (snd (snd x))" for n f x
  proof (induction n arbitrary: f x)
    case 0
    then show ?case by (cases x) simp
  next
    case (Suc n)
    obtain fd errno w0 where x: "x = (fd, errno, w0)" by (cases x)
    have "flight (snd (snd (os_open os (c_str p) f m w0))) = flight w0" using assms(1) by (simp add: os_keeps_def)
    then show ?case by (auto simp: x Suc.IH Let_def split: prod.splits)
  qed
  show ?thesis
    using assms(2) loop [of 5 f "(-1, 0, w)"] by (auto simp: myOpen_def split: prod.splits if_splits)
qed

lemma doOpen_keeps:
  "os_keeps flight os \<Longrightarrow> doOpen os d q w = Inr (r, q', w') \<Longrightarrow> flight w' = flight w"
  by (auto simp: doOpen_def effect_simps dest: myOpen_keeps)

lemma ensureOpened_keeps:
  "os_keeps flight os \<Longrightarrow> ensureOpened nd os d q w = Inr (r, q', w') \<Longrightarrow> flight w' = flight w"
  by (auto simp: ensureOpened_def effect_simps dest: doOpen_keeps)

lemma myClose_keeps:
  assumes "os_keeps flight os" "myClose os fd w = (r, w')"
  shows "flight w' = flight w"
proof -
  have "flight (snd (snd (os_close os fd w))) = flight w" using assms(1) by (simp add: os_keeps_def)
  then show ?thesis using assms(2) by (auto simp: myClose_def split: prod.splits if_splits)
qed

lemma close_if_open_keeps:
  "os_keeps flight os \<Longrightarrow> close_if_open nd os d (res, q, w) = Inr (r, q', w') \<Longrightarrow> flight w' = flight w"
  by (auto simp: close_if_open_def effect_simps Let_def dest: myClose_keeps)

lemma handleFileClose_keeps:
  assumes "os_keeps flight os" "handleFileClose nd os r q w = Inr (res, q', w')"
  shows "flight w' = flight w"
  using assms(2) by (auto simp: handleFileClose_def effect_simps dest!: close_if_open_keeps [OF assms(1)])

lemma cleanupOnError_keeps:
  "os_keeps flight os \<Longrightarrow> cleanupOnError nd os r q w = Inr (q', w') \<Longrightarrow> flight w' = flight w"
  by (auto simp: cleanupOnError_def effect_simps dest: handleFileClose_keeps)

lemma open_files_keeps:
  assumes "os_keeps flight os" "open_files nd os this q w = Inr (r, q', w')"
  shows "flight w' = flight w"
  using assms(2) by (auto simp: open_files_def effect_simps dest!: ensureOpened_keeps [OF assms(1)])

section \<open>Requests\<close>

text \<open>The fields of a runner that no request and no completion changes.\<close>

definition same_job :: "CopyRunner \<Rightarrow> CopyRunner \<Rightarrow> bool" where
  "same_job t t' \<longleftrightarrow> sourceFd t' = sourceFd t \<and> destFd t' = destFd t \<and> cr_offset t' = cr_offset t \<and>
     cr_size t' = cr_size t \<and> cr_alignment t' = cr_alignment t \<and> chunksRemaining t' = chunksRemaining t \<and>
     buffer t' = buffer t"

text \<open>The runner at \<open>r\<close> has queued the requests \<open>es\<close>.\<close>

definition batched :: "nat \<Rightarrow> nat \<Rightarrow> io_uring_sqe list \<Rightarrow> CopyQueue \<Rightarrow> CopyQueue \<Rightarrow> bool" where
  "batched n r es q q' \<longleftrightarrow> calm q q' \<and> sq_inv n (ring_sq (ring q')) \<and> ring_cq (ring q') = ring_cq (ring q) \<and>
     sq_kflags (ring_sq (ring q')) = sq_kflags (ring_sq (ring q)) \<and>
     sq_queued (ring_sq (ring q')) = sq_queued (ring_sq (ring q)) @ es \<and>
     sq_visible (ring_sq (ring q')) = sq_visible (ring_sq (ring q)) \<and>
     submissionsRunning q' = submissionsRunning q + of_nat (length es) \<and>
     (\<exists>t t'. runners q r = Some t \<and> runners q' = (runners q)(r \<mapsto> t') \<and> same_job t t' \<and>
        savedError t' = savedError t \<and> writeOffset t' = writeOffset t \<and> jobsRunning t' = jobsRunning t + int (length es))"

lemma batched_Nil: "quiet q q' \<Longrightarrow> runners q r = Some t \<Longrightarrow> sq_inv n (ring_sq (ring q)) \<Longrightarrow> batched n r [] q q'"
  by (auto simp: batched_def quiet_def same_job_def fun_upd_idem intro!: exI [of _ t])

lemma batched_trans:
  assumes "batched n r es q q1" "batched n r es' q1 q'"
  shows "batched n r (es @ es') q q'"
proof -
  obtain t t1 where t: "runners q r = Some t" "runners q1 = (runners q)(r \<mapsto> t1)" "same_job t t1"
    "savedError t1 = savedError t" "writeOffset t1 = writeOffset t" "jobsRunning t1 = jobsRunning t + int (length es)"
    using assms(1) by (auto simp: batched_def)
  obtain t' where t': "runners q' = (runners q1)(r \<mapsto> t')" "same_job t1 t'"
    "savedError t' = savedError t1" "writeOffset t' = writeOffset t1" "jobsRunning t' = jobsRunning t1 + int (length es')"
    using assms(2) t(2) by (auto simp: batched_def)
  show ?thesis
    using assms t t' unfolding batched_def calm_def same_job_def by (intro conjI exI [of _ t] exI [of _ t']) simp_all
qed

lemma put_ring_kflags: "sq_inv n (ring_sq rng) \<Longrightarrow> length (sq_queued (ring_sq rng)) < 2 ^ n \<Longrightarrow>
    sq_kflags (ring_sq (put_ring req rng)) = sq_kflags (ring_sq rng)"
  using io_uring_get_sqe_sq_eq [of n "ring_sq rng"]
  by (simp add: put_ring_def sq_put_def sq_queued_def)

lemma put_ring_visible:
  assumes "sq_inv n (ring_sq rng)" "length (sq_queued (ring_sq rng)) < 2 ^ n"
  shows "sq_visible (ring_sq (put_ring req rng)) = sq_visible (ring_sq rng)"
proof -
  obtain sq' where sq': "sq_put (ring_sq rng) req = Some sq'"
    using sq_put_None_iff [OF assms(1), of req] assms(2) by (cases "sq_put (ring_sq rng) req") auto
  then show ?thesis using sq_put_visible [OF assms(1) sq'] by (simp add: put_ring_def)
qed

text \<open>Taking an entry, filling it, and possibly setting an override of the runner.\<close>

lemma put_batched:
  assumes "runners q r = Some t" "sq_inv n (ring_sq (ring q))" "length (sq_queued (ring_sq (ring q))) < 2 ^ n"
    and "runners q' = (runners q)(r \<mapsto> t')" "t' = t\<lparr>jobsRunning := jobsRunning t + 1, readOverride := a, writeOverride := b\<rparr>"
    and "ring q' = put_ring e (ring q)" "submissionsRunning q' = submissionsRunning q + 1" "calm q q'"
  shows "batched n r [e] q q'"
  using assms put_ring_queued [OF assms(2,3), of e] put_ring_kflags [OF assms(2,3), of e] put_ring_visible [OF assms(2,3), of e]
  unfolding batched_def by (intro conjI exI [of _ t] exI [of _ t']) (simp_all add: same_job_def)

lemma nop_fresh:
  "(io_uring_prep_nop s)\<lparr>sqe_user_data := u\<rparr> = (io_uring_prep_nop s')\<lparr>sqe_user_data := u\<rparr>"
  by (simp add: io_uring_prep_nop_def io_uring_prep_rw_def)

lemma request_user_data [simp]:
  "sqe_user_data (read_sqe t r fd k s) = event_ptr r Read" "sqe_user_data (write_sqe t r fd k s) = event_ptr r Write"
  "sqe_len (write_sqe t r fd k s) = k"
  by (simp_all add: read_sqe_def write_sqe_def io_uring_prep_write_def io_uring_prep_rw_def Let_def)

lemma getSqe_E:
  assumes "getSqe r q = Inr (i, q1)" "sq_inv n (ring_sq (ring q))" "length (sq_queued (ring_sq (ring q))) < 2 ^ n"
  obtains t where "runners q r = Some t" "runners q1 = (runners q)(r \<mapsto> t\<lparr>jobsRunning := jobsRunning t + 1\<rparr>)"
    "submissionsRunning q1 = submissionsRunning q + 1" "calm q q1" "fds q1 = fds q"
    "\<And>prep req. (\<And>s. prep s = req) \<Longrightarrow> fill_sqe i prep q1 = q1\<lparr>ring := put_ring req (ring q)\<rparr>"
proof -
  obtain t where t: "runners q r = Some t" using assms(1) by (auto simp: getSqe_def effect_simps)
  from getSqe_fill [OF t assms(2,3)] obtain i' q' where g: "getSqe r q = Inr (i', q')"
    "\<And>prep req. (\<And>s. prep s = req) \<Longrightarrow> fill_sqe i' prep q' = (count_job r q)\<lparr>ring := put_ring req (ring q)\<rparr>"
    by metis
  have q1: "q1 = (count_job r q)\<lparr>ring := ring q1\<rparr>"
    using assms(1) t by (auto simp: getSqe_def effect_simps Let_def count_job_def)
  have f: "fill_sqe i prep q1 = q1\<lparr>ring := put_ring req (ring q)\<rparr>" if "\<And>s. prep s = req" for prep req
  proof -
    have "fill_sqe i prep q1 = (count_job r q)\<lparr>ring := put_ring req (ring q)\<rparr>" using g assms(1) that by simp
    then show ?thesis by (subst (2) q1) simp
  qed
  have r: "runners q1 = (runners q)(r \<mapsto> t\<lparr>jobsRunning := jobsRunning t + 1\<rparr>)"
    "submissionsRunning q1 = submissionsRunning q + 1" "calm q q1" "fds q1 = fds q"
    using t by (subst q1; simp add: count_job_def calm_def)+
  show thesis using that [OF t r f] by blast
qed

lemma submit_read_batched:
  assumes "submit_read cfg r k forced q = Inr q'" "sq_inv n (ring_sq (ring q))"
    and "length (sq_queued (ring_sq (ring q))) < 2 ^ n"
  obtains e where "batched n r [e] q q'" "sqe_user_data e = event_ptr r Read"
proof -
  obtain i q1 where g: "getSqe r q = Inr (i, q1)" using assms(1) by (auto simp: submit_read_def effect_simps)
  obtain t where t: "runners q r = Some t" "runners q1 = (runners q)(r \<mapsto> t\<lparr>jobsRunning := jobsRunning t + 1\<rparr>)"
    "submissionsRunning q1 = submissionsRunning q + 1" "calm q q1"
    and fill: "\<And>prep req. (\<And>s. prep s = req) \<Longrightarrow> fill_sqe i prep q1 = q1\<lparr>ring := put_ring req (ring q)\<rparr>"
    using getSqe_E [OF g assms(2,3)] by metis
  let ?t = "t\<lparr>jobsRunning := jobsRunning t + 1\<rparr>"
  obtain fd where q': "q' = (let q2 = fill_sqe i (read_sqe t r fd (round_up k (cr_alignment t))) q1
      in if DEBUG_FORCE_PARTIAL_READS cfg \<and> forced
         then q2\<lparr>runners := (runners q2)(r \<mapsto> ?t\<lparr>readOverride := sint k\<rparr>)\<rparr> else q2)"
    using assms(1) g t(2) that
    by (cases "DEBUG_FORCE_PARTIAL_READS cfg \<and> forced") (auto simp: submit_read_def effect_simps Let_def)
  let ?e = "read_sqe t r fd (round_up k (cr_alignment t)) zero_sqe"
  have f: "fill_sqe i (read_sqe t r fd (round_up k (cr_alignment t))) q1 = q1\<lparr>ring := put_ring ?e (ring q)\<rparr>"
    by (rule fill) (rule read_sqe_fresh)
  have "batched n r [?e] q q'"
  proof (rule put_batched [OF t(1) assms(2,3) _ refl])
    show "runners q' = (runners q)(r \<mapsto> t\<lparr>jobsRunning := jobsRunning t + 1,
        readOverride := (if DEBUG_FORCE_PARTIAL_READS cfg \<and> forced then sint k else readOverride t),
        writeOverride := writeOverride t\<rparr>)"
      unfolding q' Let_def f using t(2) by simp
  qed (use t(3,4) in \<open>simp_all add: q' Let_def f calm_def\<close>)
  then show thesis using that by simp
qed

lemma submit_write_batched:
  assumes "submit_write cfg os r forced q w = Inr (q', w')" "sq_inv n (ring_sq (ring q))"
    and "length (sq_queued (ring_sq (ring q))) < 2 ^ n" "runners q r = Some t"
    and "writeOffset t \<le> cr_offset t + cr_size t"
  obtains e where "batched n r [e] q q'" "sqe_user_data e = event_ptr r Write"
    "uint (sqe_len e) \<le> cr_offset t + cr_size t - writeOffset t"
proof -
  obtain i q1 where g: "getSqe r q = Inr (i, q1)" using assms(1) by (auto simp: submit_write_def effect_simps)
  have t: "runners q1 = (runners q)(r \<mapsto> t\<lparr>jobsRunning := jobsRunning t + 1\<rparr>)"
    "submissionsRunning q1 = submissionsRunning q + 1" "calm q q1"
    and fill: "\<And>prep req. (\<And>s. prep s = req) \<Longrightarrow> fill_sqe i prep q1 = q1\<lparr>ring := put_ring req (ring q)\<rparr>"
    using getSqe_E [OF g assms(2,3)] assms(4) by (metis option.inject)+
  let ?t = "t\<lparr>jobsRunning := jobsRunning t + 1\<rparr>" and ?left = "cr_offset t + cr_size t - writeOffset t"
  show thesis
  proof (cases "DEBUG_FORCE_PARTIAL_READS cfg \<and> forced")
    case True
    let ?e = "(io_uring_prep_nop zero_sqe)\<lparr>sqe_user_data := event_ptr r Write\<rparr>"
    have f: "fill_sqe i (\<lambda>s. (io_uring_prep_nop s)\<lparr>sqe_user_data := event_ptr r Write\<rparr>) q1 = q1\<lparr>ring := put_ring ?e (ring q)\<rparr>"
      by (rule fill) (rule nop_fresh)
    have q': "q' = (q1\<lparr>ring := put_ring ?e (ring q)\<rparr>)\<lparr>runners := (runners q1)(r \<mapsto> ?t\<lparr>writeOverride := - ECANCELED\<rparr>)\<rparr>"
      using assms(1) g t(1) True f by (auto simp: submit_write_def effect_simps)
    have "batched n r [?e] q q'"
    proof (rule put_batched [OF assms(4,2,3) _ refl])
      show "runners q' = (runners q)(r \<mapsto> t\<lparr>jobsRunning := jobsRunning t + 1, readOverride := readOverride t,
          writeOverride := - ECANCELED\<rparr>)" unfolding q' using t(1) by simp
    qed (use t(2,3) in \<open>simp_all add: q' calm_def\<close>)
    then show thesis using that assms(5) by (simp add: io_uring_prep_nop_def io_uring_prep_rw_def)
  next
    case False
    obtain k fd where k: "k = (word_of_int ?left :: u32) \<or> (\<exists>x. k = x mod (word_of_int ?left + 1) \<and> word_of_int ?left + 1 \<noteq> (0 :: u32))"
      and q': "q' = fill_sqe i (write_sqe ?t r fd k) q1"
      using assms(1) g t(1) False by (auto simp: submit_write_def effect_simps Let_def)
    let ?e = "write_sqe ?t r fd k zero_sqe"
    have f: "q' = q1\<lparr>ring := put_ring ?e (ring q)\<rparr>" unfolding q' by (rule fill) (rule write_sqe_fresh)
    have "batched n r [?e] q q'"
    proof (rule put_batched [OF assms(4,2,3) _ refl])
      show "runners q' = (runners q)(r \<mapsto> t\<lparr>jobsRunning := jobsRunning t + 1, readOverride := readOverride t,
          writeOverride := writeOverride t\<rparr>)" unfolding f using t(1) by simp
    qed (use t(2,3) in \<open>simp_all add: f calm_def\<close>)
    moreover have "uint k \<le> ?left"
    proof -
      have "k \<le> word_of_int ?left"
        using k
      proof
        assume "\<exists>x. k = x mod (word_of_int ?left + 1) \<and> word_of_int ?left + 1 \<noteq> (0 :: u32)"
        then have "k < word_of_int ?left + 1" by (auto simp: word_less_nat_alt unat_mod unat_gt_0)
        then show ?thesis by (metis inc_le not_le)
      qed simp
      then have "uint k \<le> uint (word_of_int ?left :: u32)" by (simp add: word_le_def)
      also have "\<dots> \<le> ?left" unfolding uint_word_of_int by (rule zmod_le_nonneg_dividend) (use assms(5) in simp)
      finally show ?thesis .
    qed
    ultimately show thesis using that by simp
  qed
qed

text \<open>
  The requests that a successful \<open>addToBatch\<close> queues: a read or none, and a write of no more bytes
  than are missing in the destination.
\<close>

definition runner_batch :: "nat \<Rightarrow> CopyRunner \<Rightarrow> io_uring_sqe list \<Rightarrow> bool" where
  "runner_batch r t es \<longleftrightarrow> (\<exists>rd wr. (es = [wr] \<or> es = [rd, wr] \<and> sqe_user_data rd = event_ptr r Read) \<and>
     sqe_user_data wr = event_ptr r Write \<and> uint (sqe_len wr) \<le> cr_offset t + cr_size t - writeOffset t)"

lemma submit_write_keeps:
  assumes "os_keeps flight os" "submit_write cfg os r forced q w = Inr (q', w')"
  shows "flight w' = flight w"
proof -
  have "flight (snd (os_rand os w)) = flight w" using assms(1) by (simp add: os_keeps_def)
  then show ?thesis using assms(2) by (auto simp: submit_write_def effect_simps Let_def)
qed

lemma addToBatch_effect:
  assumes "addToBatch cfg os r q w = Inr (res, q', w')" "runners q r = Some t"
    and "sq_inv n (ring_sq (ring q))" "length (sq_queued (ring_sq (ring q))) + 2 \<le> 2 ^ n"
    and "writeOffset t < cr_offset t + cr_size t"
  shows "(\<exists>e. res = Inl e) \<and> quiet q q' \<or> res = Success \<and> (\<exists>es. runner_batch r t es \<and> batched n r es q q')"
proof -
  obtain res1 q1 w1 where o: "open_files (NDEBUG cfg) os t q w = Inr (res1, q1, w1)"
    using assms(1,2) by (auto simp: addToBatch_def submitReadWriteCommands_def effect_simps)
  note quiet = open_files_quiet [OF o]
  have q1: "runners q1 r = Some t" "ring q1 = ring q" using quiet assms(2) by (simp_all add: quiet_def)
  show ?thesis
  proof (cases res1)
    case (Inl e)
    obtain q2 where c: "cleanupOnError (NDEBUG cfg) os r q2 w1 = Inr (q', w')" "quiet q1 q2" "res = Inl e"
      using assms(1,2) o Inl
      by (auto simp: addToBatch_def submitReadWriteCommands_def effect_simps quiet_def calm_def Let_def)
    then show ?thesis using quiet cleanupOnError_quiet [OF c(1)] by (blast intro: quiet_trans)
  next
    case (Inr u)
    let ?left = "cr_offset t + cr_size t - readOffset t"
    obtain k w2 where kw: "(if DEBUG_FORCE_PARTIAL_READS cfg \<and> (word_of_int ?left :: u32) > 0
        then (case os_rand os w1 of (n, w) \<Rightarrow> (word_of_int n mod word_of_int ?left + 1, w))
        else (word_of_int ?left :: u32, w1)) = (k, w2)" by fastforce
    let ?forced = "uint k < ?left"
    obtain q2 where rd: "(if k \<noteq> 0 then submit_read cfg r k ?forced q1 else Inr q1) = Inr q2"
      and wr: "submit_write cfg os r ?forced q2 w2 = Inr (q', w')" and res: "res = Success"
    proof -
      have "submitReadWriteCommands cfg os r q w = Inr (res, q', w')"
        using assms(1,2) by (auto simp: addToBatch_def with_runner_Inr outcome_simps)
      then have "and_then (if k \<noteq> 0 then submit_read cfg r k ?forced q1 else Inr q1) (\<lambda>q.
          and_then (if writeOffset t < cr_offset t + cr_size t then submit_write cfg os r ?forced q w2 else Inr (q, w2))
            (\<lambda>(q, w). Inr (Success, q, w))) = Inr (res, q', w')"
        unfolding submitReadWriteCommands_def with_runner_def object_Some [of "runners q" r t, OF assms(2)] and_then.simps o Inr
          prod.case sum.case Let_def release_assert_Inr debug_assert_Inr kw by blast
      then show thesis using assms(5) that by (auto simp: and_then_Inr)
    qed
    have room: "sq_inv n (ring_sq (ring q1))" "length (sq_queued (ring_sq (ring q1))) < 2 ^ n"
      using assms(3,4) q1(2) by simp_all
    have start: "batched n r [] q q1" using quiet assms(2,3) by (rule batched_Nil)
    show ?thesis
    proof (cases "k = 0")
      case True
      then have q2: "q2 = q1" using rd by simp
      obtain e where e: "batched n r [e] q1 q'" "sqe_user_data e = event_ptr r Write"
        "uint (sqe_len e) \<le> cr_offset t + cr_size t - writeOffset t"
        using submit_write_batched [OF wr [unfolded q2] room q1(1)] assms(5) by auto
      then show ?thesis
        using batched_trans [OF start e(1)] res unfolding runner_batch_def by auto
    next
      case False
      then have "submit_read cfg r k ?forced q1 = Inr q2" using rd by simp
      then obtain e1 where e1: "batched n r [e1] q1 q2" "sqe_user_data e1 = event_ptr r Read"
        using submit_read_batched room by metis
      obtain t2 where t2: "runners q2 r = Some t2" "same_job t t2" "writeOffset t2 = writeOffset t"
        using e1(1) q1(1) by (auto simp: batched_def)
      have room2: "sq_inv n (ring_sq (ring q2))" "length (sq_queued (ring_sq (ring q2))) < 2 ^ n"
        using e1(1) assms(4) q1(2) by (simp_all add: batched_def)
      obtain e where e: "batched n r [e] q2 q'" "sqe_user_data e = event_ptr r Write"
        "uint (sqe_len e) \<le> cr_offset t + cr_size t - writeOffset t"
        using submit_write_batched [OF wr room2 t2(1)] assms(5) t2(2,3) by (auto simp: same_job_def)
      have "batched n r [e1, e] q q'" using batched_trans [OF batched_trans [OF start e1(1)] e(1)] by simp
      then show ?thesis using res e1(2) e(2,3) unfolding runner_batch_def by auto
    qed
  qed
qed

lemma addToBatch_keeps:
  assumes "os_keeps flight os" "addToBatch cfg os r q w = Inr (res, q', w')"
  shows "flight w' = flight w"
proof -
  have rnd: "flight (snd (os_rand os w)) = flight w" for w using assms(1) by (simp add: os_keeps_def)
  show ?thesis
    using assms(2)
    by (auto simp: addToBatch_def submitReadWriteCommands_def with_runner_Inr outcome_simps Let_def case_prod_beta rnd
        case_sum_Inr split: if_splits
        dest!: open_files_keeps [OF assms(1)] cleanupOnError_keeps [OF assms(1)] submit_write_keeps [OF assms(1)])
qed

section \<open>Completions\<close>

text \<open>Only the runner at \<open>r\<close> has changed.\<close>

definition changed :: "nat \<Rightarrow> CopyRunner \<Rightarrow> CopyQueue \<Rightarrow> CopyQueue \<Rightarrow> bool" where
  "changed r t' q q' \<longleftrightarrow> calm q q' \<and> ring q' = ring q \<and> submissionsRunning q' = submissionsRunning q \<and>
     runners q' = (runners q)(r \<mapsto> t')"

lemma changed_quiet: "quiet q q' \<Longrightarrow> runners q r = Some t \<Longrightarrow> changed r t q q'"
  by (simp add: changed_def quiet_def fun_upd_idem)

lemma changed_trans: "changed r t1 q q1 \<Longrightarrow> changed r t2 q1 q2 \<Longrightarrow> changed r t2 q q2"
  by (simp add: changed_def calm_def)

lemma changed_upd [simp]: "changed r t q (q\<lparr>runners := (runners q)(r \<mapsto> t)\<rparr>)"
  by (simp add: changed_def calm_def)

lemma saveError_effect:
  assumes "saveError nd os e r q w = Inr (q', w')" "runners q r = Some t"
  obtains err where "changed r (t\<lparr>savedError := Some err\<rparr>) q q'"
proof (cases "savedError t")
  case None
  then have "cleanupOnError nd os r (q\<lparr>runners := (runners q)(r \<mapsto> t\<lparr>savedError := Some e\<rparr>)\<rparr>) w = Inr (q', w')"
    using assms by (auto simp: saveError_def effect_simps)
  then have "quiet (q\<lparr>runners := (runners q)(r \<mapsto> t\<lparr>savedError := Some e\<rparr>)\<rparr>) q'" by (rule cleanupOnError_quiet)
  then have "changed r (t\<lparr>savedError := Some e\<rparr>) q q'" by (simp add: changed_def quiet_def calm_def)
  then show thesis by (rule that)
next
  case (Some err)
  then have "q' = q" using assms by (auto simp: saveError_def effect_simps)
  moreover have "t\<lparr>savedError := Some err\<rparr> = t" using Some by (cases t) simp
  ultimately show thesis using that [of err] assms(2) by (simp add: changed_quiet)
qed

lemma saveError_keeps:
  assumes "os_keeps flight os" "saveError nd os e r q w = Inr (q', w')"
  shows "flight w' = flight w"
  using assms(2) by (auto simp: saveError_def effect_simps dest: cleanupOnError_keeps [OF assms(1)])

lemma advance_read_effect:
  "advance_read k t = Inr t' \<Longrightarrow> \<exists>x. t' = t\<lparr>readOffset := x\<rparr>"
  by (auto simp: advance_read_def Let_def effect_simps)

text \<open>What a completion with result \<open>res\<close> may do to the runner.\<close>

definition reacted :: "EventType \<Rightarrow> int \<Rightarrow> CopyRunner \<Rightarrow> CopyRunner \<Rightarrow> bool" where
  "reacted type res t t' \<longleftrightarrow> same_job t t' \<and> jobsRunning t' = jobsRunning t \<and>
     (writeOffset t' = writeOffset t \<or> type = Write \<and> writeOffset t \<le> writeOffset t' \<and> writeOffset t' \<le> writeOffset t + res)"

lemma reacted_fields [simp]:
  "reacted ty k t (t\<lparr>savedError := e\<rparr>)" "reacted ty k t (t\<lparr>readOffset := x\<rparr>)"
  "reacted ty k t (t\<lparr>savedError := e, readOffset := x\<rparr>)"
  by (simp_all add: reacted_def same_job_def)

lemma on_read_effect:
  assumes "on_read cfg os r res q w = Inr (q', w')" "runners q r = Some t"
  obtains t' where "changed r t' q q'" "reacted Read k t t'"
proof -
  consider (neg) e where "saveError (NDEBUG cfg) os e r q w = Inr (q', w')"
    | (zero) e q1 w1 t1 t2 where "saveError (NDEBUG cfg) os e r q w = Inr (q1, w1)" "runners q1 r = Some t1"
        "advance_read 0 t1 = Inr t2" "q' = q1\<lparr>runners := (runners q1)(r \<mapsto> t2)\<rparr>"
    | (pos) t2 where "advance_read res t = Inr t2" "q' = q\<lparr>runners := (runners q)(r \<mapsto> t2)\<rparr>"
    using assms by (auto simp: on_read_def effect_simps Let_def)
  then show thesis
  proof cases
    case neg
    then show thesis using saveError_effect [OF neg assms(2)] that by (metis reacted_fields(1))
  next
    case zero
    obtain err where err: "changed r (t\<lparr>savedError := Some err\<rparr>) q q1" using saveError_effect [OF zero(1) assms(2)] .
    then have "t1 = t\<lparr>savedError := Some err\<rparr>" using zero(2) by (simp add: changed_def)
    then obtain x where "t2 = t\<lparr>savedError := Some err, readOffset := x\<rparr>" using advance_read_effect [OF zero(3)] by auto
    then show thesis using that [of t2] changed_trans [OF err changed_upd, of t2] zero(4) by simp
  next
    case pos
    obtain x where "t2 = t\<lparr>readOffset := x\<rparr>" using advance_read_effect [OF pos(1)] by auto
    then show thesis using that [of t2] pos(2) by simp
  qed
qed

lemma on_read_keeps:
  assumes "os_keeps flight os" "on_read cfg os r res q w = Inr (q', w')"
  shows "flight w' = flight w"
  using assms(2) by (auto simp: on_read_def effect_simps Let_def dest: saveError_keeps [OF assms(1)])

lemma on_write_effect:
  assumes "on_write cfg os r res q w = Inr (q', w')" "runners q r = Some t" "res \<le> k"
  obtains t' where "changed r t' q q'" "reacted Write k t t'"
proof -
  consider (neg) e where "saveError (NDEBUG cfg) os e r q w = Inr (q', w')"
    | (cancelled) "q' = q"
    | (pos) "0 \<le> res" "q' = q\<lparr>runners := (runners q)(r \<mapsto> t\<lparr>writeOffset := writeOffset t + res\<rparr>),
         totalBytesCopied := totalBytesCopied q + word_of_int res\<rparr>"
    using assms by (auto simp: on_write_def effect_simps)
  then show thesis
  proof cases
    case neg
    then show thesis using saveError_effect [OF neg assms(2)] that by (metis reacted_fields(1))
  next
    case cancelled
    then show thesis using that [of t] assms(2) by (simp add: changed_quiet reacted_def same_job_def)
  next
    case pos
    then show thesis using that [of "t\<lparr>writeOffset := writeOffset t + res\<rparr>"] assms(3)
      by (simp add: changed_def calm_def reacted_def same_job_def)
  qed
qed

lemma on_write_keeps:
  assumes "os_keeps flight os" "on_write cfg os r res q w = Inr (q', w')"
  shows "flight w' = flight w"
  using assms(2) by (auto simp: on_write_def effect_simps dest: saveError_keeps [OF assms(1)])

lemma override_effect:
  assumes "override_result cfg type res t = (res', t')"
  shows "res' \<le> res \<and> same_job t t' \<and> savedError t' = savedError t \<and> writeOffset t' = writeOffset t \<and>
    jobsRunning t' = jobsRunning t"
  using assms by (auto simp: override_result_def Let_def same_job_def split: if_splits EventType.splits)

lemma onCompletionEvent_effect:
  assumes "onCompletionEvent cfg os r type res q w = Inr (v, q', w')" "runners q r = Some t"
  obtains t' where "changed r t' q q'" "reacted type res (t\<lparr>jobsRunning := jobsRunning t - 1\<rparr>) t'" "v = runner_verdict t'"
proof -
  let ?t = "t\<lparr>jobsRunning := jobsRunning t - 1\<rparr>"
  let ?q = "q\<lparr>runners := (runners q)(r \<mapsto> ?t)\<rparr>"
  obtain q1 t' where ev: "(if savedError ?t = None then
        (case override_result cfg type res ?t of (result, this) \<Rightarrow>
           let q = ?q\<lparr>runners := (runners ?q)(r \<mapsto> this)\<rparr>
           in case type of Read \<Rightarrow> on_read cfg os r result q w | Write \<Rightarrow> on_write cfg os r result q w)
      else Inr (?q, w)) = Inr (q', w')" and t': "runners q' r = Some t'" and v: "v = runner_verdict t'"
    using assms unfolding onCompletionEvent_def with_runner_def object_Some [of "runners q" r t, OF assms(2)]
      and_then.simps Let_def runner_verdict_def
    by (auto simp: effect_simps)
  have "\<exists>t'. changed r t' q q' \<and> reacted type res ?t t'"
  proof (cases "savedError ?t = None")
    case False
    then show ?thesis using ev by (intro exI [of _ ?t]) (auto simp: changed_def calm_def reacted_def same_job_def)
  next
    case True
    obtain res' t1 where ov: "override_result cfg type res ?t = (res', t1)" by fastforce
    note o = override_effect [OF ov]
    let ?q1 = "?q\<lparr>runners := (runners ?q)(r \<mapsto> t1)\<rparr>"
    have r1: "runners ?q1 r = Some t1" by simp
    have lift: "\<exists>t'. changed r t' q q' \<and> reacted type res ?t t'"
      if "changed r t2 ?q1 q'" "reacted type res t1 t2" for t2
      using that o by (intro exI [of _ t2]) (auto simp: changed_def calm_def reacted_def same_job_def)
    show ?thesis
    proof (cases type)
      case Read
      then have "on_read cfg os r res' ?q1 w = Inr (q', w')" using ev True ov by (simp add: Let_def)
      from on_read_effect [OF this r1, of res] show ?thesis using lift Read by metis
    next
      case Write
      then have "on_write cfg os r res' ?q1 w = Inr (q', w')" using ev True ov by (simp add: Let_def)
      from on_write_effect [OF this r1, of res] show ?thesis using lift Write o by metis
    qed
  qed
  then show thesis using that t' v by (metis changed_def fun_upd_same option.inject)
qed

lemma onCompletionEvent_keeps:
  assumes "os_keeps flight os" "onCompletionEvent cfg os r type res q w = Inr (v, q', w')"
  shows "flight w' = flight w"
  using assms(2)
  by (cases type) (auto simp: onCompletionEvent_def effect_simps Let_def
      dest!: on_read_keeps [OF assms(1)] on_write_keeps [OF assms(1)])

section \<open>Destruction and buffers\<close>

text \<open>The runner \<open>t\<close> at \<open>r\<close> is gone, with its block and, when it was the last of its job, the shared objects.\<close>

definition deleted :: "bool \<Rightarrow> nat \<Rightarrow> CopyRunner \<Rightarrow> CopyQueue \<Rightarrow> CopyQueue \<Rightarrow> bool" where
  "deleted ndebug r t q q' \<longleftrightarrow>
     jobsRunning t = 0 \<and> runners q' = (runners q)(r := None) \<and> keepAliveCount q' = keepAliveCount q - 1 \<and>
     (if buffer t \<noteq> 0 then returnBlock ndebug (buffer t) (copyBufferHeap q) = Inr (copyBufferHeap q')
      else copyBufferHeap q' = copyBufferHeap q) \<and>
     (\<exists>n. counters q (chunksRemaining t) = Some n \<and>
        (if n = 1 then counters q' = (counters q)(chunksRemaining t := None) \<and>
             fds q' = (fds q)(sourceFd t := None, destFd t := None)
         else counters q' = (counters q)(chunksRemaining t \<mapsto> n - 1) \<and> fds q' = fds q)) \<and>
     ring q' = ring q \<and> ringSize q' = ringSize q \<and> submissionsRunning q' = submissionsRunning q \<and>
     copiesPendingStart q' = copiesPendingStart q \<and> copiesPendingStartCount q' = copiesPendingStartCount q \<and>
     next_object q' = next_object q \<and> q_state q' = q_state q \<and> errored q' = errored q"

lemma QueueFileDescriptor_delete_Inr:
  "QueueFileDescriptor_delete nd d q = Inr q' \<Longrightarrow> q' = q\<lparr>fds := (fds q)(d := None)\<rparr>"
  by (auto simp: QueueFileDescriptor_delete_def effect_simps)

lemma CopyRunner_delete_effect:
  assumes "CopyRunner_delete nd r q = Inr q'" "runners q r = Some t"
  shows "deleted nd r t q q'"
proof -
  obtain h n where h: "if buffer t \<noteq> 0 then returnBlock nd (buffer t) (copyBufferHeap q) = Inr h else h = copyBufferHeap q"
    and n: "counters q (chunksRemaining t) = Some n" and j: "jobsRunning t = 0"
    and q': "let q1 = q\<lparr>copyBufferHeap := h, keepAliveCount := keepAliveCount q - 1,
        counters := (counters q)(chunksRemaining t \<mapsto> n - 1)\<rparr>
      in \<exists>q2. (if n - 1 = 0
        then and_then (QueueFileDescriptor_delete nd (sourceFd t) q1) (\<lambda>q.
             and_then (QueueFileDescriptor_delete nd (destFd t) q) (\<lambda>q.
             Inr (q\<lparr>counters := (counters q)(chunksRemaining t := None)\<rparr>)))
        else Inr q1) = Inr q2 \<and> q' = q2\<lparr>runners := (runners q2)(r := None)\<rparr>"
    using assms unfolding CopyRunner_delete_def by (auto simp: effect_simps Let_def)
  show ?thesis
    using h n j q' unfolding deleted_def Let_def
    by (cases "n = 1") (auto simp: effect_simps split: if_splits dest!: QueueFileDescriptor_delete_Inr)
qed

lemma giveBuffer_effect:
  assumes "giveBuffer nd r p q = Inr q'" "runners q r = Some t"
  obtains al where "changed r (t\<lparr>buffer := p, bufferAligned := al\<rparr>) q q'"
proof -
  have "q' = q\<lparr>runners := (runners q)(r \<mapsto> t\<lparr>buffer := p, bufferAligned := aligned_address p (cr_alignment t)\<rparr>)\<rparr>"
    using assms by (auto simp: giveBuffer_def effect_simps Let_def)
  then show thesis using that [of "aligned_address p (cr_alignment t)"] by simp
qed

end
