(* ===== verification/Copy_Invariant.thy ===== *)
theory Copy_Invariant
  imports Copy_Effects "HOL-Library.Multiset"
begin

text \<open>
  The whole queue at work: the submit thread runs the pieces of \<open>submitLoop\<close>, the main thread adds
  jobs chunk by chunk and finally joins, and the kernel consumes requests and posts completions at
  any moment. The invariant accounts for every runner (waiting for a start, waiting for a
  continuation, or with requests outstanding), every block of the heap, every shared object of a job
  and every request; it gives the facts that \<open>join\<close> asserts.
\<close>

section \<open>The kernel's side of the ring\<close>

text \<open>
  The kernel takes the first visible request, posts one completion for a request it has taken,
  with a result of at most the length that was asked for, or changes its flags without reporting an
  overflow: no more requests than the submission ring has entries are ever outstanding, and the
  completion ring has twice that room.
\<close>

inductive kernel_step :: "io_uring \<times> io_uring_sqe multiset \<Rightarrow> io_uring \<times> io_uring_sqe multiset \<Rightarrow> bool" where
  consume: "sq_visible (ring_sq rng) = e # es \<Longrightarrow>
     kernel_step (rng, F) (rng\<lparr>ring_sq := sq_consume 1 (ring_sq rng)\<rparr>, add_mset e F)"
| complete: "e \<in># F \<Longrightarrow> ring_post rng c = Some rng' \<Longrightarrow> cqe_user_data c = sqe_user_data e \<Longrightarrow>
     cqe_res c \<le> uint (sqe_len e) \<Longrightarrow> kernel_step (rng, F) (rng', F - {#e#})"
| flags: "f AND IORING_SQ_CQ_OVERFLOW = 0 \<Longrightarrow>
     kernel_step (rng, F) (rng\<lparr>ring_sq := (ring_sq rng)\<lparr>sq_kflags := f\<rparr>\<rparr>, F)"

inductive kernel_run :: "io_uring \<times> io_uring_sqe multiset \<Rightarrow> io_uring \<times> io_uring_sqe multiset \<Rightarrow> bool" where
  none: "kernel_run x x"
| more: "kernel_run x y \<Longrightarrow> kernel_step y z \<Longrightarrow> kernel_run x z"

text \<open>The system call \<open>io_uring_enter\<close> lets the kernel make some of these steps.\<close>

definition enter_law :: "('w \<Rightarrow> io_uring_sqe multiset) \<Rightarrow> 'w sys_enter \<Rightarrow> bool" where
  "enter_law flight enter \<longleftrightarrow>
     (\<forall>fd n c f g k rng w. case enter fd n c f g k rng w of (_, _, rng', w') \<Rightarrow>
        kernel_run (rng, flight w) (rng', flight w'))"

section \<open>The invariant\<close>

text \<open>An outstanding event: the pointer it will be reported with, and a bound of its result.\<close>

definition outstanding :: "io_uring \<Rightarrow> io_uring_sqe multiset \<Rightarrow> (u64 \<times> int) multiset" where
  "outstanding rng F =
     image_mset (\<lambda>e. (sqe_user_data e, uint (sqe_len e))) (mset (sq_queued (ring_sq rng)) + F) +
     image_mset (\<lambda>c. (cqe_user_data c, cqe_res c)) (mset (cq_pending (ring_cq rng)))"

definition events_of :: "nat \<Rightarrow> (u64 \<times> int) multiset \<Rightarrow> nat" where
  "events_of r M = size (filter_mset (\<lambda>p. event_runner (fst p) = r) M)"

definition writes_of :: "nat \<Rightarrow> (u64 \<times> int) multiset \<Rightarrow> nat" where
  "writes_of r M = size (filter_mset (\<lambda>p. event_runner (fst p) = r \<and> event_type (fst p) = Write) M)"

text \<open>
  Every runner has as many outstanding events as it counts, at most one of them a write, whose result
  cannot move \<open>writeOffset\<close> beyond the chunk.
\<close>

definition ev_inv :: "(nat \<rightharpoonup> CopyRunner) \<Rightarrow> (u64 \<times> int) multiset \<Rightarrow> bool" where
  "ev_inv R M \<longleftrightarrow>
     (\<forall>p \<in># M. event_runner (fst p) \<in> dom R) \<and>
     (\<forall>r t. R r = Some t \<longrightarrow> jobsRunning t = int (events_of r M) \<and> writes_of r M \<le> 1) \<and>
     (\<forall>p \<in># M. \<forall>t. R (event_runner (fst p)) = Some t \<and> event_type (fst p) = Write \<longrightarrow>
        snd p \<le> chunk_end t - writeOffset t)"

text \<open>The waiting runners, in both queues, are exactly those without requests.\<close>

definition wait_inv :: "nat list \<Rightarrow> (nat \<rightharpoonup> CopyRunner) \<Rightarrow> bool" where
  "wait_inv W R \<longleftrightarrow> distinct W \<and> set W \<subseteq> dom R \<and> (\<forall>r t. R r = Some t \<longrightarrow> (jobsRunning t = 0 \<longleftrightarrow> r \<in> set W))"

definition ready_inv :: "nat set \<Rightarrow> (nat \<rightharpoonup> CopyRunner) \<Rightarrow> bool" where
  "ready_inv W R \<longleftrightarrow>
     (\<forall>r t. R r = Some t \<longrightarrow> 0 \<le> cr_size t \<and> writeOffset t \<le> chunk_end t \<and>
        (r \<in> W \<longrightarrow> savedError t = None \<and> (cr_size t \<noteq> 0 \<longrightarrow> writeOffset t < chunk_end t)))"

text \<open>Every block handed out belongs to one runner, or is the one the submit thread holds.\<close>

definition buffers :: "(nat \<rightharpoonup> CopyRunner) \<Rightarrow> nat \<rightharpoonup> u64" where
  "buffers R = (\<lambda>r. map_option buffer (R r))"

definition heap_inv :: "u64 \<Rightarrow> Heap \<Rightarrow> (nat \<rightharpoonup> u64) \<Rightarrow> bool" where
  "heap_inv nb h B \<longleftrightarrow> heap_wf h \<and> held h = {b. b \<noteq> 0 \<and> (b = nb \<or> b \<in> ran B)} \<and>
     (\<forall>r b. B r = Some b \<and> b \<noteq> 0 \<longrightarrow> b \<noteq> nb) \<and>
     (\<forall>r r' b. B r = Some b \<and> B r' = Some b \<and> b \<noteq> 0 \<longrightarrow> r = r')"

definition of_job :: "(nat \<rightharpoonup> CopyRunner) \<Rightarrow> nat \<Rightarrow> nat set" where
  "of_job R c = {r. \<exists>t. R r = Some t \<and> chunksRemaining t = c}"

text \<open>
  The shared objects of a job: its counter at \<open>c\<close> and its descriptors, which were constructed just
  before it. The counter is the number of live runners of the job and of the chunks that the main
  thread has still to add (\<open>todo\<close>).
\<close>

definition obj_inv :: "(nat \<Rightarrow> nat) \<Rightarrow> nat \<Rightarrow> nat set \<Rightarrow> (nat \<rightharpoonup> int) \<Rightarrow> (nat \<rightharpoonup> CopyRunner) \<Rightarrow> bool" where
  "obj_inv todo nxt D C R \<longleftrightarrow>
     finite (dom R) \<and> (\<forall>r \<in> dom R. r < nxt) \<and> (\<forall>d \<in> D. d < nxt) \<and> (\<forall>c \<in> dom C. c < nxt) \<and>
     (\<forall>r t. R r = Some t \<longrightarrow> chunksRemaining t \<in> dom C \<and> sourceFd t + 2 = chunksRemaining t \<and>
        destFd t + 1 = chunksRemaining t) \<and>
     (\<forall>c n. C c = Some n \<longrightarrow> n = int (card (of_job R c) + todo c) \<and> 0 < n) \<and>
     (\<forall>c. 0 < todo c \<longrightarrow> c \<in> dom C) \<and>
     D = {d. d + 2 \<in> dom C} \<union> {d. d + 1 \<in> dom C} \<and> D \<inter> dom C = {} \<and> (\<forall>c \<in> dom C. 2 \<le> c)"

definition live_inv :: "u32 \<Rightarrow> (nat \<rightharpoonup> CopyRunner) \<Rightarrow> bool" where
  "live_inv n R \<longleftrightarrow> n = of_nat (card (dom R)) \<and> card (dom R) < 2 ^ 32"

definition ring_inv :: "nat \<Rightarrow> nat \<Rightarrow> io_uring \<Rightarrow> bool" where
  "ring_inv n m rng \<longleftrightarrow> sq_inv n (ring_sq rng) \<and> cq_inv m (ring_cq rng) \<and> \<not> cq_ring_needs_flush rng"

text \<open>
  The state of the queue. \<open>W\<close> are the runners on their way: one that has been taken from a queue
  and not yet been given requests or been deleted.
\<close>

definition queue_inv ::
  "nat \<Rightarrow> nat \<Rightarrow> (nat \<Rightarrow> nat) \<Rightarrow> nat list \<Rightarrow> nat list \<Rightarrow> u64 \<Rightarrow> (u64 \<times> int) multiset \<Rightarrow> CopyQueue \<Rightarrow> bool" where
  "queue_inv n m todo W L nb M q \<longleftrightarrow>
     ev_inv (runners q) M \<and> wait_inv (W @ copiesPendingStart q @ L) (runners q) \<and>
     ready_inv (set (copiesPendingStart q @ L)) (runners q) \<and>
     heap_inv nb (copyBufferHeap q) (buffers (runners q)) \<and>
     obj_inv todo (next_object q) (dom (fds q)) (counters q) (runners q) \<and>
     live_inv (keepAliveCount q) (runners q) \<and>
     copiesPendingStartCount q = of_nat (length (copiesPendingStart q)) \<and>
     ringSize q = 2 ^ n \<and> next_object q \<le> 2 ^ 62 \<and> ring_inv n m (ring q)"

section \<open>Changes that keep the invariant\<close>

lemma queue_inv_quiet: "queue_inv n m todo W L nb M q \<Longrightarrow> quiet q q' \<Longrightarrow> queue_inv n m todo W L nb M q'"
  by (simp add: queue_inv_def quiet_def calm_def)

definition same_files :: "CopyRunner \<Rightarrow> CopyRunner \<Rightarrow> bool" where
  "same_files t t' \<longleftrightarrow> sourceFd t' = sourceFd t \<and> destFd t' = destFd t \<and> chunksRemaining t' = chunksRemaining t"

lemma same_job_files: "same_job t t' \<Longrightarrow> same_files t t'"
  by (simp add: same_job_def same_files_def)

lemma of_job_upd: "R r = Some t \<Longrightarrow> same_files t t' \<Longrightarrow> of_job (R(r \<mapsto> t')) c = of_job R c"
  by (auto simp: of_job_def same_files_def)

lemma obj_inv_upd:
  assumes "obj_inv todo nxt D C R" "R r = Some t" "same_files t t'"
  shows "obj_inv todo nxt D C (R(r \<mapsto> t'))"
  using assms of_job_upd [of R r t t', OF assms(2,3)] unfolding obj_inv_def
  by (auto simp: same_files_def insert_absorb domI)

lemma live_inv_upd: "live_inv k R \<Longrightarrow> R r = Some t \<Longrightarrow> live_inv k (R(r \<mapsto> t'))"
  by (simp add: live_inv_def insert_absorb domI)

lemma buffers_upd [simp]: "buffers (R(r \<mapsto> t)) = (buffers R)(r \<mapsto> buffer t)"
  by (simp add: buffers_def fun_eq_iff)

lemma buffers_del [simp]: "buffers (R(r := None)) = (buffers R)(r := None)"
  by (simp add: buffers_def fun_eq_iff)

lemma buffers_same: "R r = Some t \<Longrightarrow> buffer t' = buffer t \<Longrightarrow> buffers (R(r \<mapsto> t')) = buffers R"
  by (simp add: buffers_def fun_eq_iff)

subsection \<open>Requests and completions\<close>

lemma events_add:
  "events_of r (add_mset p M) = (if event_runner (fst p) = r then 1 else 0) + events_of r M"
  "writes_of r (add_mset p M) =
     (if event_runner (fst p) = r \<and> event_type (fst p) = Write then 1 else 0) + writes_of r M"
  by (simp_all add: events_of_def writes_of_def)

lemma events_empty [simp]: "events_of r {#} = 0" "writes_of r {#} = 0"
  by (simp_all add: events_of_def writes_of_def)

lemma writes_le_events: "writes_of r M \<le> events_of r M"
  by (induction M) (simp_all add: events_add)

lemma events_pos: "p \<in># M \<Longrightarrow> 0 < events_of (event_runner (fst p)) M"
  by (induction M) (auto simp: events_add)

lemma writes_pos: "p \<in># M \<Longrightarrow> event_type (fst p) = Write \<Longrightarrow> 0 < writes_of (event_runner (fst p)) M"
  by (induction M) (auto simp: events_add)

lemma no_events: "\<forall>p \<in># M. event_runner (fst p) \<noteq> r \<Longrightarrow> events_of r M = 0"
  by (induction M) (auto simp: events_add)

text \<open>The kernel may lower the bound of a result when it posts it.\<close>

lemma ev_inv_lower: "ev_inv R (add_mset (ud, k) M) \<Longrightarrow> k' \<le> k \<Longrightarrow> ev_inv R (add_mset (ud, k') M)"
  by (force simp: ev_inv_def events_add)

lemma ev_inv_upd_new:
  assumes "ev_inv R M" "R r = Some t" "jobsRunning t = 0" "jobsRunning t' = int (events_of r N)" "writes_of r N \<le> 1"
    and "\<forall>p \<in># N. event_runner (fst p) = r \<and> (event_type (fst p) = Write \<longrightarrow> snd p \<le> chunk_end t' - writeOffset t')"
  shows "ev_inv (R(r \<mapsto> t')) (M + N)"
proof -
  have zero: "events_of r M = 0" "writes_of r M = 0"
    using assms(1-3) writes_le_events [of r M] by (auto simp: ev_inv_def)
  have none: "event_runner (fst p) \<noteq> r" if "p \<in># M" for p using events_pos [OF that] zero(1) by auto
  have other: "events_of x N = 0" "writes_of x N = 0" if "x \<noteq> r" for x
    using no_events [of N x] assms(6) that writes_le_events [of x N] by auto
  have sum: "events_of x (M + N) = events_of x M + events_of x N" "writes_of x (M + N) = writes_of x M + writes_of x N" for x
    by (simp_all add: events_of_def writes_of_def)
  show ?thesis
    unfolding ev_inv_def
  proof (intro conjI ballI allI impI)
    fix p assume "p \<in># M + N"
    then show "event_runner (fst p) \<in> dom (R(r \<mapsto> t'))" using assms(1,6) by (auto simp: ev_inv_def)
  next
    fix x y assume "(R(r \<mapsto> t')) x = Some y"
    then show "jobsRunning y = int (events_of x (M + N))" "writes_of x (M + N) \<le> 1"
      using assms(1,4,5) zero other [of x] unfolding sum by (auto simp: ev_inv_def split: if_splits)
  next
    fix p y assume p: "p \<in># M + N" and y: "(R(r \<mapsto> t')) (event_runner (fst p)) = Some y \<and> event_type (fst p) = Write"
    show "snd p \<le> chunk_end y - writeOffset y"
    proof (cases "p \<in># N")
      case True
      then show ?thesis using assms(6) y by auto
    next
      case False
      then have "p \<in># M" using p by simp
      then show ?thesis using assms(1) y none unfolding ev_inv_def by (metis fun_upd_other)
    qed
  qed
qed

lemma ev_inv_complete:
  assumes "ev_inv R (add_mset (ud, k) M)" "R (event_runner ud) = Some t"
    and "reacted (event_type ud) k (t\<lparr>jobsRunning := jobsRunning t - 1\<rparr>) t'"
  shows "ev_inv (R(event_runner ud \<mapsto> t')) M \<and> jobsRunning t' = int (events_of (event_runner ud) M) \<and>
    (writeOffset t \<le> chunk_end t \<longrightarrow> writeOffset t' \<le> chunk_end t')"
proof -
  let ?r = "event_runner ud"
  note inv = assms(1) [unfolded ev_inv_def events_add]
  have j: "jobsRunning t' = int (events_of ?r M)"
    using inv assms(2,3) by (auto simp: reacted_def)
  have same: "chunk_end t' = chunk_end t" using assms(3) by (simp add: reacted_def same_job_def chunk_end_def)
  have bound: "event_type ud = Write \<longrightarrow> k \<le> chunk_end t - writeOffset t" using inv assms(2) by auto
  have "writes_of ?r (add_mset (ud, k) M) \<le> 1" using assms(1,2) by (auto simp: ev_inv_def)
  then have w1: "(if event_type ud = Write then 1 else 0) + writes_of ?r M \<le> 1" by (simp add: events_add)
  then have wr: "writes_of ?r M = 0 \<or> writeOffset t' = writeOffset t" using assms(3) by (auto simp: reacted_def split: if_splits)
  have "ev_inv (R(?r \<mapsto> t')) M"
    unfolding ev_inv_def
  proof (intro conjI ballI allI impI)
    fix p assume "p \<in># M"
    then show "event_runner (fst p) \<in> dom (R(?r \<mapsto> t'))" using inv by auto
  next
    fix x y assume "(R(?r \<mapsto> t')) x = Some y"
    then have y: "jobsRunning y = int (events_of x M) \<and> writes_of x M \<le> 1"
    proof (cases "x = ?r")
      case True
      moreover have "writes_of ?r M \<le> 1" using w1 by simp
      ultimately show ?thesis using \<open>(R(?r \<mapsto> t')) x = Some y\<close> j by simp
    next
      case False
      then have "R x = Some y" using \<open>(R(?r \<mapsto> t')) x = Some y\<close> by simp
      then have "jobsRunning y = int (events_of x (add_mset (ud, k) M)) \<and> writes_of x (add_mset (ud, k) M) \<le> 1"
        using assms(1) unfolding ev_inv_def by blast
      then show ?thesis using False by (simp add: events_add)
    qed
    show "jobsRunning y = int (events_of x M)" "writes_of x M \<le> 1" using y by simp_all
  next
    fix p y assume p: "p \<in># M" and y: "(R(?r \<mapsto> t')) (event_runner (fst p)) = Some y \<and> event_type (fst p) = Write"
    show "snd p \<le> chunk_end y - writeOffset y"
    proof (cases "event_runner (fst p) = ?r")
      case True
      then have "writes_of ?r M \<noteq> 0" using writes_pos [OF p] y by auto
      then have "writeOffset t' = writeOffset t" using wr by simp
      then show ?thesis using True y inv assms(2) p same by auto
    next
      case False
      then show ?thesis using y inv p by auto
    qed
  qed
  moreover have "writeOffset t' \<le> chunk_end t'" if "writeOffset t \<le> chunk_end t"
    using assms(3) that bound same by (auto simp: reacted_def)
  ultimately show ?thesis using j by blast
qed

lemma ev_inv_delete:
  assumes "ev_inv R M" "R r = Some t" "jobsRunning t = 0"
  shows "ev_inv (R(r := None)) M"
proof -
  have "event_runner (fst p) \<noteq> r" if "p \<in># M" for p
    using events_pos [OF that] assms by (auto simp: ev_inv_def)
  then show ?thesis using assms(1) unfolding ev_inv_def by auto
qed

definition sqe_event :: "io_uring_sqe \<Rightarrow> u64 \<times> int" where
  "sqe_event e = (sqe_user_data e, uint (sqe_len e))"

definition cqe_event :: "io_uring_cqe \<Rightarrow> u64 \<times> int" where
  "cqe_event c = (cqe_user_data c, cqe_res c)"

lemma outstanding_eq:
  "outstanding rng F = image_mset sqe_event (mset (sq_queued (ring_sq rng)) + F) +
     image_mset cqe_event (mset (cq_pending (ring_cq rng)))"
  by (simp add: outstanding_def sqe_event_def [abs_def] cqe_event_def [abs_def])

lemma runner_batch_events:
  assumes "runner_batch r t es" "r < 2 ^ 62"
  shows "events_of r (image_mset sqe_event (mset es)) = length es" "writes_of r (image_mset sqe_event (mset es)) = 1"
    "\<forall>p \<in># image_mset sqe_event (mset es). event_runner (fst p) = r \<and>
       (event_type (fst p) = Write \<longrightarrow> snd p \<le> chunk_end t - writeOffset t)"
    "es \<noteq> []" "length es \<le> 2"
  using assms(1) event_ptr_inj [OF assms(2)]
  by (auto simp: runner_batch_def sqe_event_def events_add chunk_end_def)

lemma queue_inv_runner:
  assumes "queue_inv n m todo W L nb M q" "runners q r = Some t"
  shows "r < 2 ^ 62" "jobsRunning t = 0 \<longleftrightarrow> r \<in> set (W @ copiesPendingStart q @ L)" "writeOffset t \<le> chunk_end t"
    "r \<in> set (copiesPendingStart q @ L) \<Longrightarrow> cr_size t \<noteq> 0 \<Longrightarrow> writeOffset t < chunk_end t" "0 \<le> cr_size t"
    "buffer t \<noteq> 0 \<Longrightarrow> buffer t \<in> held (copyBufferHeap q)"
proof -
  note inv = assms(1) [unfolded queue_inv_def]
  have "r < next_object q" using inv assms(2) unfolding obj_inv_def by auto
  then show "r < 2 ^ 62" using inv by linarith
  show "jobsRunning t = 0 \<longleftrightarrow> r \<in> set (W @ copiesPendingStart q @ L)" using inv assms(2) unfolding wait_inv_def by blast
  show "writeOffset t \<le> chunk_end t" "0 \<le> cr_size t"
    "r \<in> set (copiesPendingStart q @ L) \<Longrightarrow> cr_size t \<noteq> 0 \<Longrightarrow> writeOffset t < chunk_end t"
    using inv assms(2) unfolding ready_inv_def by auto
  show "buffer t \<in> held (copyBufferHeap q)" if "buffer t \<noteq> 0"
  proof -
    have "buffer t \<in> ran (buffers (runners q))" using assms(2) by (auto simp: ran_def buffers_def)
    then show ?thesis using inv that unfolding heap_inv_def by auto
  qed
qed

lemma wait_inv_running:
  assumes "wait_inv (r # W) R" "R r = Some t" "jobsRunning t' \<noteq> 0"
  shows "wait_inv W (R(r \<mapsto> t'))"
  using assms unfolding wait_inv_def by auto

lemma wait_inv_stopped:
  assumes "wait_inv W R" "R r = Some t" "jobsRunning t \<noteq> 0" "jobsRunning t' = 0"
  shows "wait_inv (r # W) (R(r \<mapsto> t'))"
  using assms unfolding wait_inv_def by auto

lemma ready_inv_upd:
  assumes "ready_inv W R" "R r = Some t" "same_job t t'" "writeOffset t' \<le> chunk_end t'" "r \<notin> W"
  shows "ready_inv W (R(r \<mapsto> t'))"
  using assms unfolding ready_inv_def by (auto simp: same_job_def)

lemma queue_inv_batched:
  assumes "queue_inv n m todo [r] L nb M q" "runners q r = Some t" "batched n r es q q'" "runner_batch r t es"
  shows "queue_inv n m todo [] L nb (M + image_mset sqe_event (mset es)) q'"
proof -
  note inv = assms(1) [unfolded queue_inv_def] and b = assms(3) [unfolded batched_def calm_def]
  obtain t' where t': "runners q' = (runners q)(r \<mapsto> t')" "same_job t t'" "writeOffset t' = writeOffset t"
    "jobsRunning t' = jobsRunning t + int (length es)"
    using b assms(2) by auto
  note ev = runner_batch_events [OF assms(4) queue_inv_runner(1) [OF assms(1,2)]]
  have j: "jobsRunning t = 0" using queue_inv_runner(2) [OF assms(1,2)] by simp
  have same: "chunk_end t' = chunk_end t" using t'(2) by (simp add: same_job_def chunk_end_def)
  have "ev_inv (runners q') (M + image_mset sqe_event (mset es))"
    unfolding t'(1) by (rule ev_inv_upd_new) (use inv assms(2) j t'(3,4) same ev in auto)
  moreover have "wait_inv (copiesPendingStart q @ L) (runners q')"
    unfolding t'(1) by (rule wait_inv_running [of _ _ _ t]) (use inv assms(2) t'(4) j ev(4) in auto)
  moreover have "r \<notin> set (copiesPendingStart q @ L)" using inv by (auto simp: wait_inv_def)
  then have "ready_inv (set (copiesPendingStart q @ L)) (runners q')"
    unfolding t'(1)
    by (intro ready_inv_upd [of _ _ _ t]) (use inv assms(2) t'(2,3) same queue_inv_runner(3) [OF assms(1,2)] in auto)
  moreover have "obj_inv todo (next_object q) (dom (fds q)) (counters q) (runners q')"
    unfolding t'(1) by (rule obj_inv_upd [of _ _ _ _ _ _ t]) (use inv assms(2) t'(2) same_job_files in auto)
  moreover have "buffers (runners q') = buffers (runners q)"
    unfolding t'(1) by (rule buffers_same [of _ _ t]) (use assms(2) t'(2) in \<open>auto simp: same_job_def\<close>)
  moreover have "live_inv (keepAliveCount q) (runners q')"
    unfolding t'(1) by (rule live_inv_upd [of _ _ _ t]) (use inv assms(2) in auto)
  moreover have "ring_inv n m (ring q')"
    using inv b by (auto simp: ring_inv_def cq_ring_needs_flush_def)
  ultimately show ?thesis using inv b unfolding queue_inv_def by simp
qed

lemma queue_inv_completed:
  assumes "queue_inv n m todo [] L nb (add_mset (ud, k) M) q" "runners q (event_runner ud) = Some t"
    and "changed (event_runner ud) t' q q'" "reacted (event_type ud) k (t\<lparr>jobsRunning := jobsRunning t - 1\<rparr>) t'"
  shows "queue_inv n m todo (if jobsRunning t' = 0 then [event_runner ud] else []) L nb M q'"
proof -
  let ?r = "event_runner ud"
  note inv = assms(1) [unfolded queue_inv_def] and c = assms(3) [unfolded changed_def calm_def]
  have q': "runners q' = (runners q)(?r \<mapsto> t')" using c by simp
  have same: "same_job t t'" using assms(4) by (simp add: reacted_def same_job_def)
  have j: "jobsRunning t \<noteq> 0" using inv assms(2) by (auto simp: ev_inv_def events_add)
  have "ev_inv (runners q) (add_mset (ud, k) M)" using inv by simp
  note ev = ev_inv_complete [OF this assms(2,4)]
  have notin: "?r \<notin> set (copiesPendingStart q @ L)" using j queue_inv_runner(2) [OF assms(1,2)] by simp
  have "wait_inv ((if jobsRunning t' = 0 then [?r] else []) @ copiesPendingStart q @ L) (runners q')"
  proof (cases "jobsRunning t' = 0")
    case True
    then show ?thesis unfolding q' using wait_inv_stopped [of "copiesPendingStart q @ L" "runners q" ?r t t'] inv assms(2) j by simp
  next
    case False
    then show ?thesis unfolding q' using inv assms(2) j notin by (auto simp: wait_inv_def)
  qed
  moreover have "ready_inv (set (copiesPendingStart q @ L)) (runners q')"
    unfolding q' by (rule ready_inv_upd [of _ _ _ t]) (use inv assms(2) same ev notin queue_inv_runner(3) [OF assms(1,2)] in auto)
  moreover have "obj_inv todo (next_object q) (dom (fds q)) (counters q) (runners q')"
    unfolding q' by (rule obj_inv_upd [of _ _ _ _ _ _ t]) (use inv assms(2) same same_job_files in auto)
  moreover have "buffers (runners q') = buffers (runners q)"
    unfolding q' by (rule buffers_same [of _ _ t]) (use assms(2) same in \<open>auto simp: same_job_def\<close>)
  moreover have "live_inv (keepAliveCount q) (runners q')"
    unfolding q' by (rule live_inv_upd [of _ _ _ t]) (use inv assms(2) in auto)
  ultimately show ?thesis using inv c ev q' unfolding queue_inv_def by simp
qed

subsection \<open>Deleting a runner\<close>

lemma of_job_delete: "of_job (R(r := None)) c = of_job R c - {r}"
  by (auto simp: of_job_def)

lemma of_job_finite: "finite (dom R) \<Longrightarrow> finite (of_job R c)"
  by (rule finite_subset [of _ "dom R"]) (auto simp: of_job_def)

lemma obj_inv_delete:
  assumes "obj_inv todo nxt D C R" "R r = Some t" "C (chunksRemaining t) = Some k"
    and "if k = 1 then C' = C(chunksRemaining t := None) \<and> D' = D - {sourceFd t, destFd t}
         else C' = C(chunksRemaining t \<mapsto> k - 1) \<and> D' = D"
  shows "obj_inv todo nxt D' C' (R(r := None))"
proof -
  let ?c = "chunksRemaining t"
  note inv = assms(1) [unfolded obj_inv_def]
  have fin: "finite (of_job R c)" for c using inv of_job_finite by blast
  have mem: "r \<in> of_job R ?c" using assms(2) by (auto simp: of_job_def)
  have card: "card (of_job R ?c) = Suc (card (of_job (R(r := None)) ?c))"
    unfolding of_job_delete by (rule card.remove [OF fin mem])
  have other: "card (of_job (R(r := None)) c) = card (of_job R c)" if "c \<noteq> ?c" for c
  proof -
    have "r \<notin> of_job R c" using assms(2) that by (auto simp: of_job_def)
    then show ?thesis by (simp add: of_job_delete)
  qed
  have k: "k = int (card (of_job R ?c) + todo ?c)" using inv assms(3) by blast
  have fd: "sourceFd t + 2 = ?c" "destFd t + 1 = ?c" using inv assms(2) by blast+
  show ?thesis
  proof (cases "k = 1")
    case False
    then have C': "C' = C(?c \<mapsto> k - 1)" "D' = D" using assms(4) by auto
    have dom: "dom C' = dom C" using assms(3) unfolding C' by auto
    have "n = int (card (of_job (R(r := None)) c) + todo c) \<and> 0 < n" if "C' c = Some n" for c n
    proof (cases "c = ?c")
      case True
      then have "n = k - 1" using that C' by simp
      then show ?thesis using True k card False by simp
    next
      case False
      then have "C c = Some n" using that C' by simp
      then have "n = int (card (of_job R c) + todo c) \<and> 0 < n" using inv by blast
      then show ?thesis using other [OF False] by simp
    qed
    moreover have "\<forall>x y. (R(r := None)) x = Some y \<longrightarrow> chunksRemaining y \<in> dom C' \<and>
        sourceFd y + 2 = chunksRemaining y \<and> destFd y + 1 = chunksRemaining y"
      using inv unfolding dom by (auto split: if_splits)
    ultimately show ?thesis using inv unfolding obj_inv_def C'(2) dom by auto
  next
    case True
    then have C': "C' = C(?c := None)" "D' = D - {sourceFd t, destFd t}" using assms(4) by auto
    have "card (of_job (R(r := None)) ?c) = 0" "todo ?c = 0" using k card True by linarith+
    then have one: "of_job (R(r := None)) ?c = {}" "todo ?c = 0"
      using fin [of ?c] by (simp_all add: of_job_delete)
    have dom: "dom C' = dom C - {?c}" unfolding C' by auto
    have cnt: "n = int (card (of_job (R(r := None)) c) + todo c) \<and> 0 < n" if "C' c = Some n" for c n
    proof -
      have c: "c \<noteq> ?c" "C c = Some n" using that C'(1) by (auto split: if_splits)
      then have "n = int (card (of_job R c) + todo c) \<and> 0 < n" using inv by blast
      then show ?thesis using other [OF c(1)] by simp
    qed
    have D: "D' = {d. d + 2 \<in> dom C'} \<union> {d. d + 1 \<in> dom C'}"
    proof -
      have cC: "?c \<in> dom C" using assms(3) by auto
      have DC: "D = {d. d + 2 \<in> dom C} \<union> {d. d + 1 \<in> dom C}" "D \<inter> dom C = {}" using inv by blast+
      have s: "sourceFd t = ?c - 2" "destFd t = ?c - 1" "2 \<le> ?c" using fd by linarith+
      have n1: "?c + 1 \<notin> dom C" using DC cC by auto
      have n2: "?c - 1 \<notin> dom C" using DC cC s(3) by (metis (no_types, lifting) Un_iff disjoint_iff fd(2) mem_Collect_eq s(2))
      have "destFd t + 2 = ?c + 1" "sourceFd t + 1 = ?c - 1" using fd by linarith+
      then have n: "destFd t + 2 \<notin> dom C" "sourceFd t + 1 \<notin> dom C" using n1 n2 by simp_all
      have "d + 2 = ?c \<longleftrightarrow> d = sourceFd t" "d + 1 = ?c \<longleftrightarrow> d = destFd t" for d using fd by linarith+
      then show ?thesis unfolding C'(2) dom DC(1) using n by (auto simp del: One_nat_def add_2_eq_Suc')
    qed
    have run: "\<forall>x y. (R(r := None)) x = Some y \<longrightarrow> chunksRemaining y \<in> dom C' \<and>
        sourceFd y + 2 = chunksRemaining y \<and> destFd y + 1 = chunksRemaining y"
    proof (intro allI impI)
      fix x y assume xy: "(R(r := None)) x = Some y"
      have "x \<notin> of_job (R(r := None)) ?c" using one(1) by simp
      then have "chunksRemaining y \<noteq> ?c" using xy by (auto simp: of_job_def)
      moreover have "R x = Some y" using xy by (simp split: if_splits)
      ultimately show "chunksRemaining y \<in> dom C' \<and> sourceFd y + 2 = chunksRemaining y \<and> destFd y + 1 = chunksRemaining y"
        using inv unfolding dom by blast
    qed
    have "finite (dom (R(r := None))) \<and> (\<forall>r \<in> dom (R(r := None)). r < nxt) \<and> (\<forall>d \<in> D'. d < nxt) \<and> (\<forall>c \<in> dom C'. c < nxt)"
      using inv unfolding C'(2) dom by auto
    moreover have "(\<forall>c. 0 < todo c \<longrightarrow> c \<in> dom C') \<and> D' \<inter> dom C' = {} \<and> (\<forall>c \<in> dom C'. 2 \<le> c)"
      using inv one(2) unfolding C'(2) dom by auto
    ultimately show ?thesis using cnt D run unfolding obj_inv_def by blast
  qed
qed

lemma heap_inv_delete:
  assumes "heap_inv nb h B" "B r = Some b"
    and "if b \<noteq> 0 then returnBlock nd b h = Inr h' else h' = h"
  shows "heap_inv nb h' (B(r := None))"
proof (cases "b = 0")
  case True
  have "x \<in> ran (B(r := None)) \<longleftrightarrow> x \<in> ran B" if "x \<noteq> 0" for x
  proof -
    have "y \<noteq> r" if "B y = Some x" for y using that \<open>x \<noteq> 0\<close> assms(2) True by auto
    then show ?thesis by (auto simp: ran_def)
  qed
  then have "{x. x \<noteq> 0 \<and> (x = nb \<or> x \<in> ran (B(r := None)))} = {x. x \<noteq> 0 \<and> (x = nb \<or> x \<in> ran B)}" by auto
  then show ?thesis using assms True unfolding heap_inv_def by (auto split: if_splits)
next
  case False
  note inv = assms(1) [unfolded heap_inv_def]
  have "b \<in> ran B" using assms(2) by (rule ranI)
  then have bh: "b \<in> held h" using inv False by blast
  have wf: "heap_wf h" using inv by blast
  obtain h1 where "returnBlock nd b h = Inr h1" "held h1 = held h - {b}" "heap_wf h1" "same_slab h h1"
    using wf bh by (rule returnBlock_held)
  then have h': "held h' = held h - {b}" "heap_wf h'" using assms(3) False by auto
  have nb: "b \<noteq> nb" using inv assms(2) False by blast
  have "x \<in> ran (B(r := None)) \<longleftrightarrow> x \<in> ran B \<and> x \<noteq> b" if "x \<noteq> 0" for x
  proof -
    have "x \<noteq> b" if "B y = Some x" "y \<noteq> r" for y using inv assms(2) False that by blast
    then show ?thesis using assms(2) by (auto simp: ran_def) (metis option.inject)
  qed
  then have "held h' = {x. x \<noteq> 0 \<and> (x = nb \<or> x \<in> ran (B(r := None)))}"
    using inv h'(1) nb by auto
  moreover have "\<forall>x b. (B(r := None)) x = Some b \<and> b \<noteq> 0 \<longrightarrow> b \<noteq> nb"
    "\<forall>x y b. (B(r := None)) x = Some b \<and> (B(r := None)) y = Some b \<and> b \<noteq> 0 \<longrightarrow> x = y"
    using inv by (auto split: if_splits)
  ultimately show ?thesis using h'(2) unfolding heap_inv_def by blast
qed

lemma queue_inv_deleted:
  assumes "queue_inv n m todo [r] L nb M q" "runners q r = Some t" "deleted nd r t q q'"
  shows "queue_inv n m todo [] L nb M q'"
proof -
  note inv = assms(1) [unfolded queue_inv_def] and d = assms(3) [unfolded deleted_def]
  have q': "runners q' = (runners q)(r := None)" using d by simp
  have W: "r \<notin> set (copiesPendingStart q @ L)" using inv by (auto simp: wait_inv_def)
  have "ev_inv (runners q') M" unfolding q' by (rule ev_inv_delete) (use inv assms(2) d in auto)
  moreover have "wait_inv (copiesPendingStart q @ L) (runners q')"
    unfolding q' using inv W by (auto simp: wait_inv_def split: if_splits)
  moreover have "ready_inv (set (copiesPendingStart q @ L)) (runners q')"
    unfolding q' using inv by (auto simp: ready_inv_def split: if_splits)
  moreover have "heap_inv nb (copyBufferHeap q') (buffers (runners q'))"
    unfolding q' buffers_del
    by (rule heap_inv_delete [where b = "buffer t" and nd = nd]) (use inv assms(2) d in \<open>auto simp: buffers_def\<close>)
  moreover have "obj_inv todo (next_object q) (dom (fds q')) (counters q') (runners q')"
  proof -
    obtain k where d': "counters q (chunksRemaining t) = Some k"
      "if k = 1 then counters q' = (counters q)(chunksRemaining t := None) \<and> fds q' = (fds q)(sourceFd t := None, destFd t := None)
       else counters q' = (counters q)(chunksRemaining t \<mapsto> k - 1) \<and> fds q' = fds q"
      using d by blast
    moreover have "dom ((fds q)(sourceFd t := None, destFd t := None)) = dom (fds q) - {sourceFd t, destFd t}" by auto
    ultimately have k: "counters q (chunksRemaining t) = Some k"
      "if k = 1 then counters q' = (counters q)(chunksRemaining t := None) \<and> dom (fds q') = dom (fds q) - {sourceFd t, destFd t}
       else counters q' = (counters q)(chunksRemaining t \<mapsto> k - 1) \<and> dom (fds q') = dom (fds q)"
      by metis+
    show ?thesis
      unfolding q' by (rule obj_inv_delete [where t = t and k = k and C = "counters q" and D = "dom (fds q)"])
        (use inv assms(2) k in blast)+
  qed
  moreover have "live_inv (keepAliveCount q') (runners q')"
  proof -
    have fin: "finite (dom (runners q))" using inv by (simp add: obj_inv_def)
    have "dom (runners q') = dom (runners q) - {r}" unfolding q' by auto
    moreover have "card (dom (runners q)) = Suc (card (dom (runners q) - {r}))"
      using fin assms(2) by (intro card.remove) auto
    ultimately show ?thesis using inv d by (simp add: live_inv_def)
  qed
  ultimately show ?thesis using inv d unfolding queue_inv_def by simp
qed

subsection \<open>Moving runners between the queues\<close>

lemma queue_inv_pop:
  assumes "queue_inv n m todo [] L nb M q" "copiesPendingStart q = r # rest"
  shows "queue_inv n m todo [r] L nb M
    (q\<lparr>copiesPendingStart := rest, copiesPendingStartCount := copiesPendingStartCount q - 1\<rparr>)"
  using assms by (auto simp: queue_inv_def ready_inv_def)

lemma queue_inv_take:
  "queue_inv n m todo [] (r # L) nb M q \<Longrightarrow> queue_inv n m todo [r] L nb M q"
  by (auto simp: queue_inv_def wait_inv_def ready_inv_def)

lemma queue_inv_wait:
  assumes "queue_inv n m todo [r] L nb M q" "runners q r = Some t" "savedError t = None" "writeOffset t < chunk_end t"
  shows "queue_inv n m todo [] (L @ [r]) nb M q"
  using assms by (auto simp: queue_inv_def wait_inv_def ready_inv_def)

subsection \<open>Blocks\<close>

lemma heap_inv_give:
  assumes "heap_inv p h B" "B r = Some 0" "p \<noteq> 0"
  shows "heap_inv 0 h (B(r \<mapsto> p))"
proof -
  note inv = assms(1) [unfolded heap_inv_def]
  have "x \<in> ran (B(r \<mapsto> p)) \<longleftrightarrow> x = p \<or> x \<in> ran B" if "x \<noteq> 0" for x
    using that assms(2) by (auto simp: ran_def) (metis option.inject)
  then have "held h = {b. b \<noteq> 0 \<and> (b = 0 \<or> b \<in> ran (B(r \<mapsto> p)))}" using inv by auto
  moreover have "x = y" if "(B(r \<mapsto> p)) x = Some b" "(B(r \<mapsto> p)) y = Some b" "b \<noteq> 0" for x y b
    using that inv by (auto split: if_splits)
  ultimately show ?thesis using inv unfolding heap_inv_def by blast
qed

lemma queue_inv_give:
  assumes "queue_inv n m todo W L p M q" "runners q r = Some t" "buffer t = 0" "p \<noteq> 0"
    and "changed r (t\<lparr>buffer := p, bufferAligned := al\<rparr>) q q'"
  shows "queue_inv n m todo W L 0 M q'"
proof -
  let ?t = "t\<lparr>buffer := p, bufferAligned := al\<rparr>"
  note inv = assms(1) [unfolded queue_inv_def] and c = assms(5) [unfolded changed_def calm_def]
  have q': "runners q' = (runners q)(r \<mapsto> ?t)" using c by simp
  have dom: "dom (runners q') = dom (runners q)" using assms(2) unfolding q' by auto
  have get: "runners q' x = Some y \<longleftrightarrow> (if x = r then y = ?t else runners q x = Some y)" for x y unfolding q' by auto
  have "obj_inv todo (next_object q) (dom (fds q)) (counters q) (runners q')"
    unfolding q' by (rule obj_inv_upd [of _ _ _ _ _ _ t]) (use inv assms(2) in \<open>simp_all add: same_files_def\<close>)
  moreover have "ev_inv (runners q') M" using inv assms(2) unfolding ev_inv_def dom get by (auto simp: chunk_end_def)
  moreover have "wait_inv (W @ copiesPendingStart q @ L) (runners q')"
    using inv assms(2) unfolding wait_inv_def dom get by auto
  moreover have "ready_inv (set (copiesPendingStart q @ L)) (runners q')"
    using inv assms(2) unfolding ready_inv_def get by (auto simp: chunk_end_def)
  moreover have "live_inv (keepAliveCount q) (runners q')" using inv unfolding live_inv_def dom by simp
  moreover have "heap_inv 0 (copyBufferHeap q) (buffers (runners q'))"
  proof -
    have "heap_inv 0 (copyBufferHeap q) ((buffers (runners q))(r \<mapsto> p))"
      by (rule heap_inv_give) (use inv assms(2-4) in \<open>auto simp: buffers_def\<close>)
    then show ?thesis unfolding q' by simp
  qed
  ultimately show ?thesis using inv c unfolding queue_inv_def by simp
qed

lemma heap_inv_fetch:
  assumes "heap_inv 0 h B" "getBlock h = (h', x)"
  shows "heap_inv (case x of None \<Rightarrow> 0 | Some p \<Rightarrow> p) h' B"
proof (cases x)
  case None
  then have "h' = h" using getBlock_None [of h h'] assms by (auto simp: heap_inv_def)
  then show ?thesis using None assms(1) by simp
next
  case (Some p)
  note inv = assms(1) [unfolded heap_inv_def]
  have wf: "heap_wf h" using inv by blast
  note g = getBlock_Some [OF wf assms(2) [unfolded Some]]
  have "p \<noteq> 0" using g(5) block_in_slab(3) [OF wf] by auto
  moreover have "b \<noteq> p" if "B r = Some b" "b \<noteq> 0" for r b
  proof -
    have "b \<in> held h" using inv that by (auto intro: ranI)
    then show ?thesis using g(1) by blast
  qed
  ultimately show ?thesis using Some inv g(2,3) unfolding heap_inv_def by auto
qed

lemma queue_inv_fetch:
  assumes "queue_inv n m todo W L (nextBuffer s) M (queue s)"
  shows "queue_inv n m todo W L (nextBuffer (fetch_buffer s)) M (queue (fetch_buffer s))"
proof (cases "nextBuffer s = 0")
  case True
  obtain h x where g: "getBlock (copyBufferHeap (queue s)) = (h, x)" by fastforce
  have "heap_inv (case x of None \<Rightarrow> 0 | Some p \<Rightarrow> p) h (buffers (runners (queue s)))"
    by (rule heap_inv_fetch [OF _ g]) (use assms True in \<open>simp add: queue_inv_def\<close>)
  then show ?thesis using assms True g by (simp add: fetch_buffer_def queue_inv_def)
qed (use assms in \<open>simp add: fetch_buffer_def\<close>)

section \<open>The kernel keeps the invariant\<close>

text \<open>What the queue knows of the ring: its shape, the outstanding events of its runners, and their number.\<close>

definition ring_ok :: "nat \<Rightarrow> nat \<Rightarrow> (nat \<rightharpoonup> CopyRunner) \<Rightarrow> nat \<Rightarrow> io_uring \<times> io_uring_sqe multiset \<Rightarrow> bool" where
  "ring_ok n m R k = (\<lambda>(rng, F). ring_inv n m rng \<and> ev_inv R (outstanding rng F) \<and> size (outstanding rng F) = k)"

lemma kernel_step_ok:
  assumes "kernel_step x y" "ring_ok n m R k x"
  shows "ring_ok n m R k y"
  using assms
proof cases
  case (consume rng e es F)
  let ?sq = "ring_sq rng"
  have sq: "sq_inv n ?sq" using assms(2) consume by (simp add: ring_ok_def ring_inv_def)
  have one: "1 \<le> length (sq_visible ?sq)" using consume by simp
  note c = sq_consume_inv [OF sq one]
  have "sq_queued ?sq = e # tl (sq_queued ?sq)"
    using sq_visible_prefix [OF sq] consume(3) by (cases "sq_queued ?sq") auto
  then have "mset (sq_queued ?sq) = add_mset e (mset (sq_queued (sq_consume 1 ?sq)))"
    unfolding c(3) by (metis drop_Suc drop_0 mset.simps(2) One_nat_def)
  then have "outstanding (rng\<lparr>ring_sq := sq_consume 1 ?sq\<rparr>) (add_mset e F) = outstanding rng F"
    by (simp add: outstanding_eq)
  then show ?thesis
    using assms(2) consume c(1) by (simp add: ring_ok_def ring_inv_def cq_ring_needs_flush_def sq_consume_def)
next
  case (complete e F rng c rng')
  obtain cq where cq: "cq_post (ring_cq rng) c = Some cq" "rng' = rng\<lparr>ring_cq := cq\<rparr>"
    using complete(4) by (auto simp: ring_post_def)
  have inv: "cq_inv m (ring_cq rng)" using assms(2) complete by (simp add: ring_ok_def ring_inv_def)
  note p = cq_post_pending [OF inv cq(1)]
  obtain N where N: "outstanding rng F = add_mset (sqe_event e) N" "outstanding rng' (F - {#e#}) = add_mset (cqe_event c) N"
  proof -
    obtain F0 where F0: "F = add_mset e F0" using complete(3) by (metis insert_DiffM)
    show thesis
      by (rule that [of "image_mset sqe_event (mset (sq_queued (ring_sq rng)) + F0) +
        image_mset cqe_event (mset (cq_pending (ring_cq rng)))"]) (simp_all add: outstanding_eq F0 cq(2) p(2))
  qed
  have "ev_inv R (add_mset (sqe_user_data e, uint (sqe_len e)) N)"
    using assms(2) complete(1) N(1) by (simp add: ring_ok_def sqe_event_def)
  then have "ev_inv R (add_mset (cqe_event c) N)"
    using ev_inv_lower complete(5,6) by (simp add: cqe_event_def)
  then show ?thesis
    using assms(2) complete(1,2) N p(1) cq(2) by (simp add: ring_ok_def ring_inv_def cq_ring_needs_flush_def)
next
  case (flags f rng F)
  have "sq_inv n (sq\<lparr>sq_kflags := f\<rparr>) = sq_inv n sq" "sq_queued (sq\<lparr>sq_kflags := f\<rparr>) = sq_queued sq" for sq
    by (simp_all add: sq_inv_def sq_queued_def)
  then show ?thesis
    using assms(2) flags by (simp add: ring_ok_def ring_inv_def cq_ring_needs_flush_def outstanding_eq)
qed

lemma kernel_run_ok:
  assumes "kernel_run x y" "ring_ok n m R k x"
  shows "ring_ok n m R k y"
  using assms by (induction rule: kernel_run.induct) (auto dest: kernel_step_ok)

lemma enter_ok:
  assumes "enter_law flight enter" "enter fd c1 c2 f g h rng w = (ret, err, rng', w')" "ring_ok n m R k (rng, flight w)"
  shows "ring_ok n m R k (rng', flight w')"
proof -
  have "kernel_run (rng, flight w) (rng', flight w')"
    using assms(1,2) unfolding enter_law_def by (metis (mono_tags, lifting) case_prod_conv)
  then show ?thesis using assms(3) by (rule kernel_run_ok)
qed

lemma flush_ok:
  assumes "io_uring_flush_sq rng = (rng', r)" "ring_ok n m R k (rng, F)"
  shows "ring_ok n m R k (rng', F)"
proof -
  have sq: "sq_inv n (ring_sq rng)" using assms(2) by (simp add: ring_ok_def ring_inv_def)
  obtain sq' r' where fl: "io_uring_flush_sq_sq (ring_sq rng) = (sq', r')" by fastforce
  have rng': "rng' = rng\<lparr>ring_sq := sq'\<rparr>" using assms(1) fl by (simp add: io_uring_flush_sq_def)
  have eq: "sq' = (ring_sq rng)\<lparr>sq_array := sq_array sq', sq_ktail := sq_sqe_tail (ring_sq rng),
      sq_sqe_head := sq_sqe_tail (ring_sq rng)\<rparr>" "sq_inv n sq'"
    using io_uring_flush_sq_sq_eq [OF sq fl] by blast+
  have "sq_kflags sq' = sq_kflags (ring_sq rng)" by (subst eq(1)) simp
  then show ?thesis
    using assms(2) eq(2) flush_publishes(1) [OF sq fl]
    by (simp add: rng' ring_ok_def ring_inv_def cq_ring_needs_flush_def outstanding_eq)
qed

lemma submit_cases:
  assumes "io_uring_submit enter rng w = (ret, rng', w')"
  obtains (same) c where "io_uring_flush_sq rng = (rng', c)" "w' = w"
  | (enter) rng1 c a b f ret' err where "io_uring_flush_sq rng = (rng1, c)" "enter (ring_fd rng1) a b f 0 8 rng1 w = (ret', err, rng', w')"
proof -
  obtain rng1 c where fl: "io_uring_flush_sq rng = (rng1, c)" by fastforce
  consider "rng' = rng1" "w' = w" | a b f ret' err where "enter (ring_fd rng1) a b f 0 8 rng1 w = (ret', err, rng', w')"
    using assms fl
    by (auto simp: io_uring_submit_def io_uring_submit_and_wait_def io_uring_submit_internal_def Let_def
        split: prod.splits if_splits)
  then show thesis by cases (use that fl in blast)+
qed

text \<open>Whatever a single call keeps is kept by the loop around it.\<close>

lemma submit_retry_preserves:
  assumes "submit_retry enter rng w = Some (ret, rng', w')" "P rng w"
    and step: "\<And>rng w ret rng' w'. P rng w \<Longrightarrow> io_uring_submit enter rng w = (ret, rng', w') \<Longrightarrow> P rng' w'"
  shows "P rng' w'"
proof -
  let ?P = "\<lambda>e rng w x. e = enter \<longrightarrow> P rng w \<longrightarrow> P (fst (snd x)) (snd (snd x))"
  have "?P enter rng w (ret, rng', w')"
  proof (rule submit_retry.raw_induct [where P = ?P, OF _ assms(1)], intro impI)
    fix f e rng w x
    assume IH: "\<And>e rng w x. f e rng w = Some x \<Longrightarrow> ?P e rng w x"
      and eq: "(case io_uring_submit e rng w of (ret, rng, w) \<Rightarrow>
        if ret = - EAGAIN \<or> ret = - EINTR then f e rng w else Some (ret, rng, w)) = Some x"
      and e: "e = enter" and ok: "P rng w"
    obtain ret rng1 w1 where s: "io_uring_submit enter rng w = (ret, rng1, w1)" by (metis prod_cases3)
    note ok1 = step [OF ok s]
    show "P (fst (snd x)) (snd (snd x))"
    proof (cases "ret = - EAGAIN \<or> ret = - EINTR")
      case True
      then have "f e rng1 w1 = Some x" using eq s e by simp
      then show ?thesis using IH e ok1 by blast
    next
      case False
      then have "x = (ret, rng1, w1)" using eq s e by simp
      then show ?thesis using ok1 by simp
    qed
  qed
  then show ?thesis using assms(2) by simp
qed

lemma submit_ok:
  assumes "enter_law flight enter" "io_uring_submit enter rng w = (ret, rng', w')" "ring_ok n m R k (rng, flight w)"
  shows "ring_ok n m R k (rng', flight w')"
  using assms(2)
proof (cases rule: submit_cases)
  case same
  then show ?thesis using flush_ok assms(3) by blast
next
  case enter
  then show ?thesis using enter_ok [OF assms(1) enter(2)] flush_ok assms(3) by blast
qed

lemma submit_retry_ok:
  assumes "enter_law flight enter" "submit_retry enter rng w = Some (ret, rng', w')" "ring_ok n m R k (rng, flight w)"
  shows "ring_ok n m R k (rng', flight w')"
  by (rule submit_retry_preserves [OF assms(2), where P = "\<lambda>rng w. ring_ok n m R k (rng, flight w)", OF assms(3)])
    (rule submit_ok [OF assms(1)])

section \<open>One turn of the submit thread\<close>

text \<open>The invariant of the submit thread, for the chunks that the main thread has still to add.\<close>

definition sub_inv ::
  "nat \<Rightarrow> nat \<Rightarrow> ('w \<Rightarrow> io_uring_sqe multiset) \<Rightarrow> (nat \<Rightarrow> nat) \<Rightarrow> nat list \<Rightarrow> 'w submitter \<Rightarrow> bool" where
  "sub_inv n m flight todo W s \<longleftrightarrow>
     (let q = queue s; M = outstanding (ring q) (flight (world s))
      in queue_inv n m todo W (copiesPendingContinue s) (nextBuffer s) M q \<and>
         submissionsRunning q = of_nat (size M) \<and> size M \<le> 2 ^ n)"

lemma sub_inv_quiet:
  assumes "sub_inv n m flight todo W s" "quiet (queue s) q'" "flight w' = flight (world s)"
  shows "sub_inv n m flight todo W (s\<lparr>queue := q', world := w'\<rparr>)"
  using assms queue_inv_quiet [OF _ assms(2)] by (simp add: sub_inv_def Let_def quiet_def)

lemma sub_inv_deleted:
  assumes "sub_inv n m flight todo [r] s" "runners (queue s) r = Some t" "deleted nd r t (queue s) q'"
    and "flight w' = flight (world s)"
  shows "sub_inv n m flight todo [] (s\<lparr>queue := q', world := w'\<rparr>)"
  using assms queue_inv_deleted [OF _ assms(2,3)] by (simp add: sub_inv_def Let_def deleted_def)

lemma may_add_room:
  assumes "may_add s" "sub_inv n m flight todo W s"
  shows "size (outstanding (ring (queue s)) (flight (world s))) + 2 \<le> 2 ^ n"
proof -
  let ?k = "size (outstanding (ring (queue s)) (flight (world s)))"
  have sq: "sq_inv n (ring_sq (ring (queue s)))" and rs: "ringSize (queue s) = 2 ^ n"
    and sr: "submissionsRunning (queue s) = of_nat ?k" and le: "?k \<le> 2 ^ n"
    using assms(2) by (simp_all add: sub_inv_def Let_def queue_inv_def ring_inv_def)
  have n: "n < 32" using sq by (simp add: sq_inv_def ring_size_def)
  have "(2::nat) ^ n < 2 ^ 32" using n by (intro power_strict_increasing) simp_all
  then have u: "unat (of_nat ?k :: u32) = ?k" using le by (simp add: unat_of_nat)
  have p: "unat (2 ^ n :: u64) = 2 ^ n" using n by (intro unat_power_two) simp
  have c: "unat (ucast (of_nat ?k :: u32) :: u64) = ?k"
    using u unat_u32_bound [of "of_nat ?k"] by (simp add: unsigned_ucast_eq take_bit_nat_eq_self_iff)
  have "unat (ringSize (queue s) - ucast (submissionsRunning (queue s))) = 2 ^ n - ?k"
    unfolding rs sr by (subst unat_sub) (use c p le in \<open>simp_all add: word_le_nat_alt\<close>)
  moreover have "\<not> ringSize (queue s) - ucast (submissionsRunning (queue s)) < 2"
    using assms(1) by (simp add: may_add_def Let_def MAX_JOBS_PER_RUNNER_def)
  ultimately have "2 \<le> 2 ^ n - ?k" by (simp add: word_less_nat_alt)
  then show ?thesis using le by linarith
qed

lemma fetch_frame [simp]:
  "copiesPendingContinue (fetch_buffer s) = copiesPendingContinue s" "world (fetch_buffer s) = world s"
  "ring (queue (fetch_buffer s)) = ring (queue s)" "submissionsRunning (queue (fetch_buffer s)) = submissionsRunning (queue s)"
  "q_state (queue (fetch_buffer s)) = q_state (queue s)" "runnersAdded (fetch_buffer s) = runnersAdded s"
  by (simp_all add: fetch_buffer_def split: prod.splits)

lemma fetch_ok: "sub_inv n m flight todo W s \<Longrightarrow> sub_inv n m flight todo W (fetch_buffer s)"
  using queue_inv_fetch [of n m todo W "copiesPendingContinue s" s] by (simp add: sub_inv_def Let_def)

text \<open>
  The state after a runner was taken: it is on its way, has bytes to write unless its file is empty,
  and the ring and the state of the queue are as before.
\<close>

definition picked ::
  "nat \<Rightarrow> nat \<Rightarrow> ('w \<Rightarrow> io_uring_sqe multiset) \<Rightarrow> (nat \<Rightarrow> nat) \<Rightarrow> 'w submitter \<Rightarrow> nat option \<Rightarrow> 'w submitter \<Rightarrow> bool" where
  "picked n m flight todo s x s' \<longleftrightarrow>
     ring (queue s') = ring (queue s) \<and> world s' = world s \<and> q_state (queue s') = q_state (queue s) \<and>
     (case x of
        None \<Rightarrow> sub_inv n m flight todo [] s'
      | Some r \<Rightarrow> sub_inv n m flight todo [r] s' \<and>
          (\<exists>t. runners (queue s') r = Some t \<and> (cr_size t \<noteq> 0 \<longrightarrow> writeOffset t < cr_offset t + cr_size t)))"

lemma pick_start_cases:
  assumes "pick_start nd s = Inr (x, s')"
  obtains (none) "x = None" "s' = s"
  | (start) r rest t q1 nb1 where "x = Some r" "copiesPendingStart (queue s) = r # rest" "runners (queue s) r = Some t" "nextBuffer s \<noteq> 0"
      "if needsBuffer t then giveBuffer nd r (nextBuffer s) (queue s) = Inr q1 \<and> nb1 = 0 else q1 = queue s \<and> nb1 = nextBuffer s"
      "s' = s\<lparr>queue := q1\<lparr>copiesPendingStart := rest, copiesPendingStartCount := copiesPendingStartCount q1 - 1\<rparr>, nextBuffer := nb1\<rparr>"
proof (cases "x = None")
  case True
  then have "s' = s" using assms by (auto simp: pick_start_def effect_simps Let_def split: list.splits)
  then show thesis using True that(1) by blast
next
  case False
  obtain r rest t where pend: "copiesPendingStart (queue s) = r # rest" and t: "runners (queue s) r = Some t" and nb: "nextBuffer s \<noteq> 0"
    using assms False by (auto simp: pick_start_def effect_simps Let_def split: list.splits)
  obtain q1 nb1 where q1: "(if needsBuffer t then giveBuffer nd r (nextBuffer s) (queue s) = Inr q1 \<and> nb1 = 0
        else q1 = queue s \<and> nb1 = nextBuffer s)"
    and s': "x = Some r" "s' = s\<lparr>queue := q1\<lparr>copiesPendingStart := rest, copiesPendingStartCount := copiesPendingStartCount q1 - 1\<rparr>,
        nextBuffer := nb1\<rparr>"
    using assms False pend t
    by (cases "needsBuffer t") (auto simp: pick_start_def effect_simps Let_def)
  show thesis by (rule that(2) [OF s'(1) pend t nb q1 s'(2)])
qed

lemma pick_start_ok:
  assumes "sub_inv n m flight todo [] s" "pick_start nd s = Inr (x, s')"
  shows "picked n m flight todo s x s'"
  using assms(2)
proof (cases rule: pick_start_cases)
  case none
  then show ?thesis using assms(1) by (simp add: picked_def)
next
  case (start r rest t q1 nb1)
  note pend = start(2) and t = start(3) and nb = start(4) and q1 = start(5) and s' = start(1,6)
  let ?q = "queue s" and ?L = "copiesPendingContinue s"
  let ?M = "outstanding (ring ?q) (flight (world s))"
  have inv: "queue_inv n m todo [] ?L (nextBuffer s) ?M ?q" "submissionsRunning ?q = of_nat (size ?M)" "size ?M \<le> 2 ^ n"
    using assms(1) by (simp_all add: sub_inv_def Let_def)
  have ready: "cr_size t \<noteq> 0 \<Longrightarrow> writeOffset t < cr_offset t + cr_size t"
    using queue_inv_runner(4) [OF inv(1) t] pend by (simp add: chunk_end_def)
  have "queue_inv n m todo [] ?L nb1 ?M q1 \<and> ring q1 = ring ?q \<and> submissionsRunning q1 = submissionsRunning ?q \<and>
      q_state q1 = q_state ?q \<and> copiesPendingStart q1 = r # rest \<and>
      (\<exists>t. runners q1 r = Some t \<and> (cr_size t \<noteq> 0 \<longrightarrow> writeOffset t < cr_offset t + cr_size t))"
  proof (cases "needsBuffer t")
    case True
    then obtain al where "changed r (t\<lparr>buffer := nextBuffer s, bufferAligned := al\<rparr>) ?q q1"
      using giveBuffer_effect [OF _ t] q1 by metis
    then show ?thesis
      using queue_inv_give [OF inv(1) t _ nb, of al q1] True q1 pend ready
      by (simp add: needsBuffer_def changed_def calm_def)
  qed (use q1 inv pend t ready in simp)
  then show ?thesis
    using queue_inv_pop [of n m todo ?L nb1 ?M q1 r rest] inv(2,3) s'
    by (simp add: picked_def sub_inv_def Let_def)
qed

lemma pick_runner_cases:
  assumes "pick_runner nd s = Inr (x, s')"
  obtains (continue) r rest t where "x = Some r" "copiesPendingContinue s = r # rest" "runners (queue (fetch_buffer s)) r = Some t"
      "s' = (fetch_buffer s)\<lparr>copiesPendingContinue := rest\<rparr>"
  | (start) "copiesPendingContinue s = []" "pick_start nd (fetch_buffer s) = Inr (x, s')"
proof (cases "copiesPendingContinue s")
  case Nil
  then show thesis using that(2) assms by (simp add: pick_runner_def pick_continue_def)
next
  case (Cons r rest)
  then have "copiesPendingContinue (fetch_buffer s) = r # rest" by simp
  then obtain t where "runners (queue (fetch_buffer s)) r = Some t" "x = Some r" "s' = (fetch_buffer s)\<lparr>copiesPendingContinue := rest\<rparr>"
    using assms by (auto simp: pick_runner_def pick_continue_def effect_simps)
  then show thesis using that(1) Cons by blast
qed

lemma pick_runner_ok:
  assumes "sub_inv n m flight todo [] s" "pick_runner nd s = Inr (x, s')"
  shows "picked n m flight todo s x s'"
  using assms(2)
proof (cases rule: pick_runner_cases)
  case start
  from pick_start_ok [OF fetch_ok [OF assms(1)] start(2)] show ?thesis by (simp add: picked_def)
next
  case (continue r rest t)
  note x = continue(1,4) and t = continue(3)
  let ?s = "fetch_buffer s"
  have L: "copiesPendingContinue ?s = r # rest" using continue(2) by simp
  have inv: "sub_inv n m flight todo [] ?s" by (rule fetch_ok [OF assms(1)])
  then have q: "queue_inv n m todo [] (r # rest) (nextBuffer ?s) (outstanding (ring (queue ?s)) (flight (world ?s))) (queue ?s)"
    using L by (simp add: sub_inv_def Let_def)
  have "cr_size t \<noteq> 0 \<Longrightarrow> writeOffset t < cr_offset t + cr_size t"
    using queue_inv_runner(4) [OF q t] by (simp add: chunk_end_def)
  then show ?thesis
    using inv queue_inv_take [OF q] t x by (simp add: picked_def sub_inv_def Let_def)
qed

lemma deleted_state: "deleted nd r t q q' \<Longrightarrow> q_state q' = q_state q"
  by (simp add: deleted_def)

lemma quiet_state: "quiet q q' \<Longrightarrow> q_state q' = q_state q"
  by (simp add: quiet_def calm_def)

text \<open>Deleting the runner on its way after quiet operations.\<close>

lemma sub_inv_quiet_delete:
  assumes "sub_inv n m flight todo [r] s" "quiet (queue s) q1" "CopyRunner_delete nd r q1 = Inr q2" "quiet q2 q'"
    and "flight w' = flight (world s)"
  shows "sub_inv n m flight todo [] (s\<lparr>queue := q', world := w'\<rparr>)" "q_state q' = q_state (queue s)"
proof -
  obtain t where t: "runners q1 r = Some t" using assms(3) by (auto simp: CopyRunner_delete_def effect_simps)
  note d = CopyRunner_delete_effect [OF assms(3) t]
  let ?s1 = "s\<lparr>queue := q1, world := w'\<rparr>"
  have "sub_inv n m flight todo [r] ?s1" by (rule sub_inv_quiet [OF assms(1,2,5)])
  then have "sub_inv n m flight todo [] (?s1\<lparr>queue := q2, world := w'\<rparr>)"
    by (rule sub_inv_deleted) (use t d in auto)
  from sub_inv_quiet [OF this, of q' w'] assms(4)
  show "sub_inv n m flight todo [] (s\<lparr>queue := q', world := w'\<rparr>)" by simp
  show "q_state q' = q_state (queue s)"
    using quiet_state [OF assms(2)] deleted_state [OF d] quiet_state [OF assms(4)] by simp
qed

lemma add_empty_ok:
  assumes "os_keeps flight os" "sub_inv n m flight todo [r] s" "add_empty cfg os r s = Inr (x, s')"
  shows "sub_inv n m flight todo [] s' \<and> q_state (queue s') = q_state (queue s)"
proof -
  obtain t :: CopyRunner and res1 q1 w1 res q2 w2 q3 where st: "ensureOpened (NDEBUG cfg) os (destFd t) (queue s) (world s) = Inr (res1, q1, w1)"
    "(case res1 of Inl e \<Rightarrow> Inr (Inl e, q1, w1) | Inr _ \<Rightarrow> handleFileClose (NDEBUG cfg) os r q1 w1) = Inr (res, q2, w2)"
    "CopyRunner_delete (NDEBUG cfg) r (report res q2) = Inr q3" "s' = s\<lparr>queue := q3, world := w2\<rparr>"
    using assms(3) unfolding add_empty_def by (auto simp: with_runner_Inr and_then_Inr)
  have "quiet q1 q2 \<and> flight w2 = flight w1"
    using st(2) handleFileClose_quiet handleFileClose_keeps [OF assms(1)] by (auto split: sum.split_asm)
  then have "quiet (queue s) (report res q2)" "flight w2 = flight (world s)"
    using ensureOpened_quiet [OF st(1)] ensureOpened_keeps [OF assms(1) st(1)] by (auto intro: quiet_trans)
  then show ?thesis
    using sub_inv_quiet_delete [OF assms(2) _ st(3), of q3 w2] st(4) by simp
qed

lemma add_copy_ok:
  assumes "os_keeps flight os" "sub_inv n m flight todo [r] s" "add_copy cfg os r s = Inr (x, s')"
    and "runners (queue s) r = Some t" "writeOffset t < cr_offset t + cr_size t"
    and "size (outstanding (ring (queue s)) (flight (world s))) + 2 \<le> 2 ^ n"
  shows "sub_inv n m flight todo [] s' \<and> q_state (queue s') = q_state (queue s)"
proof -
  let ?q = "queue s"
  let ?M = "outstanding (ring ?q) (flight (world s))"
  obtain res q1 w1 where a: "addToBatch cfg os r ?q (world s) = Inr (res, q1, w1)"
    using assms(3) by (auto simp: add_copy_def effect_simps)
  have inv: "queue_inv n m todo [r] (copiesPendingContinue s) (nextBuffer s) ?M ?q" "submissionsRunning ?q = of_nat (size ?M)"
    using assms(2) by (simp_all add: sub_inv_def Let_def)
  have sq: "sq_inv n (ring_sq (ring ?q))" using inv(1) by (simp add: queue_inv_def ring_inv_def)
  have room: "length (sq_queued (ring_sq (ring ?q))) + 2 \<le> 2 ^ n" using assms(6) by (simp add: outstanding_eq)
  have fl: "flight w1 = flight (world s)" by (rule addToBatch_keeps [OF assms(1) a])
  from addToBatch_effect [OF a assms(4) sq room assms(5)] show ?thesis
  proof
    assume "(\<exists>e. res = Inl e) \<and> quiet ?q q1"
    then obtain e q2 where e: "res = Inl e" "quiet ?q q1" "CopyRunner_delete (NDEBUG cfg) r q1 = Inr q2"
      "s' = s\<lparr>queue := onError e q2, world := w1\<rparr>"
      using assms(3) a by (auto simp: add_copy_def effect_simps)
    then show ?thesis using sub_inv_quiet_delete [OF assms(2) e(2,3) _ fl, of "onError e q2"] by simp
  next
    assume "res = Success \<and> (\<exists>es. runner_batch r t es \<and> batched n r es ?q q1)"
    then obtain es where es: "res = Success" "runner_batch r t es" "batched n r es ?q q1" by blast
    have s': "s' = s\<lparr>queue := q1, world := w1, runnersAdded := runnersAdded s + 1\<rparr>"
      using assms(3) a es(1) by (auto simp: add_copy_def effect_simps)
    have len: "length es \<le> 2" using runner_batch_events(5) [OF es(2) queue_inv_runner(1) [OF inv(1) assms(4)]] .
    have M': "outstanding (ring q1) (flight w1) = ?M + image_mset sqe_event (mset es)"
      using es(3) fl by (simp add: batched_def outstanding_eq)
    have "submissionsRunning q1 = of_nat (size (outstanding (ring q1) (flight w1)))"
      "size (outstanding (ring q1) (flight w1)) \<le> 2 ^ n" "q_state q1 = q_state ?q"
      using es(3) inv(2) assms(6) len by (simp_all add: M' batched_def calm_def)
    then show ?thesis
      using queue_inv_batched [OF inv(1) assms(4) es(3,2)] s' by (simp add: sub_inv_def Let_def M')
  qed
qed

lemma adding_turn_cases:
  assumes "adding_turn cfg os s = Inr (x, s')"
  obtains (stop) "s' = s"
  | (none) "pick_runner (NDEBUG cfg) s = Inr (None, s')"
  | (some) r t s1 where "may_add s" "pick_runner (NDEBUG cfg) s = Inr (Some r, s1)" "runners (queue s1) r = Some t"
      "(if cr_size t = 0 then add_empty cfg os r s1 else add_copy cfg os r s1) = Inr (x, s')"
proof (cases "may_add s")
  case False
  then show thesis using that(1) assms by (simp add: adding_turn_def)
next
  case True
  obtain y s1 where p: "pick_runner (NDEBUG cfg) s = Inr (y, s1)"
    using assms True by (auto simp: adding_turn_def effect_simps)
  show thesis
  proof (cases y)
    case None
    then show thesis using that(2) assms True p by (auto simp: adding_turn_def effect_simps)
  next
    case (Some r)
    then obtain t where t: "runners (queue s1) r = Some t" using assms True p by (auto simp: adding_turn_def effect_simps)
    then have "(if cr_size t = 0 then add_empty cfg os r s1 else add_copy cfg os r s1) = Inr (x, s')"
      using assms True p Some by (simp add: adding_turn_def with_runner_def)
    then show thesis using that(3) True p Some t by blast
  qed
qed

lemma adding_turn_ok:
  assumes "os_keeps flight os" "sub_inv n m flight todo [] s" "adding_turn cfg os s = Inr (x, s')"
  shows "sub_inv n m flight todo [] s' \<and> q_state (queue s') = q_state (queue s)"
  using assms(3)
proof (cases rule: adding_turn_cases)
  case stop
  then show ?thesis using assms(2) by simp
next
  case none
  then show ?thesis using pick_runner_ok [OF assms(2) none] by (simp add: picked_def)
next
  case (some r t s1)
  note pk = pick_runner_ok [OF assms(2) some(2), unfolded picked_def]
  have room: "size (outstanding (ring (queue s1)) (flight (world s1))) + 2 \<le> 2 ^ n"
    using may_add_room [OF some(1) assms(2)] pk by simp
  have t: "cr_size t \<noteq> 0 \<longrightarrow> writeOffset t < cr_offset t + cr_size t"
    and inv: "sub_inv n m flight todo [r] s1" using pk some(3) by auto
  have "sub_inv n m flight todo [] s' \<and> q_state (queue s') = q_state (queue s1)"
    using some(4) add_empty_ok [OF assms(1) inv] add_copy_ok [OF assms(1) inv _ some(3) _ room] t by (auto split: if_splits)
  then show ?thesis using pk by simp
qed

lemma submit_batch_ok:
  assumes "enter_law flight enter" "sub_inv n m flight todo [] s" "submit_batch enter s = Inr s'"
  shows "sub_inv n m flight todo [] s' \<and> q_state (queue s') = q_state (queue s)"
proof (cases "runnersAdded s = 0")
  case True
  then show ?thesis using assms by (simp add: submit_batch_def)
next
  case False
  let ?M = "outstanding (ring (queue s)) (flight (world s))"
  obtain ret rng w where r: "submit_retry enter (ring (queue s)) (world s) = Some (ret, rng, w)"
    "s' = s\<lparr>queue := (queue s)\<lparr>ring := rng\<rparr>, world := w\<rparr>"
    using assms(3) False by (auto simp: submit_batch_def effect_simps)
  have "ring_ok n m (runners (queue s)) (size ?M) (ring (queue s), flight (world s))"
    using assms(2) by (simp add: ring_ok_def sub_inv_def Let_def queue_inv_def)
  from submit_retry_ok [OF assms(1) r(1) this] show ?thesis
    using assms(2) r(2) by (simp add: ring_ok_def sub_inv_def Let_def queue_inv_def)
qed

lemma queue_inv_quiet_delete:
  assumes "queue_inv n m todo [r] L nb M q" "quiet q q1" "CopyRunner_delete nd r q1 = Inr q'"
  shows "queue_inv n m todo [] L nb M q'" "q_state q' = q_state q" "ring q' = ring q"
    "submissionsRunning q' = submissionsRunning q"
proof -
  obtain t where t: "runners q1 r = Some t" using assms(3) by (auto simp: CopyRunner_delete_def effect_simps)
  note d = CopyRunner_delete_effect [OF assms(3) t]
  show "queue_inv n m todo [] L nb M q'"
    by (rule queue_inv_deleted [OF queue_inv_quiet [OF assms(1,2)] t d])
  show "q_state q' = q_state q" "ring q' = ring q" "submissionsRunning q' = submissionsRunning q"
    using d assms(2) by (simp_all add: deleted_def quiet_def calm_def)
qed

lemma settle_ok:
  assumes "os_keeps flight os" "settle cfg os r (runner_verdict t) s = Inr s'" "runners (queue s) r = Some t"
    and "queue_inv n m todo (if jobsRunning t = 0 then [r] else []) (copiesPendingContinue s) (nextBuffer s) M (queue s)"
  shows "queue_inv n m todo [] (copiesPendingContinue s') (nextBuffer s') M (queue s') \<and>
    q_state (queue s') = q_state (queue s) \<and> ring (queue s') = ring (queue s) \<and>
    submissionsRunning (queue s') = submissionsRunning (queue s) \<and> flight (world s') = flight (world s)"
proof (cases "jobsRunning t = 0")
  case False
  then show ?thesis using assms by (simp add: runner_verdict_def settle_def)
next
  case True
  then have inv: "queue_inv n m todo [r] (copiesPendingContinue s) (nextBuffer s) M (queue s)" using assms(4) by simp
  consider (err) e where "savedError t = Some e"
    | (fin) "savedError t = None" "writeOffset t = cr_offset t + cr_size t"
    | (again) "savedError t = None" "writeOffset t \<noteq> cr_offset t + cr_size t" by fastforce
  then show ?thesis
  proof cases
    case err
    then obtain q1 where "CopyRunner_delete (NDEBUG cfg) r (onError e (queue s)) = Inr q1" "s' = s\<lparr>queue := q1\<rparr>"
      using assms(2) True by (auto simp: runner_verdict_def settle_def effect_simps)
    then show ?thesis using queue_inv_quiet_delete [OF inv onError_quiet] by simp
  next
    case fin
    then obtain res q1 w1 and t1 :: CopyRunner and q2 where st: "handleFileClose (NDEBUG cfg) os r (queue s) (world s) = Inr (res, q1, w1)"
      "CopyRunner_delete (NDEBUG cfg) r ((report res q1)\<lparr>etaCalulator := onCopyCompleted (word_of_int (cr_size t1))
         (etaCalulator (report res q1))\<rparr>) = Inr q2" "s' = s\<lparr>queue := q2, world := w1\<rparr>"
      using assms(2) True by (auto simp: runner_verdict_def settle_def effect_simps Let_def)
    have "quiet q1 ((report res q1)\<lparr>etaCalulator := x\<rparr>)" for x
      using report_quiet [of q1 res] by (simp add: quiet_def calm_def)
    then have "quiet (queue s) ((report res q1)\<lparr>etaCalulator := x\<rparr>)" for x
      using handleFileClose_quiet [OF st(1)] by (blast intro: quiet_trans)
    then show ?thesis
      using queue_inv_quiet_delete [OF inv _ st(2)] handleFileClose_keeps [OF assms(1) st(1)] st(3) by simp
  next
    case again
    then have "s' = s\<lparr>copiesPendingContinue := copiesPendingContinue s @ [r]\<rparr>"
      using assms(2) True by (simp add: runner_verdict_def settle_def)
    moreover have "writeOffset t < chunk_end t"
      using again queue_inv_runner(3) [OF inv assms(3)] by (simp add: chunk_end_def)
    ultimately show ?thesis using queue_inv_wait [OF inv assms(3) again(1)] by simp
  qed
qed

lemma peek_app:
  assumes "ring_inv n m rng" "list_all app_cqe (cq_pending (ring_cq rng))" "io_uring_peek_cqe enter rng w = Some (err, cqe, rng', w')"
  shows "rng' = rng \<and> w' = w \<and> (case cq_pending (ring_cq rng) of [] \<Rightarrow> err = - EAGAIN \<and> cqe = None
    | e # es \<Rightarrow> err = 0 \<and> (\<exists>i. cqe = Some i \<and> cq_cqes (ring_cq rng) ! i = e))"
proof -
  obtain r1 c1 k1 e1 where p: "io_uring_peek_cqe_internal rng = (r1, c1, k1, e1)" by (metis prod_cases4)
  have nf: "\<not> cq_ring_needs_flush rng" using assms(1) by (simp add: ring_inv_def)
  have eq: "err = (if e1 \<noteq> 0 then e1 else if c1 = None then - EAGAIN else 0)" "cqe = c1" "rng' = r1" "w' = w"
    using peek_no_syscall [OF nf p, of enter w] assms(3) by simp_all
  have r1: "ring_peek rng = (map_option (\<lambda>i. cq_cqes (ring_cq r1) ! i) c1, r1)" using p by (simp add: ring_peek_def)
  have res: "peek_result rng r1 c1 e1" using peek_internal_result [OF p] by blast
  show ?thesis
  proof (cases "cq_pending (ring_cq rng)")
    case Nil
    then show ?thesis using ring_peek_app [OF assms(2)] r1 res eq by (auto simp: peek_result_def)
  next
    case (Cons e es)
    then have app: "cqe_user_data e \<noteq> LIBURING_UDATA_TIMEOUT" using assms(2) by (simp add: app_cqe_def)
    then have "e1 = 0" "r1 = rng" "\<exists>i. c1 = Some i \<and> cq_cqes (ring_cq rng) ! i = e"
      using ring_peek_app [OF assms(2)] r1 res Cons by (auto simp: peek_result_def internal_timeout_def)
    then show ?thesis using eq Cons by auto
  qed
qed

lemma event_not_timeout: "event_runner ud < 2 ^ 62 \<Longrightarrow> ud \<noteq> LIBURING_UDATA_TIMEOUT"
  by (auto simp: event_runner_def LIBURING_UDATA_TIMEOUT_def unsigned_minus_1_eq_mask mask_eq_exp_minus_1)

lemma pending_app:
  assumes "queue_inv n m todo W L nb (outstanding (ring q) F) q"
  shows "list_all app_cqe (cq_pending (ring_cq (ring q)))"
  unfolding list_all_iff app_cqe_def
proof (intro ballI event_not_timeout)
  fix c assume "c \<in> set (cq_pending (ring_cq (ring q)))"
  then have "cqe_event c \<in># outstanding (ring q) F" by (simp add: outstanding_eq)
  then obtain t where "runners q (event_runner (cqe_user_data c)) = Some t"
    using assms by (fastforce simp: queue_inv_def ev_inv_def cqe_event_def)
  then show "event_runner (cqe_user_data c) < 2 ^ 62" using queue_inv_runner(1) [OF assms] by blast
qed

text \<open>The entry at the head of the completion queue is released.\<close>

lemma seen_ok:
  assumes "ring_inv n m rng" "cq_pending (ring_cq rng) = c # cs"
  shows "ring_inv n m (io_uring_cqe_seen rng (Some i))"
    "outstanding rng F = add_mset (cqe_event c) (outstanding (io_uring_cqe_seen rng (Some i)) F)"
proof -
  have "cq_ktail (ring_cq rng) - cq_khead (ring_cq rng) \<noteq> 0" using assms(2) cq_pending_Nil [of "ring_cq rng"] by auto
  note adv = cq_advance_1 [OF this]
  have sq: "ring_sq (io_uring_cq_advance rng 1) = ring_sq rng"
    by (simp add: io_uring_cq_advance_def)
  show "ring_inv n m (io_uring_cqe_seen rng (Some i))"
    using assms(1) adv(2) sq by (simp add: ring_inv_def io_uring_cqe_seen_def cq_ring_needs_flush_def)
  show "outstanding rng F = add_mset (cqe_event c) (outstanding (io_uring_cqe_seen rng (Some i)) F)"
    using assms(2) adv(1) sq by (simp add: outstanding_eq io_uring_cqe_seen_def)
qed

lemma complete_turn_cases:
  assumes "queue_inv n m todo [] L nb (outstanding (ring (queue s)) F) (queue s)"
    and "complete_turn cfg os enter s = Inr (again, s')"
  obtains (idle) "s' = s"
  | (event) c cs i v q1 w1 s1 where "cq_pending (ring_cq (ring (queue s))) = c # cs"
      "onCompletionEvent cfg os (event_runner (cqe_user_data c)) (event_type (cqe_user_data c)) (cqe_res c) (queue s) (world s) = Inr (v, q1, w1)"
      "settle cfg os (event_runner (cqe_user_data c)) v (s\<lparr>queue := q1, world := w1\<rparr>) = Inr s1"
      "s' = s1\<lparr>queue := (queue s1)\<lparr>ring := io_uring_cqe_seen (ring (queue s1)) (Some i),
         submissionsRunning := submissionsRunning (queue s1) - 1\<rparr>\<rparr>"
proof (cases "submissionsRunning (queue s) = 0")
  case True
  then show thesis using that(1) assms(2) by (simp add: complete_turn_def)
next
  case False
  let ?q = "queue s"
  have rng: "ring_inv n m (ring ?q)" using assms(1) by (simp add: queue_inv_def)
  obtain err cqe rng1 w1 where p: "io_uring_peek_cqe enter (ring ?q) (world s) = Some (err, cqe, rng1, w1)"
    using assms(2) False by (auto simp: complete_turn_def effect_simps)
  note pk = peek_app [OF rng pending_app [OF assms(1)] p]
  show thesis
  proof (cases "cq_pending (ring_cq (ring ?q))")
    case Nil
    then have "err = - EAGAIN" "rng1 = ring ?q" "w1 = world s" using pk by simp_all
    then have "s' = s" using assms(2) False p by (auto simp: complete_turn_def effect_simps Let_def)
    then show thesis by (rule that(1))
  next
    case (Cons c cs)
    then obtain i where i: "err = 0" "cqe = Some i" "cq_cqes (ring_cq (ring ?q)) ! i = c" "rng1 = ring ?q" "w1 = world s"
      using pk by auto
    let ?ud = "cqe_user_data c"
    obtain v q1 w1 s1 where "onCompletionEvent cfg os (event_runner ?ud) (event_type ?ud) (cqe_res c) ?q (world s) = Inr (v, q1, w1)"
      "settle cfg os (event_runner ?ud) v (s\<lparr>queue := q1, world := w1\<rparr>) = Inr s1"
      "s' = s1\<lparr>queue := (queue s1)\<lparr>ring := io_uring_cqe_seen (ring (queue s1)) (Some i),
         submissionsRunning := submissionsRunning (queue s1) - 1\<rparr>\<rparr>"
      using assms(2) False p i by (auto simp: complete_turn_def effect_simps Let_def)
    then show thesis by (rule that(2) [OF Cons])
  qed
qed

lemma complete_turn_ok:
  assumes "os_keeps flight os" "sub_inv n m flight todo [] s" "complete_turn cfg os enter s = Inr (again, s')"
  shows "sub_inv n m flight todo [] s' \<and> q_state (queue s') = q_state (queue s)"
proof -
  let ?q = "queue s"
  let ?M = "outstanding (ring ?q) (flight (world s))"
  have inv: "queue_inv n m todo [] (copiesPendingContinue s) (nextBuffer s) ?M ?q"
    "submissionsRunning ?q = of_nat (size ?M)" "size ?M \<le> 2 ^ n"
    using assms(2) by (simp_all add: sub_inv_def Let_def)
  have rng: "ring_inv n m (ring ?q)" using inv(1) by (simp add: queue_inv_def)
  from inv(1) assms(3) show ?thesis
  proof (cases rule: complete_turn_cases)
    case idle
    then show ?thesis using assms(2) by simp
  next
    case (event c cs i v q1 w1 s1)
    note Cons = event(1) and st = event(2-4)
    let ?ud = "cqe_user_data c"
    note seen = seen_ok [OF rng Cons, where i = i]
    let ?M' = "outstanding (io_uring_cqe_seen (ring ?q) (Some i)) (flight (world s))"
    have M: "?M = add_mset (?ud, cqe_res c) ?M'" using seen(2) by (simp add: cqe_event_def)
    obtain t where t: "runners ?q (event_runner ?ud) = Some t"
      using inv(1) unfolding M by (auto simp: queue_inv_def ev_inv_def)
    obtain t' where t': "changed (event_runner ?ud) t' ?q q1"
      "reacted (event_type ?ud) (cqe_res c) (t\<lparr>jobsRunning := jobsRunning t - 1\<rparr>) t'" "v = runner_verdict t'"
      using onCompletionEvent_effect [OF st(1) t] by blast
    have fl: "flight w1 = flight (world s)" by (rule onCompletionEvent_keeps [OF assms(1) st(1)])
    let ?s1 = "s\<lparr>queue := q1, world := w1\<rparr>"
    have "queue_inv n m todo (if jobsRunning t' = 0 then [event_runner ?ud] else [])
        (copiesPendingContinue ?s1) (nextBuffer ?s1) ?M' (queue ?s1)"
      using queue_inv_completed [OF inv(1) [unfolded M] t t'(1,2)] by simp
    from settle_ok [OF assms(1) st(2) [unfolded t'(3)] _ this]
    have s1: "queue_inv n m todo [] (copiesPendingContinue s1) (nextBuffer s1) ?M' (queue s1)"
      "q_state (queue s1) = q_state ?q" "ring (queue s1) = ring ?q"
      "submissionsRunning (queue s1) = submissionsRunning ?q" "flight (world s1) = flight (world s)"
      using t'(1) fl by (simp_all add: changed_def calm_def)
    have "submissionsRunning ?q - 1 = of_nat (size ?M')" "size ?M' \<le> 2 ^ n"
      using inv(2,3) unfolding M by simp_all
    moreover have "queue_inv n m todo [] (copiesPendingContinue s') (nextBuffer s') ?M' (queue s')"
      using s1(1,3) st(3) seen(1) by (simp add: queue_inv_def)
    ultimately show ?thesis using s1 st(3) by (simp add: sub_inv_def Let_def)
  qed
qed

end
