(* ===== verification/Copy_System.thy ===== *)
theory Copy_System
  imports Copy_Invariant
begin

text \<open>
  The threads of \<open>wcp\<close> and the kernel as one transition system. The main thread adds jobs and
  calls \<open>start\<close> and \<open>join\<close>, the submit thread runs the pieces of \<open>submitLoop\<close>
  (\<open>src/CopyQueue.cpp\<close>), and the kernel makes steps of its own at any moment. The main thread adds
  the chunks of a file one by one, so that the submit thread may finish and delete the first runners
  of a file while its last ones are still to be added. Rule induction over the transitions shows that the
  invariant of \<open>Copy_Invariant\<close> holds in every reachable state, and with it that the queue is
  cleaned up when the submit thread ends.
\<close>

section \<open>The transition system\<close>

text \<open>
  Where the submit thread is: before \<open>start\<close>, in the loop that adds runners, at the system call,
  in the loop that reaps completions, at the check for the end, or over. The main thread is between
  two operations, adds a job, or waits in \<open>join\<close>.
\<close>

datatype submit_pc = NotStarted | Adding | Submitting | Completing | Checking | Returned | Exited int

datatype main_pc = MainIdle | MainAdding job | MainJoining

record 'w system =
  sub :: "'w submitter"
  spc :: submit_pc
  mpc :: main_pc

text \<open>
  Room for another job part: the counters of runners have 32 bits, and an object's address times two
  must fit a pointer.
\<close>

definition room_for :: "nat \<Rightarrow> CopyQueue \<Rightarrow> bool" where
  "room_for k q \<longleftrightarrow> card (dom (runners q)) + 1 < 2 ^ 32 \<and> next_object q + k \<le> 2 ^ 62"

text \<open>
  A step of the submit thread is one turn of a loop, one system call or the check; the locals of the
  thread end with it. A failed assertion or undefined behaviour is not a step: it ends the process.
\<close>

inductive thread_step :: "Config \<Rightarrow> 'w os \<Rightarrow> 'w sys_enter \<Rightarrow> 'w system \<Rightarrow> 'w system \<Rightarrow> bool"
  for cfg os enter where
  adding: "spc S = Adding \<Longrightarrow> adding_turn cfg os (sub S) = Inr (doneAdding, s) \<Longrightarrow>
     thread_step cfg os enter S (S\<lparr>sub := s, spc := if doneAdding then Submitting else Adding\<rparr>)"
| submitting: "spc S = Submitting \<Longrightarrow> submit_batch enter (sub S) = Inr s \<Longrightarrow>
     thread_step cfg os enter S (S\<lparr>sub := s, spc := Completing\<rparr>)"
| completing: "spc S = Completing \<Longrightarrow> complete_turn cfg os enter (sub S) = Inr (again, s) \<Longrightarrow>
     thread_step cfg os enter S (S\<lparr>sub := s, spc := if again then Completing else Checking\<rparr>)"
| next_pass: "spc S = Checking \<Longrightarrow> submit_exit cfg (sub S) = Inr (NextPass, s) \<Longrightarrow>
     thread_step cfg os enter S (S\<lparr>sub := s\<lparr>runnersAdded := 0\<rparr>, spc := Adding\<rparr>)"
| exits: "spc S = Checking \<Longrightarrow> submit_exit cfg (sub S) = Inr (ProcessExit code, s) \<Longrightarrow>
     thread_step cfg os enter S (S\<lparr>sub := s, spc := Exited code\<rparr>)"
| returns: "spc S = Checking \<Longrightarrow> submit_exit cfg (sub S) = Inr (ThreadReturn, s) \<Longrightarrow>
     thread_step cfg os enter S (S\<lparr>sub := submitter_init (queue s) (world s), spc := Returned\<rparr>)"
| add_part: "mpc S = MainAdding j \<Longrightarrow> job_todo j = chunk # chunks \<Longrightarrow> room_for 1 (queue (sub S)) \<Longrightarrow>
     job_part (NDEBUG cfg) j chunk (queue (sub S)) = Inr q \<Longrightarrow>
     thread_step cfg os enter S (S\<lparr>sub := (sub S)\<lparr>queue := q\<rparr>, mpc := MainAdding (j\<lparr>job_todo := chunks\<rparr>)\<rparr>)"
| end_job: "mpc S = MainAdding j \<Longrightarrow> job_todo j = [] \<Longrightarrow> thread_step cfg os enter S (S\<lparr>mpc := MainIdle\<rparr>)"
| error: "mpc S = MainIdle \<Longrightarrow>
     thread_step cfg os enter S (S\<lparr>sub := (sub S)\<lparr>queue := onError e (queue (sub S))\<rparr>\<rparr>)"
| starts: "mpc S = MainIdle \<Longrightarrow> spc S = NotStarted \<Longrightarrow> start a b tty trm (queue (sub S)) = Inr q \<Longrightarrow>
     thread_step cfg os enter S (S\<lparr>sub := submitter_init q (world (sub S)), spc := Adding\<rparr>)"
| joins: "mpc S = MainIdle \<Longrightarrow> spc S \<noteq> NotStarted \<Longrightarrow> join_begin (NDEBUG cfg) action (queue (sub S)) = Inr q \<Longrightarrow>
     thread_step cfg os enter S (S\<lparr>sub := (sub S)\<lparr>queue := q\<rparr>, mpc := MainJoining\<rparr>)"
| joined: "mpc S = MainJoining \<Longrightarrow> spc S = Returned \<Longrightarrow> join_end (NDEBUG cfg) (queue (sub S)) = Inr (ok, q) \<Longrightarrow>
     thread_step cfg os enter S (S\<lparr>sub := (sub S)\<lparr>queue := q\<rparr>, spc := NotStarted, mpc := MainIdle\<rparr>)"

text \<open>Steps of the threads, of the kernel, and the beginning of a job.\<close>

inductive system_step :: "Config \<Rightarrow> 'w os \<Rightarrow> 'w sys_enter \<Rightarrow> ('w \<Rightarrow> io_uring_sqe multiset) \<Rightarrow> 'w system \<Rightarrow> 'w system \<Rightarrow> bool"
  for cfg os enter flight where
  thread: "thread_step cfg os enter S S' \<Longrightarrow> system_step cfg os enter flight S S'"
| kernel: "kernel_step (ring (queue (sub S)), flight (world (sub S))) (rng, flight w) \<Longrightarrow>
     system_step cfg os enter flight S (S\<lparr>sub := (sub S)\<lparr>queue := (queue (sub S))\<lparr>ring := rng\<rparr>, world := w\<rparr>\<rparr>)"
| begin_job: "mpc S = MainIdle \<Longrightarrow> can_add (queue (sub S)) \<Longrightarrow> room_for 3 (queue (sub S)) \<Longrightarrow>
     addable st (queue (sub S)) \<Longrightarrow>
     job_begin os lost src dest st (queue (sub S)) (world (sub S)) = Inr (j, q, w) \<Longrightarrow>
     system_step cfg os enter flight S (S\<lparr>sub := (sub S)\<lparr>queue := q, world := w\<rparr>, mpc := MainAdding j\<rparr>)"

inductive system_reach :: "Config \<Rightarrow> 'w os \<Rightarrow> 'w sys_enter \<Rightarrow> ('w \<Rightarrow> io_uring_sqe multiset) \<Rightarrow> 'w system \<Rightarrow> 'w system \<Rightarrow> bool"
  for cfg os enter flight S0 where
  initially: "system_reach cfg os enter flight S0 S0"
| step: "system_reach cfg os enter flight S0 S \<Longrightarrow> system_step cfg os enter flight S S' \<Longrightarrow>
     system_reach cfg os enter flight S0 S'"

text \<open>The system around a queue that was just constructed.\<close>

definition fresh_queue :: "nat \<Rightarrow> nat \<Rightarrow> CopyQueue \<Rightarrow> bool" where
  "fresh_queue n m q \<longleftrightarrow>
     q_state q = Idle \<and> runners q = Map.empty \<and> counters q = Map.empty \<and> fds q = Map.empty \<and>
     copiesPendingStart q = [] \<and> copiesPendingStartCount q = 0 \<and> keepAliveCount q = 0 \<and> submissionsRunning q = 0 \<and>
     next_object q \<le> 2 ^ 62 \<and> heap_wf (copyBufferHeap q) \<and> held (copyBufferHeap q) = {} \<and>
     ringSize q = 2 ^ n \<and> ring_inv n m (ring q) \<and> sq_queued (ring_sq (ring q)) = [] \<and> cq_pending (ring_cq (ring q)) = []"

definition system_init :: "CopyQueue \<Rightarrow> 'w \<Rightarrow> 'w system" where
  "system_init q w = \<lparr>sub = submitter_init q w, spc = NotStarted, mpc = MainIdle\<rparr>"

section \<open>Adding runners keeps the invariant\<close>

lemma new_fd_keeps:
  "os_keeps flight os \<Longrightarrow> QueueFileDescriptor_new os lost p f m q w = Inr (d, q', w') \<Longrightarrow> flight w' = flight w"
  by (auto simp: QueueFileDescriptor_new_def effect_simps Let_def split: bool.split_asm dest: doOpen_keeps)

lemma obj_inv_begin:
  assumes "obj_inv (\<lambda>_. 0) nxt D C R" "0 < k"
  shows "obj_inv ((\<lambda>_. 0)(nxt + 2 := k)) (nxt + 3) (insert (nxt + 1) (insert nxt D)) (C(nxt + 2 \<mapsto> int k)) R"
proof -
  note inv = assms(1) [unfolded obj_inv_def]
  let ?C = "C(nxt + 2 \<mapsto> int k)" and ?D = "insert (nxt + 1) (insert nxt D)"
  have lt: "\<And>d. d \<in> D \<Longrightarrow> d < nxt" "\<And>c. c \<in> dom C \<Longrightarrow> c < nxt" "\<And>r. r \<in> dom R \<Longrightarrow> r < nxt" using inv by blast+
  have "chunksRemaining t < nxt" if "R r = Some t" for r t using inv that lt(2) by blast
  then have none: "of_job R (nxt + 2) = {}" by (force simp: of_job_def)
  have "?D = {d. d + 2 \<in> dom ?C} \<union> {d. d + 1 \<in> dom ?C}" using inv by auto
  moreover have "?D \<inter> dom ?C = {}"
  proof -
    have "nxt + 2 \<notin> D" "nxt \<notin> dom C" "nxt + 1 \<notin> dom C" using lt by force+
    moreover have "D \<inter> dom C = {}" using inv by blast
    ultimately show ?thesis by simp
  qed
  moreover have "n = int (card (of_job R c) + ((\<lambda>_. 0)(nxt + 2 := k)) c) \<and> 0 < n" if "?C c = Some n" for c n
    using that inv none assms(2) by (auto split: if_splits)
  moreover have "(\<forall>r \<in> dom R. r < nxt + 3) \<and> (\<forall>d \<in> ?D. d < nxt + 3) \<and> (\<forall>c \<in> dom ?C. c < nxt + 3)"
    using lt(1,2) trans_less_add1 [OF lt(3), of _ 3] by (auto intro: trans_less_add1 simp del: add_2_eq_Suc')
  moreover have "\<forall>r t. R r = Some t \<longrightarrow> chunksRemaining t \<in> dom ?C \<and> sourceFd t + 2 = chunksRemaining t \<and>
      destFd t + 1 = chunksRemaining t" "\<forall>c \<in> dom ?C. 2 \<le> c" "finite (dom R)"
    using inv by auto
  moreover have "\<forall>c. 0 < ((\<lambda>_. 0)(nxt + 2 := k)) c \<longrightarrow> c \<in> dom ?C" by simp
  ultimately show ?thesis unfolding obj_inv_def by blast
qed

lemma queue_inv_begin:
  assumes "queue_inv n m (\<lambda>_. 0) [] L nb M q" "0 < k" "next_object q + 3 \<le> 2 ^ 62"
  shows "queue_inv n m ((\<lambda>_. 0)(next_object q + 2 := k)) [] L nb M (job_opened src dest mode sfd dfd k used q)"
  using assms obj_inv_begin [of "next_object q" "dom (fds q)" "counters q" "runners q" k]
  by (simp add: queue_inv_def job_opened_def Let_def numeral_3_eq_3)

lemma obj_inv_part:
  assumes "obj_inv ((\<lambda>_. 0)(c := Suc k)) nxt D C R"
    and "chunksRemaining t = c" "sourceFd t + 2 = c" "destFd t + 1 = c"
  shows "obj_inv ((\<lambda>_. 0)(c := k)) (nxt + 1) D C (R(nxt \<mapsto> t))"
proof -
  note inv = assms(1) [unfolded obj_inv_def]
  have new: "nxt \<notin> dom R" using inv by blast
  have job: "of_job (R(nxt \<mapsto> t)) x = (if x = c then insert nxt (of_job R x) else of_job R x)" for x
    using new assms(2) by (auto simp: of_job_def)
  have fin: "finite (of_job R x)" for x using inv of_job_finite by blast
  have "nxt \<notin> of_job R x" for x using new by (auto simp: of_job_def)
  then have card: "card (of_job (R(nxt \<mapsto> t)) x) + ((\<lambda>_. 0)(c := k)) x = card (of_job R x) + ((\<lambda>_. 0)(c := Suc k)) x" for x
    using fin by (simp add: job)
  have "c \<in> dom C" using inv by simp
  then show ?thesis using inv assms(2-4) unfolding obj_inv_def card by (auto simp: less_Suc_eq)
qed

lemma queue_inv_part:
  assumes "queue_inv n m ((\<lambda>_. 0)(c := Suc k)) [] L nb M q" "room_for 1 q"
    and "sfd + 2 = c" "dfd + 1 = c" "0 \<le> snd chunk"
  shows "queue_inv n m ((\<lambda>_. 0)(c := k)) [] L nb M (part_added sfd dfd al c chunk q)"
proof -
  note inv = assms(1) [unfolded queue_inv_def]
  let ?r = "next_object q" and ?t = "fresh_runner sfd dfd al c chunk"
  let ?R = "(runners q)(?r \<mapsto> ?t)"
  have obj: "obj_inv ((\<lambda>_. 0)(c := Suc k)) ?r (dom (fds q)) (counters q) (runners q)" using inv by blast
  then have new: "?r \<notin> dom (runners q)" "finite (dom (runners q))" unfolding obj_inv_def by blast+
  have no_ev: "event_runner (fst p) \<noteq> ?r" if "p \<in># M" for p using inv new(1) that by (auto simp: ev_inv_def)
  have "events_of ?r M = 0" "writes_of ?r M = 0"
    using no_events [of M ?r] no_ev writes_le_events [of ?r M] by auto
  then have "ev_inv ?R M" using inv no_ev unfolding ev_inv_def by auto
  moreover have "?r \<notin> set (copiesPendingStart q @ L)" using inv new(1) by (auto simp: wait_inv_def)
  then have "wait_inv (copiesPendingStart q @ [?r] @ L) ?R" using inv by (auto simp: wait_inv_def)
  moreover have "ready_inv (set (copiesPendingStart q @ [?r] @ L)) ?R"
    using inv assms(5) by (auto simp: ready_inv_def chunk_end_def)
  moreover have "heap_inv nb (copyBufferHeap q) (buffers ?R)"
  proof -
    have B: "buffers (runners q) ?r = None" using new(1) by (auto simp: buffers_def)
    have "x \<in> ran ((buffers (runners q))(?r \<mapsto> 0)) \<longleftrightarrow> x \<in> ran (buffers (runners q))" if "x \<noteq> 0" for x
      using that B by (simp add: ran_map_upd)
    then have "{b. b \<noteq> 0 \<and> (b = nb \<or> b \<in> ran ((buffers (runners q))(?r \<mapsto> 0)))} =
        {b. b \<noteq> 0 \<and> (b = nb \<or> b \<in> ran (buffers (runners q)))}" by auto
    then show ?thesis using inv by (auto simp: heap_inv_def)
  qed
  moreover have "live_inv (keepAliveCount q + 1) ?R"
    using inv new assms(2) by (simp add: live_inv_def room_for_def)
  moreover have "obj_inv ((\<lambda>_. 0)(c := k)) (?r + 1) (dom (fds q)) (counters q) ?R"
    by (rule obj_inv_part [OF obj]) (use assms(3,4) in simp_all)
  ultimately show ?thesis using inv assms(2) by (simp add: queue_inv_def part_added_def room_for_def)
qed

section \<open>The invariant of the system\<close>

definition main_todo :: "main_pc \<Rightarrow> nat \<Rightarrow> nat" where
  "main_todo p = (case p of MainAdding j \<Rightarrow> (\<lambda>_. 0)(job_counter j := length (job_todo j)) | _ \<Rightarrow> (\<lambda>_. 0))"

text \<open>Where the main thread is, as far as the queue can tell.\<close>

definition main_inv :: "submit_pc \<Rightarrow> main_pc \<Rightarrow> State \<Rightarrow> bool" where
  "main_inv sp mp st \<longleftrightarrow>
     (case mp of
        MainIdle \<Rightarrow> st = (if sp = NotStarted then Idle else Running)
      | MainAdding j \<Rightarrow> st = (if sp = NotStarted then Idle else Running) \<and>
          job_source j + 2 = job_counter j \<and> job_dest j + 1 = job_counter j \<and> (\<forall>c \<in> set (job_todo j). 0 \<le> snd c)
      | MainJoining \<Rightarrow> st = AdditionComplete \<and> sp \<noteq> NotStarted) \<and>
     ((sp = Returned \<or> (\<exists>c. sp = Exited c)) \<longrightarrow> st = AdditionComplete)"

text \<open>
  A queue at rest has no runner, no shared object and no request left; a queue whose thread has
  returned, or was never started without a job, holds no block either.
\<close>

definition at_rest :: "CopyQueue \<Rightarrow> bool" where
  "at_rest q \<longleftrightarrow> runners q = Map.empty \<and> counters q = Map.empty \<and> fds q = Map.empty \<and>
     copiesPendingStart q = [] \<and> submissionsRunning q = 0"

definition sys_inv :: "nat \<Rightarrow> nat \<Rightarrow> ('w \<Rightarrow> io_uring_sqe multiset) \<Rightarrow> 'w system \<Rightarrow> bool" where
  "sys_inv n m flight S \<longleftrightarrow>
     sub_inv n m flight (main_todo (mpc S)) [] (sub S) \<and> main_inv (spc S) (mpc S) (q_state (queue (sub S))) \<and>
     (spc S = Returned \<longrightarrow> at_rest (queue (sub S)) \<and> held (copyBufferHeap (queue (sub S))) = {} \<and>
        nextBuffer (sub S) = 0 \<and> copiesPendingContinue (sub S) = []) \<and>
     (spc S = NotStarted \<longrightarrow> nextBuffer (sub S) = 0 \<and> copiesPendingContinue (sub S) = []) \<and>
     (\<forall>c. spc S = Exited c \<longrightarrow> at_rest (queue (sub S)) \<and> copiesPendingContinue (sub S) = [])"

text \<open>When no runner is alive and no job is being added, the queue is at rest.\<close>

lemma sub_inv_done:
  assumes "sub_inv n m flight (\<lambda>_. 0) [] s" "keepAliveCount (queue s) = 0"
  shows "at_rest (queue s)" "copiesPendingContinue s = []"
    "held (copyBufferHeap (queue s)) = {b. b \<noteq> 0 \<and> b = nextBuffer s}"
    "outstanding (ring (queue s)) (flight (world s)) = {#}"
proof -
  let ?q = "queue s" and ?M = "outstanding (ring (queue s)) (flight (world s))"
  note inv = assms(1) [unfolded sub_inv_def Let_def queue_inv_def]
  have "card (dom (runners ?q)) < 2 ^ 32" "of_nat (card (dom (runners ?q))) = (0 :: u32)" "finite (dom (runners ?q))"
    using inv assms(2) by (simp_all add: live_inv_def obj_inv_def)
  then have "card (dom (runners ?q)) = 0" using nat_dvd_not_less [of "card (dom (runners ?q))" "2 ^ 32"] by (auto simp: word_of_nat_eq_0_iff)
  then have R: "runners ?q = Map.empty" using \<open>finite _\<close> by simp
  have obj: "obj_inv (\<lambda>_. 0) (next_object ?q) (dom (fds ?q)) (counters ?q) Map.empty" using inv R by simp
  then have "\<forall>c n. counters ?q c = Some n \<longrightarrow> n = int (card (of_job Map.empty c) + 0) \<and> 0 < n"
    unfolding obj_inv_def by blast
  then have "counters ?q c = None" for c by (cases "counters ?q c") (fastforce simp: of_job_def)+
  then have C: "counters ?q = Map.empty" by blast
  moreover have "dom (fds ?q) = {d. d + 2 \<in> dom (counters ?q)} \<union> {d. d + 1 \<in> dom (counters ?q)}"
    using obj unfolding obj_inv_def by blast
  ultimately have "dom (fds ?q) = {}" by simp
  have "ev_inv Map.empty ?M" "wait_inv ([] @ copiesPendingStart ?q @ copiesPendingContinue s) Map.empty"
    "heap_inv (nextBuffer s) (copyBufferHeap ?q) Map.empty" "submissionsRunning ?q = of_nat (size ?M)"
    using inv R by (simp_all add: buffers_def)
  note parts = this
  show M: "?M = {#}" using parts(1) by (cases ?M) (auto simp: ev_inv_def)
  have W: "copiesPendingStart ?q = []" "copiesPendingContinue s = []" using parts(2) by (auto simp: wait_inv_def)
  show "at_rest ?q" using R C W(1) M parts(4) \<open>dom (fds ?q) = {}\<close> by (simp add: at_rest_def)
  show "copiesPendingContinue s = []" by (rule W)
  show "held (copyBufferHeap ?q) = {b. b \<noteq> 0 \<and> b = nextBuffer s}"
    using parts(3) by (auto simp: heap_inv_def)
qed

lemma submit_exit_cases:
  assumes "submit_exit cfg s = Inr (x, s')"
  obtains (goes_on) "x = NextPass" "s' = s"
    | (exits) "x = ProcessExit (exitProcess (queue s))" "s' = s" "isDone (queue s)"
    | (returns) "x = ThreadReturn" "isDone (queue s)"
        "if nextBuffer s = 0 then s' = s
         else \<exists>h. returnBlock (NDEBUG cfg) (nextBuffer s) (copyBufferHeap (queue s)) = Inr h \<and>
           s' = s\<lparr>queue := (queue s)\<lparr>copyBufferHeap := h\<rparr>\<rparr>"
  using assms by (auto simp: submit_exit_def Let_def effect_simps split: if_splits)

lemma sub_inv_cong:
  assumes "sub_inv n m flight todo W s" "quiet (queue s) (queue s')" "flight (world s') = flight (world s)"
    and "copiesPendingContinue s' = copiesPendingContinue s" "nextBuffer s' = nextBuffer s"
  shows "sub_inv n m flight todo W s'"
  using assms queue_inv_quiet [of n m todo W _ _ _ "queue s" "queue s'"] by (simp add: sub_inv_def Let_def quiet_def)

text \<open>Operations that change the state of the queue, the totals and the error flag only.\<close>

definition quiet_but_state :: "CopyQueue \<Rightarrow> CopyQueue \<Rightarrow> bool" where
  "quiet_but_state q q' \<longleftrightarrow> quiet q (q'\<lparr>q_state := q_state q, errored := errored q\<rparr>)"

lemma sub_inv_state:
  assumes "sub_inv n m flight todo W s" "quiet_but_state (queue s) (queue s')" "world s' = world s"
    and "copiesPendingContinue s' = copiesPendingContinue s" "nextBuffer s' = nextBuffer s"
  shows "sub_inv n m flight todo W s'"
proof -
  have "sub_inv n m flight todo W (s'\<lparr>queue := (queue s')\<lparr>q_state := q_state (queue s), errored := errored (queue s)\<rparr>\<rparr>)"
    by (rule sub_inv_cong [OF assms(1)]) (use assms in \<open>simp_all add: quiet_but_state_def\<close>)
  then show ?thesis by (simp add: sub_inv_def Let_def queue_inv_def)
qed

text \<open>When the thread returns it has given its block back.\<close>

lemma returns_ok:
  assumes "sub_inv n m flight (\<lambda>_. 0) [] s" "keepAliveCount (queue s) = 0"
    and "if nextBuffer s = 0 then s' = s
         else \<exists>h. returnBlock nd (nextBuffer s) (copyBufferHeap (queue s)) = Inr h \<and>
           s' = s\<lparr>queue := (queue s)\<lparr>copyBufferHeap := h\<rparr>\<rparr>"
  shows "sub_inv n m flight (\<lambda>_. 0) [] (submitter_init (queue s') (world s'))" "at_rest (queue s')"
    "held (copyBufferHeap (queue s')) = {}" "q_state (queue s') = q_state (queue s)"
proof -
  let ?q = "queue s"
  note d = sub_inv_done [OF assms(1,2)]
  have wf: "heap_wf (copyBufferHeap ?q)" using assms(1) by (simp add: sub_inv_def Let_def queue_inv_def heap_inv_def)
  have "\<exists>h. s' = s\<lparr>queue := ?q\<lparr>copyBufferHeap := h\<rparr>\<rparr> \<and> heap_wf h \<and> held h = {}"
  proof (cases "nextBuffer s = 0")
    case True
    then show ?thesis using assms(3) d(3) wf by (intro exI [of _ "copyBufferHeap ?q"]) auto
  next
    case False
    then have "nextBuffer s \<in> held (copyBufferHeap ?q)" using d(3) by simp
    from returnBlock_held [OF wf this, of nd] obtain h where
      "returnBlock nd (nextBuffer s) (copyBufferHeap ?q) = Inr h" "held h = held (copyBufferHeap ?q) - {nextBuffer s}" "heap_wf h"
      by metis
    then show ?thesis using assms(3) False d(3) by auto
  qed
  then obtain h where h: "s' = s\<lparr>queue := ?q\<lparr>copyBufferHeap := h\<rparr>\<rparr>" "heap_wf h" "held h = {}" by blast
  show "at_rest (queue s')" "held (copyBufferHeap (queue s')) = {}" "q_state (queue s') = q_state (queue s)"
    using d(1) h by (simp_all add: at_rest_def)
  show "sub_inv n m flight (\<lambda>_. 0) [] (submitter_init (queue s') (world s'))"
    using assms(1) h d(1,2) unfolding sub_inv_def Let_def queue_inv_def submitter_init_def
    by (simp add: heap_inv_def buffers_def at_rest_def)
qed

lemma main_inv_done: "main_inv sp mp AdditionComplete \<Longrightarrow> mp = MainJoining"
  by (cases mp) (auto simp: main_inv_def split: if_splits)

lemma main_todo_simps [simp]:
  "main_todo MainIdle = (\<lambda>_. 0)" "main_todo MainJoining = (\<lambda>_. 0)"
  "main_todo (MainAdding j) = (\<lambda>_. 0)(job_counter j := length (job_todo j))"
  by (simp_all add: main_todo_def)

text \<open>A change of the submitter that keeps its invariant and the state of the queue, while the thread runs.\<close>

definition in_loop :: "submit_pc \<Rightarrow> bool" where
  "in_loop sp \<longleftrightarrow> sp = Adding \<or> sp = Submitting \<or> sp = Completing \<or> sp = Checking"

lemma in_loop_simps [simp]:
  "in_loop Adding" "in_loop Submitting" "in_loop Completing" "in_loop Checking"
  by (simp_all add: in_loop_def)

lemma in_loopD: "in_loop sp \<Longrightarrow> sp \<noteq> NotStarted \<and> sp \<noteq> Returned \<and> (\<forall>c. sp \<noteq> Exited c)"
  by (cases sp) (simp_all add: in_loop_def)

lemma sys_inv_running:
  assumes "sys_inv n m flight S" "in_loop (spc S)" "in_loop sp"
    and "sub_inv n m flight (main_todo (mpc S)) [] s \<and> q_state (queue s) = q_state (queue (sub S))"
  shows "sys_inv n m flight (S\<lparr>sub := s, spc := sp\<rparr>)"
proof -
  have "main_inv sp mp st = main_inv (spc S) mp st" for mp st
    using in_loopD [OF assms(2)] in_loopD [OF assms(3)] by (cases mp) (simp_all add: main_inv_def)
  then show ?thesis using assms(1,4) in_loopD [OF assms(3)] by (simp add: sys_inv_def)
qed

lemma sys_inv_run:
  assumes "sys_inv n m flight S" "kernel_run (ring (queue (sub S)), flight (world (sub S))) (rng, flight w)"
  shows "sys_inv n m flight (S\<lparr>sub := (sub S)\<lparr>queue := (queue (sub S))\<lparr>ring := rng\<rparr>, world := w\<rparr>\<rparr>)"
proof -
  let ?q = "queue (sub S)" and ?M = "outstanding (ring (queue (sub S))) (flight (world (sub S)))"
  have inv: "sub_inv n m flight (main_todo (mpc S)) [] (sub S)" using assms(1) by (simp add: sys_inv_def)
  then have "ring_ok n m (runners ?q) (size ?M) (ring ?q, flight (world (sub S)))"
    by (simp add: ring_ok_def sub_inv_def Let_def queue_inv_def)
  from kernel_run_ok [OF assms(2) this]
  have "sub_inv n m flight (main_todo (mpc S)) [] ((sub S)\<lparr>queue := ?q\<lparr>ring := rng\<rparr>, world := w\<rparr>)"
    using inv by (simp add: ring_ok_def sub_inv_def Let_def queue_inv_def)
  then show ?thesis using assms(1) by (simp add: sys_inv_def at_rest_def)
qed

lemma sys_inv_kernel:
  assumes "sys_inv n m flight S" "kernel_step (ring (queue (sub S)), flight (world (sub S))) (rng, flight w)"
  shows "sys_inv n m flight (S\<lparr>sub := (sub S)\<lparr>queue := (queue (sub S))\<lparr>ring := rng\<rparr>, world := w\<rparr>\<rparr>)"
  by (rule sys_inv_run [OF assms(1) kernel_run.more [OF kernel_run.none assms(2)]])

lemma sys_inv_begin:
  assumes "sys_inv n m flight S" "mpc S = MainIdle" "room_for 3 (queue (sub S))" "os_keeps flight os"
    and "addable st (queue (sub S))" "job_begin os lost src dest st (queue (sub S)) (world (sub S)) = Inr (j, q, w)"
  shows "sys_inv n m flight (S\<lparr>sub := (sub S)\<lparr>queue := q, world := w\<rparr>, mpc := MainAdding j\<rparr>)"
proof -
  let ?q = "queue (sub S)" and ?n = "next_object (queue (sub S))"
  have fl: "flight w = flight (world (sub S))"
    using assms(6) new_fd_keeps [OF assms(4)] by (auto simp: job_begin_def effect_simps Let_def)
  obtain sfd dfd used where b: "j = \<lparr>job_source = ?n, job_dest = ?n + 1, job_align = job_alignment st,
      job_counter = ?n + 2, job_todo = map (map_prod int int) (job_chunks st ?q)\<rparr>"
    "q = job_opened src dest (stx_mode st) sfd dfd (length (job_chunks st ?q)) used ?q"
    using job_begin_eq [of os lost src dest st ?q "world (sub S)"] assms(6) by (metis Inr_inject Pair_inject)
  have k: "0 < length (job_chunks st ?q)" using job_chunks_facts(3) [OF assms(5)] by simp
  have inv: "sub_inv n m flight (\<lambda>_. 0) [] (sub S)" "main_inv (spc S) MainIdle (q_state ?q)"
    using assms(1,2) by (simp_all add: sys_inv_def)
  have "sub_inv n m flight (main_todo (MainAdding j)) [] ((sub S)\<lparr>queue := q, world := w\<rparr>)"
    using inv(1) queue_inv_begin [OF _ k, of n m _ _ _ ?q src dest "stx_mode st" sfd dfd used] assms(3) b fl
    by (simp add: sub_inv_def Let_def room_for_def job_opened_def)
  moreover have "main_inv (spc S) (MainAdding j) (q_state q)"
    using inv(2) b by (auto simp: main_inv_def)
  moreover have "spc S \<noteq> Returned" "spc S \<noteq> Exited c" for c
    using inv(2) by (auto simp: main_inv_def split: if_splits)
  ultimately show ?thesis using assms(1) by (simp add: sys_inv_def)
qed

lemma sys_inv_part:
  assumes "sys_inv n m flight S" "mpc S = MainAdding j" "job_todo j = chunk # chunks" "room_for 1 (queue (sub S))"
    and "job_part nd j chunk (queue (sub S)) = Inr q"
  shows "sys_inv n m flight (S\<lparr>sub := (sub S)\<lparr>queue := q\<rparr>, mpc := MainAdding (j\<lparr>job_todo := chunks\<rparr>)\<rparr>)"
proof -
  let ?q = "queue (sub S)" and ?c = "job_counter j"
  have inv: "sub_inv n m flight ((\<lambda>_. 0)(?c := Suc (length chunks))) [] (sub S)" "main_inv (spc S) (MainAdding j) (q_state ?q)"
    using assms(1-3) by (simp_all add: sys_inv_def)
  then have q: "q = part_added (job_source j) (job_dest j) (job_align j) ?c chunk ?q"
    using assms(5) by (auto simp: job_part_eq can_add_def main_inv_def split: if_splits)
  have job: "job_source j + 2 = ?c" "job_dest j + 1 = ?c" "0 \<le> snd chunk"
    using inv(2) assms(3) by (auto simp: main_inv_def)
  have "sub_inv n m flight ((\<lambda>_. 0)(?c := length chunks)) [] ((sub S)\<lparr>queue := q\<rparr>)"
    using inv(1) queue_inv_part [OF _ assms(4) job, of n m "length chunks" _ _ _ "job_align j"] q
    by (simp add: sub_inv_def Let_def part_added_def)
  moreover have "main_inv (spc S) (MainAdding (j\<lparr>job_todo := chunks\<rparr>)) (q_state q)"
    using inv(2) q assms(3) by (auto simp: main_inv_def)
  moreover have "spc S \<noteq> Returned" "spc S \<noteq> Exited c" for c
    using inv(2) by (auto simp: main_inv_def split: if_splits)
  ultimately show ?thesis using assms(1) by (simp add: sys_inv_def)
qed

lemma sys_inv_checked:
  assumes "sys_inv n m flight S" "spc S = Checking" "isDone (queue (sub S))"
  shows "mpc S = MainJoining" "sub_inv n m flight (\<lambda>_. 0) [] (sub S)" "keepAliveCount (queue (sub S)) = 0"
    "q_state (queue (sub S)) = AdditionComplete"
  using assms main_inv_done [of "spc S" "mpc S"] by (auto simp: sys_inv_def isDone_def)

lemma thread_step_inv:
  assumes "os_keeps flight os" "enter_law flight enter" "thread_step cfg os enter S S'" "sys_inv n m flight S"
  shows "sys_inv n m flight S'"
proof -
  have sub: "sub_inv n m flight (main_todo (mpc S)) [] (sub S)" using assms(4) by (simp add: sys_inv_def)
  from assms(3) show ?thesis
  proof cases
    case (adding doneAdding s)
    then show ?thesis using sys_inv_running [OF assms(4)] adding_turn_ok [OF assms(1) sub] by (simp split: if_splits)
  next
    case (submitting s)
    then show ?thesis using sys_inv_running [OF assms(4)] submit_batch_ok [OF assms(2) sub] by simp
  next
    case (completing again s)
    then show ?thesis using sys_inv_running [OF assms(4)] complete_turn_ok [OF assms(1) sub] by (simp split: if_splits)
  next
    case (next_pass s)
    then have "s = sub S" by (auto elim: submit_exit_cases)
    then show ?thesis using next_pass sub sys_inv_running [OF assms(4)] by (simp add: sub_inv_def Let_def)
  next
    case (exits code s)
    then have e: "isDone (queue (sub S))" "s = sub S" by (auto elim: submit_exit_cases)
    note c = sys_inv_checked [OF assms(4) exits(2) e(1)]
    then show ?thesis using exits e sub_inv_done [OF c(2,3)] by (simp add: sys_inv_def main_inv_def)
  next
    case (returns s)
    then obtain "isDone (queue (sub S))" "if nextBuffer (sub S) = 0 then s = sub S
         else \<exists>h. returnBlock (NDEBUG cfg) (nextBuffer (sub S)) (copyBufferHeap (queue (sub S))) = Inr h \<and>
           s = (sub S)\<lparr>queue := (queue (sub S))\<lparr>copyBufferHeap := h\<rparr>\<rparr>"
      by (auto elim: submit_exit_cases)
    then show ?thesis
      using returns sys_inv_checked [OF assms(4) returns(2)] returns_ok [of n m flight "sub S" s "NDEBUG cfg"]
      by (simp add: sys_inv_def main_inv_def submitter_init_def)
  next
    case (add_part j chunk chunks q)
    then show ?thesis using sys_inv_part [OF assms(4)] by simp
  next
    case (end_job j)
    then show ?thesis using assms(4) by (auto simp: sys_inv_def main_inv_def fun_upd_idem)
  next
    case (error e)
    then show ?thesis
      using assms(4) sub_inv_cong [OF sub, of "(sub S)\<lparr>queue := onError e (queue (sub S))\<rparr>"] onError_quiet [of "queue (sub S)" e]
      by (auto simp: sys_inv_def quiet_def calm_def at_rest_def)
  next
    case (starts a b tty trm q)
    have "quiet_but_state (queue (sub S)) q" "q_state q = Running"
      using starts(4) by (auto simp: start_def Let_def effect_simps quiet_but_state_def quiet_def calm_def)
    then show ?thesis
      using starts assms(4) sub sub_inv_state [of n m flight "\<lambda>_. 0" "[]" "sub S" "submitter_init q (world (sub S))"]
      by (simp add: sys_inv_def main_inv_def submitter_init_def)
  next
    case (joins action q)
    have q: "quiet_but_state (queue (sub S)) q" "q_state q = AdditionComplete"
      using joins(4) by (auto simp: join_begin_def effect_simps quiet_but_state_def quiet_def calm_def)
    moreover have "spc S \<noteq> Returned" "spc S \<noteq> Exited c" for c
      using assms(4) joins(2) by (auto simp: sys_inv_def main_inv_def split: if_splits)
    ultimately show ?thesis
      using joins assms(4) sub sub_inv_state [of n m flight "\<lambda>_. 0" "[]" "sub S" "(sub S)\<lparr>queue := q\<rparr>"]
      by (simp add: sys_inv_def main_inv_def)
  next
    case (joined ok q)
    have q: "quiet_but_state (queue (sub S)) q" "q_state q = Idle"
      using joined(4) by (auto simp: join_end_def effect_simps quiet_but_state_def quiet_def calm_def)
    then show ?thesis
      using joined assms(4) sub sub_inv_state [of n m flight "\<lambda>_. 0" "[]" "sub S" "(sub S)\<lparr>queue := q\<rparr>"]
      by (simp add: sys_inv_def main_inv_def)
  qed
qed

lemma system_step_inv:
  assumes "os_keeps flight os" "enter_law flight enter" "system_step cfg os enter flight S S'" "sys_inv n m flight S"
  shows "sys_inv n m flight S'"
  using assms(3)
proof cases
  case thread
  then show ?thesis using thread_step_inv [OF assms(1,2) _ assms(4)] by simp
next
  case (kernel rng w)
  then show ?thesis using sys_inv_kernel [OF assms(4)] by simp
next
  case (begin_job st lost src dest j q w)
  then show ?thesis using sys_inv_begin [OF assms(4) _ _ assms(1)] by simp
qed

lemma system_init_inv:
  assumes "fresh_queue n m q" "flight w = {#}"
  shows "sys_inv n m flight (system_init q w)"
proof -
  have M: "outstanding (ring q) (flight w) = {#}" using assms by (simp add: fresh_queue_def outstanding_def)
  have "queue_inv n m (\<lambda>_. 0) [] [] 0 {#} q"
    using assms(1)
    by (simp add: fresh_queue_def queue_inv_def ev_inv_def wait_inv_def ready_inv_def heap_inv_def obj_inv_def live_inv_def buffers_def)
  then show ?thesis
    using assms M by (simp add: sys_inv_def sub_inv_def system_init_def submitter_init_def main_inv_def Let_def fresh_queue_def)
qed

lemma system_reach_inv:
  assumes "os_keeps flight os" "enter_law flight enter" "fresh_queue n m q" "flight w = {#}"
    and "system_reach cfg os enter flight (system_init q w) S"
  shows "sys_inv n m flight S"
  using assms(5)
  by (induction rule: system_reach.induct)
    (use system_init_inv [of n m q flight w] assms(3,4) system_step_inv [OF assms(1,2)] in auto)

section \<open>Properties of every reachable state\<close>

text \<open>A queue with a ring of two entries and a heap of one block, and a system call that does nothing.\<close>

definition idle_ring :: io_uring where
  "idle_ring = wrapping_ring (- 1) [example_cqe 0 0, example_cqe 0 0]"

definition idle_queue :: CopyQueue where
  "idle_queue = CopyQueue_init 10 \<lparr>usedList = [False], data = 8192, blocks = 1, blockSize = 8192, alignment = 4096\<rparr> idle_ring 2"

definition idle_enter :: "'w sys_enter" where
  "idle_enter = (\<lambda>fd n c f g k rng w. (0, 0, rng, w))"

lemma idle_laws:
  "os_keeps flight no_os" "enter_law flight idle_enter" "fresh_queue 1 1 idle_queue"
proof -
  show "os_keeps flight no_os" by (simp add: os_keeps_def no_os_def)
  show "enter_law flight idle_enter" by (simp add: enter_law_def idle_enter_def kernel_run.none)
  have "ring_inv 1 1 idle_ring"
    using wrapping_sq_inv by (simp add: ring_inv_def idle_ring_def wrapping_ring_def cq_ring_needs_flush_def cq_inv_def ring_size_def mask_eq_exp_minus_1)
      (simp add: wrapping_sq_def)
  moreover have "sq_queued (ring_sq idle_ring) = []" "cq_pending (ring_cq idle_ring) = []"
    using wrapping_sq_empty by (simp_all add: idle_ring_def wrapping_ring_def cq_pending_def ring_list_def)
  moreover have "heap_wf \<lparr>usedList = [False], data = 8192, blocks = 1, blockSize = 8192, alignment = 4096\<rparr>"
    "held \<lparr>usedList = [False], data = 8192, blocks = 1, blockSize = 8192, alignment = 4096\<rparr> = {}"
    by (simp_all add: heap_wf_def held_def held_idx_def) (metis gr0I nth_Cons_0)
  ultimately show "fresh_queue 1 1 idle_queue"
    by (simp add: fresh_queue_def idle_queue_def CopyQueue_init_def)
qed

definition empty_stat :: statx where
  "empty_stat = \<lparr>stx_mode = 0x81A4, stx_size = 0, stx_blksize = 4096\<rparr>"

text \<open>
  C3. The accounting of \<open>CopyQueue\<close>, in every state that the main thread, the submit thread and the
  kernel can reach together: \<open>submissionsRunning\<close> is the number of requests that are queued, in the
  kernel or completed and not yet reaped, and never more than the ring has entries; \<open>keepAliveCount\<close> is
  the number of runners alive; every runner counts exactly its own outstanding requests, every
  request belongs to a live runner, and a runner without a request is in exactly one of the two
  queues of waiting runners; every block handed out has one owner; and the counter of a job is the number of its runners
  that are alive or still to be added.
\<close>

theorem queue_accounting:
  assumes "os_keeps flight os" "enter_law flight enter" "fresh_queue n m q0" "flight w0 = {#}"
    and "system_reach cfg os enter flight (system_init q0 w0) S"
  shows "let q = queue (sub S); M = outstanding (ring q) (flight (world (sub S))) in
    submissionsRunning q = of_nat (size M) \<and> size M \<le> 2 ^ n \<and>
    keepAliveCount q = of_nat (card (dom (runners q))) \<and> card (dom (runners q)) < 2 ^ 32 \<and>
    (\<forall>p \<in># M. event_runner (fst p) \<in> dom (runners q)) \<and>
    distinct (copiesPendingStart q @ copiesPendingContinue (sub S)) \<and>
    (\<forall>r t. runners q r = Some t \<longrightarrow> jobsRunning t = int (events_of r M) \<and>
       (events_of r M = 0 \<longleftrightarrow> r \<in> set (copiesPendingStart q @ copiesPendingContinue (sub S))) \<and>
       writeOffset t \<le> cr_offset t + cr_size t \<and> (buffer t \<noteq> 0 \<longrightarrow> buffer t \<in> held (copyBufferHeap q))) \<and>
    (\<forall>r r' t t'. runners q r = Some t \<and> runners q r' = Some t' \<and> buffer t = buffer t' \<and> buffer t \<noteq> 0 \<longrightarrow> r = r') \<and>
    (\<forall>c k. counters q c = Some k \<longrightarrow> k = int (card (of_job (runners q) c) + main_todo (mpc S) c))"
proof -
  define q where "q = queue (sub S)"
  define M where "M = outstanding (ring q) (flight (world (sub S)))"
  have inv: "sys_inv n m flight S" by (rule system_reach_inv [where w = w0, OF assms(1-5)])
  then have sub: "sub_inv n m flight (main_todo (mpc S)) [] (sub S)" by (simp add: sys_inv_def)
  then have qi: "queue_inv n m (main_todo (mpc S)) [] (copiesPendingContinue (sub S)) (nextBuffer (sub S)) M q"
    and cnt: "submissionsRunning q = of_nat (size M)" "size M \<le> 2 ^ n"
    by (simp_all add: sub_inv_def Let_def q_def M_def)
  note Q = qi [unfolded queue_inv_def]
  have each: "jobsRunning t = int (events_of r M)" "writeOffset t \<le> cr_offset t + cr_size t"
    "events_of r M = 0 \<longleftrightarrow> r \<in> set (copiesPendingStart q @ copiesPendingContinue (sub S))"
    "buffer t \<noteq> 0 \<longrightarrow> buffer t \<in> held (copyBufferHeap q)" if "runners q r = Some t" for r t
  proof -
    show j: "jobsRunning t = int (events_of r M)" using Q that by (simp add: ev_inv_def)
    show "writeOffset t \<le> cr_offset t + cr_size t" using queue_inv_runner(3) [OF qi that] by (simp add: chunk_end_def)
    show "events_of r M = 0 \<longleftrightarrow> r \<in> set (copiesPendingStart q @ copiesPendingContinue (sub S))"
      using queue_inv_runner(2) [OF qi that] j by simp
    show "buffer t \<noteq> 0 \<longrightarrow> buffer t \<in> held (copyBufferHeap q)" using queue_inv_runner(6) [OF qi that] by blast
  qed
  have "r = r'" if "runners q r = Some t" "runners q r' = Some t'" "buffer t = buffer t'" "buffer t \<noteq> 0" for r r' t t'
  proof -
    have "\<forall>r r' b. buffers (runners q) r = Some b \<and> buffers (runners q) r' = Some b \<and> b \<noteq> 0 \<longrightarrow> r = r'"
      using Q by (simp add: heap_inv_def)
    then show ?thesis using that by (simp add: buffers_def)
  qed
  moreover have "\<forall>c k. counters q c = Some k \<longrightarrow> k = int (card (of_job (runners q) c) + main_todo (mpc S) c)"
    using Q unfolding obj_inv_def by blast
  moreover have "keepAliveCount q = of_nat (card (dom (runners q)))" "card (dom (runners q)) < 2 ^ 32"
    "\<forall>p \<in># M. event_runner (fst p) \<in> dom (runners q)" "distinct (copiesPendingStart q @ copiesPendingContinue (sub S))"
    using Q by (simp_all add: live_inv_def ev_inv_def wait_inv_def)
  ultimately show ?thesis using cnt each unfolding Let_def q_def [symmetric] M_def [symmetric] by blast
qed

text \<open>One empty file has been added: its runner is the third object.\<close>

theorem queue_accounting_witness:
  "\<exists>S. system_reach (Config_default False) no_os idle_enter (\<lambda>w. w) (system_init idle_queue {#}) S \<and>
     dom (runners (queue (sub S))) = {3} \<and> keepAliveCount (queue (sub S)) = 1 \<and>
     counters (queue (sub S)) 2 = Some (int (card (of_job (runners (queue (sub S))) 2) + main_todo (mpc S) 2))"
proof -
  let ?step = "system_step (Config_default False) no_os idle_enter (\<lambda>w. w)"
  let ?S0 = "system_init idle_queue {#} :: io_uring_sqe multiset system"
  have J: "job_chunks empty_stat idle_queue = [(0, 0)]" by (simp add: job_chunks_def file_chunks_def empty_stat_def)
  have add: "can_add idle_queue" "addable empty_stat idle_queue" "next_object idle_queue = 0" "runners idle_queue = Map.empty"
    by (simp_all add: addable_def can_add_def empty_stat_def idle_queue_def CopyQueue_init_def)
  obtain sfd dfd used w where b: "job_begin no_os (False, False) ''a'' ''b'' empty_stat idle_queue ({#} :: io_uring_sqe multiset) =
      Inr (\<lparr>job_source = 0, job_dest = 1, job_align = job_alignment empty_stat, job_counter = 2, job_todo = [(0, 0)]\<rparr>,
        job_opened ''a'' ''b'' (stx_mode empty_stat) sfd dfd 1 used idle_queue, w)"
    by (rule job_begin_eq [of no_os "(False, False)" "''a''" "''b''" empty_stat idle_queue "{#}"]) (simp add: J add numeral_2_eq_2)
  let ?j = "\<lparr>job_source = 0, job_dest = 1, job_align = job_alignment empty_stat, job_counter = 2, job_todo = [(0, 0)]\<rparr>"
  let ?q1 = "job_opened ''a'' ''b'' (stx_mode empty_stat) sfd dfd 1 used idle_queue"
  let ?S1 = "?S0\<lparr>sub := (sub ?S0)\<lparr>queue := ?q1, world := w\<rparr>, mpc := MainAdding ?j\<rparr>"
  have "?step ?S0 ?S1"
    by (rule system_step.begin_job [where st = empty_stat]) (use b add in \<open>simp_all add: system_init_def submitter_init_def room_for_def\<close>)
  moreover let ?q2 = "part_added 0 1 (job_alignment empty_stat) 2 (0, 0) ?q1"
  let ?S2 = "?S1\<lparr>sub := (sub ?S1)\<lparr>queue := ?q2\<rparr>, mpc := MainAdding (?j\<lparr>job_todo := []\<rparr>)\<rparr>"
  have "?step ?S1 ?S2"
    by (rule system_step.thread, rule thread_step.add_part) (use add in \<open>simp_all add: system_init_def submitter_init_def room_for_def job_part_eq\<close>)
  ultimately have r: "system_reach (Config_default False) no_os idle_enter (\<lambda>w. w) ?S0 ?S2"
    by (meson system_reach.intros)
  from queue_accounting [where flight = "\<lambda>w. w", OF idle_laws(1) idle_laws(2) idle_laws(3) _ r]
  have "keepAliveCount ?q2 = of_nat (card (dom (runners ?q2)))"
    "\<forall>k. counters ?q2 2 = Some k \<longrightarrow> k = int (card (of_job (runners ?q2) 2) + main_todo (mpc ?S2) 2)"
    by (simp_all add: Let_def)
  moreover have "dom (runners ?q2) = {3}" "counters ?q2 2 = Some 1" using add by (simp_all add: job_opened_def Let_def)
  ultimately show ?thesis using r add by (intro exI [of _ ?S2]) (simp add: idle_queue_def CopyQueue_init_def)
qed

text \<open>
  C4. When the submit thread returns, the queue is clean: no runner, no shared object of a job, no
  outstanding request and no block of the heap is left, so the two assertions of \<open>join\<close> hold; \<open>join\<close>
  returns whether no error was reported and leaves the queue idle and ready for another \<open>start\<close>.
\<close>

theorem join_clean:
  assumes "os_keeps flight os" "enter_law flight enter" "fresh_queue n m q0" "flight w0 = {#}"
    and "system_reach cfg os enter flight (system_init q0 w0) S" "spc S = Returned"
  shows "let q = queue (sub S) in
    runners q = Map.empty \<and> counters q = Map.empty \<and> fds q = Map.empty \<and>
    outstanding (ring q) (flight (world (sub S))) = {#} \<and> held (copyBufferHeap q) = {} \<and>
    (\<exists>q'. join_end nd q = Inr (\<not> errored q, q') \<and> q_state q' = Idle \<and> fresh_queue n m q')"
proof -
  define q where "q = queue (sub S)"
  have inv: "sys_inv n m flight S" by (rule system_reach_inv [where w = w0, OF assms(1-5)])
  have st: "q_state q = AdditionComplete" using inv assms(6) by (simp add: sys_inv_def main_inv_def q_def)
  then have mp: "mpc S = MainJoining" using inv main_inv_done [of "spc S" "mpc S"] by (simp add: sys_inv_def q_def)
  then have sub: "sub_inv n m flight (\<lambda>_. 0) [] (sub S)" using inv by (simp add: sys_inv_def)
  have rest: "at_rest q" "held (copyBufferHeap q) = {}" using inv assms(6) by (simp_all add: sys_inv_def q_def)
  have Q: "queue_inv n m (\<lambda>_. 0) [] (copiesPendingContinue (sub S)) (nextBuffer (sub S))
      (outstanding (ring q) (flight (world (sub S)))) q"
    using sub by (simp add: sub_inv_def Let_def q_def)
  have ka: "keepAliveCount q = 0" using Q rest(1) by (simp add: queue_inv_def live_inv_def at_rest_def)
  have M: "outstanding (ring q) (flight (world (sub S))) = {#}"
    using sub_inv_done(4) [OF sub] ka by (simp add: q_def)
  then have "sq_queued (ring_sq (ring q)) = []" "cq_pending (ring_cq (ring q)) = []" by (simp_all add: outstanding_def)
  moreover have wf: "heap_wf (copyBufferHeap q)" using Q by (simp add: queue_inv_def heap_inv_def)
  moreover have "getFreeBlocksCount (copyBufferHeap q) = blocks (copyBufferHeap q)"
    using getFreeBlocksCount_held [OF wf] rest(2) by (simp add: word_unat_eq_iff)
  ultimately show ?thesis
    using rest st ka M Q unfolding Let_def q_def [symmetric]
    by (simp add: join_end_def fresh_queue_def at_rest_def queue_inv_def)
qed

text \<open>Without a job the thread passes its loop once after \<open>join\<close> was called.\<close>

theorem join_clean_witness:
  "\<exists>S. system_reach (Config_default False) no_os idle_enter (\<lambda>w. w) (system_init idle_queue {#}) S \<and> spc S = Returned \<and>
     (\<exists>q'. join_end False (queue (sub S)) = Inr (True, q') \<and> fresh_queue 1 1 q')"
proof -
  let ?cfg = "Config_default False"
  let ?thr = "thread_step ?cfg no_os idle_enter" and ?q = "idle_queue\<lparr>q_state := Running\<rparr>"
  let ?w = "{#} :: io_uring_sqe multiset"
  let ?S0 = "system_init idle_queue ?w" and ?qj = "?q\<lparr>q_state := AdditionComplete, completionAction := Return\<rparr>"
  let ?T = "\<lambda>q sp mp. \<lparr>sub = submitter_init q ?w, spc = sp, mpc = mp\<rparr>"
  note defs = submitter_init_def idle_queue_def CopyQueue_init_def
  have "?thr ?S0 (?T ?q Adding MainIdle)"
    using thread_step.starts [of ?S0 0 0 False False ?q] by (simp add: system_init_def defs start_def)
  moreover have "?thr (?T ?q Adding MainIdle) (?T ?qj Adding MainJoining)"
    using thread_step.joins [of "?T ?q Adding MainIdle" ?cfg Return ?qj] by (simp add: defs join_begin_def)
  moreover have "?thr (?T ?qj Adding MainJoining) (?T ?qj Submitting MainJoining)"
    using thread_step.adding [of "?T ?qj Adding MainJoining" ?cfg no_os True "submitter_init ?qj ?w"]
    by (simp add: adding_turn_def may_add_def defs)
  moreover have "?thr (?T ?qj Submitting MainJoining) (?T ?qj Completing MainJoining)"
    using thread_step.submitting [of "?T ?qj Submitting MainJoining" idle_enter "submitter_init ?qj ?w"]
    by (simp add: submit_batch_def defs)
  moreover have "?thr (?T ?qj Completing MainJoining) (?T ?qj Checking MainJoining)"
    using thread_step.completing [of "?T ?qj Completing MainJoining" ?cfg no_os idle_enter False "submitter_init ?qj ?w"]
    by (simp add: complete_turn_def defs)
  moreover have "?thr (?T ?qj Checking MainJoining) (?T ?qj Returned MainJoining)"
    using thread_step.returns [of "?T ?qj Checking MainJoining" ?cfg "submitter_init ?qj ?w"]
    by (simp add: submit_exit_def defs isDone_def)
  ultimately have r: "system_reach ?cfg no_os idle_enter (\<lambda>w. w) ?S0 (?T ?qj Returned MainJoining)"
    by (meson system_reach.intros system_step.thread)
  moreover have "\<not> errored ?qj" by (simp add: defs)
  ultimately show ?thesis
    using join_clean [where flight = "\<lambda>w. w" and nd = False, OF idle_laws(1) idle_laws(2) idle_laws(3) _ r]
    by (intro exI [of _ "?T ?qj Returned MainJoining"]) (auto simp: Let_def submitter_init_def)
qed

end
