(* ===== verification/Copy_Kernel.thy ===== *)
theory Copy_Kernel
  imports Copy_System
begin

text \<open>
  What the queue relies on outside of its own code, with the bytes: memory, files, open descriptors
  and the requests that the kernel has taken from the ring. The operating system is a parameter of
  the model; this theory states its documented behaviour as laws over a view of the world. The kernel
  takes whole chains of linked requests, executes a chain from its head, transfers as many bytes as it
  likes, may fail any request, and cancels the rest of a chain after a short or failed request.
  The kernel of \<open>Copy_Invariant\<close>, which only counts requests, is an abstraction of this one.
\<close>

section \<open>Chains of requests\<close>

text \<open>A request with the link flag is the predecessor of the next one.\<close>

fun link_chains :: "io_uring_sqe list \<Rightarrow> io_uring_sqe list list" where
  "link_chains [] = []"
| "link_chains (e # es) =
     (if is_linked e then (case link_chains es of [] \<Rightarrow> [[e]] | c # cs \<Rightarrow> (e # c) # cs) else [e] # link_chains es)"

definition closed :: "io_uring_sqe list \<Rightarrow> bool" where
  "closed es \<longleftrightarrow> es = [] \<or> \<not> is_linked (last es)"

lemma concat_chains [simp]: "concat (link_chains es) = es"
  by (induction es rule: link_chains.induct) (auto split: list.splits)

lemma chains_Nil_iff [simp]: "link_chains es = [] \<longleftrightarrow> es = []"
  by (cases es) (auto split: list.splits)

lemma chains_nonempty: "c \<in> set (link_chains es) \<Longrightarrow> c \<noteq> []"
  by (induction es arbitrary: c rule: link_chains.induct) (auto split: list.splits if_splits)

lemma closed_append: "closed xs \<Longrightarrow> closed ys \<Longrightarrow> closed (xs @ ys)"
  by (cases ys rule: rev_cases) (auto simp: closed_def)

lemma closed_ConsD: "closed (x # xs) \<Longrightarrow> closed xs"
  by (cases xs) (auto simp: closed_def)

lemma chains_append: "closed xs \<Longrightarrow> link_chains (xs @ ys) = link_chains xs @ link_chains ys"
proof (induction xs)
  case (Cons x xs)
  have IH: "link_chains (xs @ ys) = link_chains xs @ link_chains ys" using Cons closed_ConsD by blast
  show ?case
  proof (cases xs)
    case Nil
    then have "\<not> is_linked x" using Cons.prems by (simp add: closed_def)
    then show ?thesis using Nil by simp
  next
    case (Cons y zs)
    then have "link_chains xs \<noteq> []" by (simp only: chains_Nil_iff) simp
    then obtain c cs where "link_chains xs = c # cs" by (cases "link_chains xs") auto
    then show ?thesis using IH by simp
  qed
qed simp

text \<open>The first chain of a list of whole chains.\<close>

lemma chains_hd_closed: "link_chains es = c # cs \<Longrightarrow> closed es \<Longrightarrow> closed c"
proof (induction es arbitrary: c cs rule: link_chains.induct)
  case (2 e es)
  show ?case
  proof (cases "is_linked e")
    case True
    then have "link_chains es \<noteq> []" using "2.prems"(2) by (auto simp: closed_def)
    then obtain d ds where d: "link_chains es = d # ds" by (cases "link_chains es") auto
    then have "closed d" using "2.IH"(1) True closed_ConsD "2.prems"(2) by blast
    moreover have "d \<noteq> []" using chains_nonempty [of d es] d by simp
    ultimately show ?thesis using "2.prems"(1) True d by (auto simp: closed_def)
  next
    case False
    then show ?thesis using "2.prems"(1) by (auto simp: closed_def)
  qed
qed simp

lemma chains_hd:
  assumes "link_chains es = c # cs" "closed es"
  shows "es = c @ concat cs" "link_chains (concat cs) = cs" "closed (concat cs)"
proof -
  show es: "es = c @ concat cs" using concat_chains [of es] assms(1) by simp
  have c: "closed c" by (rule chains_hd_closed [OF assms])
  have "c \<noteq> []" using chains_nonempty [of c es] assms(1) by simp
  then obtain d ds where dc: "link_chains c = d # ds" by (cases "link_chains c") auto
  have eq: "link_chains c @ link_chains (concat cs) = c # cs"
    using chains_append [OF c, of "concat cs"] es assms(1) by simp
  then have ds: "link_chains c = c # ds" using dc by simp
  then have "concat ds = []" using concat_chains [of c] by (metis append_self_conv concat.simps(2))
  moreover have "\<forall>d \<in> set ds. d \<noteq> []" using chains_nonempty [of _ c] ds by simp
  ultimately have "ds = []" by (cases ds) auto
  then show "link_chains (concat cs) = cs" using eq ds by simp
  show "closed (concat cs)" using assms(2) unfolding es by (cases "concat cs = []") (simp_all only: closed_def last_appendR append_is_Nil_conv simp_thms)
qed

section \<open>The kernel\<close>

text \<open>
  Memory and files hold optional bytes: a byte of memory that was never written is unknown, and a file
  has no byte behind its end or in a hole. \<open>descs\<close> are the open descriptors of the process,
  \<open>taken\<close> the chains that the kernel has taken from the submission queue.
\<close>

record 'b kern =
  bytes :: "u64 \<Rightarrow> 'b option"
  files :: "path \<Rightarrow> nat \<Rightarrow> 'b option"
  descs :: "int \<rightharpoonup> path"
  taken :: "io_uring_sqe list list"

text \<open>The effect of one request with result \<open>res\<close>.\<close>

inductive executes :: "io_uring_sqe \<Rightarrow> 'b kern \<Rightarrow> int \<Rightarrow> 'b kern \<Rightarrow> bool" where
  reads: "is_op IORING_OP_READ e \<Longrightarrow> descs K (sqe_fd e) = Some p \<Longrightarrow> k \<le> unat (sqe_len e) \<Longrightarrow>
     \<forall>i < k. files K p (unat (sqe_off e) + i) \<noteq> None \<Longrightarrow>
     executes e K (int k) (K\<lparr>bytes := write_mem (sqe_addr e) (map (files K p) [unat (sqe_off e)..<unat (sqe_off e) + k]) (bytes K)\<rparr>)"
| writes: "is_op IORING_OP_WRITE e \<Longrightarrow> descs K (sqe_fd e) = Some p \<Longrightarrow> k \<le> unat (sqe_len e) \<Longrightarrow>
     executes e K (int k) (K\<lparr>files := (files K)(p := write_file (unat (sqe_off e)) (read_mem (sqe_addr e) k (bytes K)) (files K p))\<rparr>)"
| fails: "res < 0 \<Longrightarrow> executes e K res K"

definition reply :: "u64 \<times> int \<Rightarrow> io_uring_cqe" where
  "reply = (\<lambda>(ud, res). \<lparr>cqe_user_data = ud, cqe_res = res, cqe_flags = 0\<rparr>)"

inductive data_kernel :: "io_uring \<times> 'b kern \<Rightarrow> io_uring \<times> 'b kern \<Rightarrow> bool" where
  takes: "link_chains (sq_visible (ring_sq rng)) = c # cs \<Longrightarrow>
     data_kernel (rng, K) (rng\<lparr>ring_sq := sq_consume (length c) (ring_sq rng)\<rparr>, K\<lparr>taken := taken K @ [c]\<rparr>)"
| runs: "taken K = A @ (e # rest) # B \<Longrightarrow> executes e K res K' \<Longrightarrow> finish_request e res rest = (es, cs) \<Longrightarrow>
     put_all ring_post rng (map reply cs) = Some rng' \<Longrightarrow>
     data_kernel (rng, K) (rng', K'\<lparr>taken := A @ (if es = [] then [] else [es]) @ B\<rparr>)"
| wakes: "f AND IORING_SQ_CQ_OVERFLOW = 0 \<Longrightarrow>
     data_kernel (rng, K) (rng\<lparr>ring_sq := (ring_sq rng)\<lparr>sq_kflags := f\<rparr>\<rparr>, K)"

section \<open>The laws of the operating system\<close>

text \<open>
  \<open>io_uring_enter\<close> lets the kernel make steps. A successful \<open>open\<close> returns a descriptor that is not
  in use (0, 1 and 2 are), and empties the file when it is asked to; a failed one has no effect.
  \<open>close\<close> may fail, but touches no descriptor except its own. Files are identified by their paths.
\<close>

definition enter_data :: "('w \<Rightarrow> 'b kern) \<Rightarrow> 'w sys_enter \<Rightarrow> bool" where
  "enter_data view enter \<longleftrightarrow>
     (\<forall>fd n c f g k rng w ret err rng' w'. enter fd n c f g k rng w = (ret, err, rng', w') \<longrightarrow>
        data_kernel\<^sup>*\<^sup>* (rng, view w) (rng', view w'))"

definition opened :: "path \<Rightarrow> int \<Rightarrow> int \<Rightarrow> 'b kern \<Rightarrow> 'b kern" where
  "opened p oflag fd K = K\<lparr>descs := (descs K)(fd \<mapsto> p),
     files := (if oflag AND O_TRUNC \<noteq> 0 then (files K)(p := Map.empty) else files K)\<rparr>"

definition os_data :: "('w \<Rightarrow> 'b kern) \<Rightarrow> 'w os \<Rightarrow> bool" where
  "os_data view os \<longleftrightarrow>
     (\<forall>p f m w fd err w'. os_open os p f m w = (fd, err, w') \<longrightarrow>
        (if fd < 0 then view w' = view w
         else 2 < fd \<and> descs (view w) fd = None \<and> view w' = opened p f fd (view w))) \<and>
     (\<forall>fd w ret err w'. os_close os fd w = (ret, err, w') \<longrightarrow>
        (\<exists>x. view w' = (view w)\<lparr>descs := (descs (view w))(fd := x)\<rparr>)) \<and>
     (\<forall>w. view (snd (os_rand os w)) = view w)"

section \<open>The counting kernel is an abstraction\<close>

definition flight_of :: "'b kern \<Rightarrow> io_uring_sqe multiset" where
  "flight_of K = mset (concat (taken K))"

lemma visible_consume: "sq_visible sq = e # es \<Longrightarrow> sq_visible (sq_consume 1 sq) = es"
proof -
  assume v: "sq_visible sq = e # es"
  let ?c = "unat (sq_ktail sq - sq_khead sq)"
  have c: "0 < ?c" using v by (cases ?c) (simp_all add: sq_visible_def)
  have "unat (sq_ktail sq - (sq_khead sq + 1)) = ?c - 1"
  proof -
    have "unat ((sq_ktail sq - sq_khead sq) - 1) = ?c - 1"
      by (rule unat_minus_one) (use c in auto)
    then show ?thesis by (simp add: algebra_simps)
  qed
  then have "sq_visible (sq_consume 1 sq) = tl (sq_visible sq)"
    using ring_list_pop [OF c, of "sq_array sq" "sq_kring_mask sq" "sq_khead sq"]
    by (simp add: sq_visible_def sq_consume_def map_tl)
  then show ?thesis using v by simp
qed

lemma consume_Suc: "sq_consume (Suc k) sq = sq_consume k (sq_consume 1 sq)"
  by (simp add: sq_consume_def algebra_simps)

lemma consume_run:
  "sq_visible (ring_sq rng) = c @ es \<Longrightarrow>
     kernel_run (rng, F) (rng\<lparr>ring_sq := sq_consume (length c) (ring_sq rng)\<rparr>, mset c + F)"
proof (induction c arbitrary: es rule: rev_induct)
  case Nil
  then show ?case by (simp add: sq_consume_def kernel_run.none)
next
  case (snoc e c)
  let ?rng = "rng\<lparr>ring_sq := sq_consume (length c) (ring_sq rng)\<rparr>"
  have run: "kernel_run (rng, F) (?rng, mset c + F)" using snoc by simp
  have "sq_visible (sq_consume (length c) sq) = es" if "sq_visible sq = c @ es" for sq es
    using that
  proof (induction c arbitrary: sq)
    case Nil
    then show ?case by (simp add: sq_consume_def)
  next
    case (Cons x c)
    then have "sq_visible (sq_consume 1 sq) = c @ es" using visible_consume [of sq x "c @ es"] by simp
    then show ?case using Cons.IH [of "sq_consume 1 sq"] consume_Suc [of "length c" sq] by simp
  qed
  then have "sq_visible (ring_sq ?rng) = e # es" using snoc.prems by simp
  from kernel_run.more [OF run kernel_step.consume [OF this]]
  show ?case by (simp add: sq_consume_def algebra_simps)
qed

lemma kernel_run_trans: "kernel_run y z \<Longrightarrow> kernel_run x y \<Longrightarrow> kernel_run x z"
  by (induction rule: kernel_run.induct) (auto intro: kernel_run.more)

lemma finish_request_cases:
  assumes "finish_request e res rest = (es, cs)"
  obtains (all) "es = []" "cs = (sqe_user_data e, res) # map (\<lambda>e. (sqe_user_data e, - ECANCELED)) rest"
  | (one) "es = rest" "cs = [(sqe_user_data e, res)]"
  using assms by (auto simp: finish_request_def split: if_splits)

lemma post_run:
  assumes "put_all ring_post rng (map reply (map (\<lambda>e. (sqe_user_data e, f e)) es)) = Some rng'"
    and "\<forall>e \<in> set es. f e \<le> uint (sqe_len e)"
  shows "kernel_run (rng, mset es + F) (rng', F)"
  using assms
proof (induction es arbitrary: rng)
  case Nil
  then show ?case by (simp add: kernel_run.none)
next
  case (Cons e es)
  obtain rng1 where p: "ring_post rng (reply (sqe_user_data e, f e)) = Some rng1"
    "put_all ring_post rng1 (map reply (map (\<lambda>e. (sqe_user_data e, f e)) es)) = Some rng'"
    using Cons.prems(1) by (auto split: option.splits)
  have "kernel_step (rng, mset (e # es) + F) (rng1, mset (e # es) + F - {#e#})"
    by (rule kernel_step.complete [OF _ p(1)]) (use Cons.prems(2) in \<open>simp_all add: reply_def\<close>)
  then have "kernel_run (rng, mset (e # es) + F) (rng1, mset es + F)"
    using kernel_run.more [OF kernel_run.none] by simp
  then show ?case using kernel_run_trans Cons.IH [OF p(2)] Cons.prems(2) by simp
qed

lemma executes_bound: "executes e K res K' \<Longrightarrow> res \<le> uint (sqe_len e) \<and> taken K' = taken K"
proof (induction rule: executes.induct)
  case (reads e K p k)
  then have "int k \<le> uint (sqe_len e)" unfolding uint_nat by (simp only: of_nat_le_iff)
  then show ?case by simp
next
  case (writes e K p k)
  then have "int k \<le> uint (sqe_len e)" unfolding uint_nat by (simp only: of_nat_le_iff)
  then show ?case by simp
next
  case (fails res e K)
  then show ?case using uint_ge_0 [of "sqe_len e"] by (simp add: order_trans [of _ 0])
qed

lemma data_kernel_run:
  assumes "data_kernel x y"
  shows "kernel_run (fst x, flight_of (snd x)) (fst y, flight_of (snd y))"
  using assms
proof cases
  case (takes rng c cs K)
  have "sq_visible (ring_sq rng) = c @ concat cs" using concat_chains [of "sq_visible (ring_sq rng)"] takes(3) by simp
  from consume_run [OF this, of "flight_of K"] show ?thesis using takes(1,2) by (simp add: flight_of_def add_ac)
next
  case (runs K A e rest B res K' es cs rng rng')
  note ex = executes_bound [OF runs(4)]
  from runs(5) show ?thesis
  proof (cases rule: finish_request_cases)
    case all
    let ?f = "\<lambda>x. if x = e then res else - ECANCELED" and ?F = "mset (concat (A @ B))"
    obtain rng1 where p: "ring_post rng (reply (sqe_user_data e, res)) = Some rng1"
      "put_all ring_post rng1 (map reply (map (\<lambda>e. (sqe_user_data e, - ECANCELED)) rest)) = Some rng'"
      using runs(6) all(2) by (auto split: option.splits)
    have "kernel_run (rng1, mset rest + ?F) (rng', ?F)"
    proof (rule post_run [OF p(2)], intro ballI)
      fix x :: io_uring_sqe
      show "- ECANCELED \<le> uint (sqe_len x)" using uint_ge_0 [of "sqe_len x"] by (simp add: order_trans [of _ 0])
    qed
    moreover have "kernel_run (rng, mset [e] + (mset rest + ?F)) (rng1, mset rest + ?F)"
      by (rule post_run [of _ "\<lambda>_. res"]) (use p(1) ex in simp_all)
    ultimately show ?thesis
      using kernel_run_trans runs(1-3) all(1) ex by (fastforce simp: flight_of_def add_ac)
  next
    case one
    have "kernel_run (rng, mset [e] + mset (concat (A @ rest # B))) (rng', mset (concat (A @ rest # B)))"
      by (rule post_run [of _ "\<lambda>_. res"]) (use runs(6) one ex in simp_all)
    then show ?thesis using runs(1-3) one(1) ex by (cases "rest = []") (simp_all add: flight_of_def add_ac)
  qed
next
  case (wakes f rng K)
  then show ?thesis using kernel_run.more [OF kernel_run.none kernel_step.flags [OF wakes(3)]] by simp
qed

lemma data_kernel_runs: "data_kernel\<^sup>*\<^sup>* x y \<Longrightarrow> kernel_run (fst x, flight_of (snd x)) (fst y, flight_of (snd y))"
  by (induction rule: rtranclp_induct) (auto intro: kernel_run.none kernel_run_trans dest: data_kernel_run)

lemma enter_data_law: "enter_data view enter \<Longrightarrow> enter_law (\<lambda>w. flight_of (view w)) enter"
  unfolding enter_law_def
proof (intro allI)
  fix fd n c f g k rng w
  assume law: "enter_data view enter"
  obtain ret err rng' w' where e: "enter fd n c f g k rng w = (ret, err, rng', w')" by (metis prod_cases4)
  then have "data_kernel\<^sup>*\<^sup>* (rng, view w) (rng', view w')" using law unfolding enter_data_def by metis
  from data_kernel_runs [OF this]
  show "case enter fd n c f g k rng w of (_, _, rng', w') \<Rightarrow> kernel_run (rng, flight_of (view w)) (rng', flight_of (view w'))"
    using e by simp
qed

lemma os_data_open:
  assumes "os_data view os" "os_open os p f m w = (fd, err, w')"
  shows "fd < 0 \<Longrightarrow> view w' = view w"
    "\<not> fd < 0 \<Longrightarrow> 2 < fd \<and> descs (view w) fd = None \<and> view w' = opened p f fd (view w)"
  using assms unfolding os_data_def by metis+

lemma os_data_close:
  assumes "os_data view os" "os_close os fd w = (ret, err, w')"
  obtains x where "view w' = (view w)\<lparr>descs := (descs (view w))(fd := x)\<rparr>"
  using assms unfolding os_data_def by metis

lemma os_data_keeps:
  assumes "os_data view os"
  shows "os_keeps (\<lambda>w. flight_of (view w)) os"
  unfolding os_keeps_def
proof (intro conjI allI)
  fix p f m w
  obtain fd err w' where o: "os_open os p f m w = (fd, err, w')" by (metis prod_cases3)
  show "flight_of (view (snd (snd (os_open os p f m w)))) = flight_of (view w)"
    using os_data_open [OF assms o] o by (cases "fd < 0") (simp_all add: flight_of_def opened_def)
next
  fix fd w
  obtain ret err w' where o: "os_close os fd w = (ret, err, w')" by (metis prod_cases3)
  obtain x where "view w' = (view w)\<lparr>descs := (descs (view w))(fd := x)\<rparr>" by (rule os_data_close [OF assms o])
  then show "flight_of (view (snd (snd (os_close os fd w)))) = flight_of (view w)" using o by (simp add: flight_of_def)
next
  fix w show "flight_of (view (snd (os_rand os w))) = flight_of (view w)" using assms by (simp add: os_data_def)
qed

end
