(* ===== verification/Copy_Data.thy ===== *)
theory Copy_Data
  imports Copy_Kernel
begin

text \<open>
  The invariant of the data for a whole queue. Every file that was given to the queue is recorded with its
  chunks; every chunk is still to be added, belongs to a live runner, or is in the destination file. A
  live runner satisfies the invariant of \<open>Copy_Transfer\<close> over its own requests and
  completions, its own block of the heap and its own part of the destination file: the other runners
  are the environment that \<open>Copy_Transfer\<close> relies on. Once an error was reported, or noted by a
  runner, nothing is claimed.
\<close>

section \<open>The files of a queue\<close>

text \<open>
  The file \<open>cf_src\<close> was added to be copied to \<open>cf_dst\<close>; it held \<open>cf_data\<close> then, of \<open>cf_size\<close> bytes.
  \<open>cf_id\<close> is the address of its counter; the objects of its descriptors are right before that.
\<close>

record 'b copy_file =
  cf_id :: nat
  cf_src :: path
  cf_dst :: path
  cf_size :: nat
  cf_chunks :: "(nat \<times> nat) list"
  cf_pow :: nat
  cf_data :: "nat \<Rightarrow> 'b option"

definition cf_align :: "'b copy_file \<Rightarrow> u64" where
  "cf_align f = (if cf_size f = 0 then 0 else 2 ^ cf_pow f)"

definition src_bytes :: "'b kern \<Rightarrow> 'b copy_file \<Rightarrow> 'b option list" where
  "src_bytes K f = map (files K (cf_src f)) [0..<cf_size f]"

definition chunk_set :: "nat \<times> nat \<Rightarrow> nat set" where
  "chunk_set c = {fst c..<fst c + snd c}"

text \<open>The chunks of a file, and the heap that serves it.\<close>

definition file_shape :: "CopyQueue \<Rightarrow> 'b copy_file \<Rightarrow> bool" where
  "file_shape q f \<longleftrightarrow> 2 \<le> cf_id f \<and> cf_id f < next_object q \<and>
     (\<forall>c \<in> set (cf_chunks f). \<forall>c' \<in> set (cf_chunks f). c \<noteq> c' \<longrightarrow> chunk_set c \<inter> chunk_set c' = {}) \<and>
     {..<cf_size f} = (\<Union>c \<in> set (cf_chunks f). chunk_set c) \<and>
     (if cf_size f = 0 then cf_chunks f = [(0, 0)]
      else block_serves (cf_pow f) q \<and> (\<forall>c \<in> set (cf_chunks f). 0 < snd c \<and> snd c \<le> unat (chunk_size (2 ^ cf_pow f) q) \<and>
        chunk_ok (replicate (cf_size f) ()) (fresh_runner 0 0 (2 ^ cf_pow f) 0 (map_prod int int c))))"

definition files_apart :: "'b copy_file list \<Rightarrow> bool" where
  "files_apart J \<longleftrightarrow> (\<forall>f \<in> set J. \<forall>f' \<in> set J. cf_src f \<noteq> cf_dst f' \<and>
     (f \<noteq> f' \<longrightarrow> (cf_id f + 3 \<le> cf_id f' \<or> cf_id f' + 3 \<le> cf_id f) \<and> cf_dst f \<noteq> cf_dst f'))"

definition tidy :: "'b kern \<Rightarrow> 'b copy_file \<Rightarrow> bool" where
  "tidy K f \<longleftrightarrow> (\<forall>i \<ge> cf_size f. files K (cf_dst f) i = None)"

text \<open>A descriptor object of the queue that has never been opened, or is open on its file.\<close>

definition desc_ok :: "(int \<rightharpoonup> path) \<Rightarrow> path \<Rightarrow> bool \<Rightarrow> QueueFileDescriptor \<Rightarrow> bool" where
  "desc_ok ds p trunc obj \<longleftrightarrow> c_str (qfd_path obj) = p \<and> (qfd_oflag obj AND O_TRUNC \<noteq> 0) = trunc \<and>
     (qfd_fd obj = NEVER_OPENED_VAL \<or> 2 < qfd_fd obj \<and> ds (qfd_fd obj) = Some p)"

definition file_inv :: "(nat \<rightharpoonup> QueueFileDescriptor) \<Rightarrow> 'b kern \<Rightarrow> 'b copy_file \<Rightarrow> bool" where
  "file_inv D K f \<longleftrightarrow>
     files K (cf_src f) = cf_data f \<and> (\<forall>i. cf_data f i \<noteq> None \<longleftrightarrow> i < cf_size f) \<and>
     (\<forall>obj. D (cf_id f - 2) = Some obj \<longrightarrow> desc_ok (descs K) (cf_src f) False obj) \<and>
     (\<forall>obj. D (cf_id f - 1) = Some obj \<longrightarrow> desc_ok (descs K) (cf_dst f) True obj \<and>
        (qfd_fd obj \<noteq> NEVER_OPENED_VAL \<longrightarrow> tidy K f))"

text \<open>No two objects share a descriptor.\<close>

definition fds_inj :: "(int \<rightharpoonup> path) \<Rightarrow> (nat \<rightharpoonup> QueueFileDescriptor) \<Rightarrow> bool" where
  "fds_inj ds D \<longleftrightarrow> (\<forall>d x. D d = Some x \<longrightarrow> qfd_fd x = NEVER_OPENED_VAL \<or> ds (qfd_fd x) \<noteq> None) \<and>
     (\<forall>d d' x x'. D d = Some x \<and> D d' = Some x' \<and> qfd_fd x = qfd_fd x' \<and> qfd_fd x \<noteq> NEVER_OPENED_VAL \<longrightarrow> d = d')"

section \<open>The requests of a runner\<close>

definition owner :: "io_uring_sqe list \<Rightarrow> nat" where
  "owner c = event_runner (sqe_user_data (last c))"

definition all_chains :: "io_uring \<Rightarrow> 'b kern \<Rightarrow> io_uring_sqe list list" where
  "all_chains rng K = taken K @ link_chains (sq_queued (ring_sq rng))"

definition flight_by :: "nat \<Rightarrow> io_uring_sqe list list \<Rightarrow> io_uring_sqe list" where
  "flight_by r Cs = concat (filter (\<lambda>c. owner c = r) Cs)"

definition done_by :: "nat \<Rightarrow> io_uring \<Rightarrow> (u64 \<times> int) list" where
  "done_by r rng = filter (\<lambda>x. event_runner (fst x) = r) (map cqe_event (cq_pending (ring_cq rng)))"

definition chains_inv :: "io_uring \<Rightarrow> 'b kern \<Rightarrow> bool" where
  "chains_inv rng K \<longleftrightarrow> closed (sq_visible (ring_sq rng)) \<and> closed (sq_queued (ring_sq rng)) \<and>
     (\<forall>c \<in> set (taken K). c \<noteq> []) \<and> distinct (map owner (all_chains rng K))"

definition status :: "CopyRunner \<Rightarrow> RunnerResult" where
  "status t = (if jobsRunning t = 0 then RescheduleTag else ContinueTag)"

definition xview :: "CopyQueue \<Rightarrow> io_uring \<Rightarrow> 'b kern \<Rightarrow> 'b copy_file \<Rightarrow> nat \<Rightarrow> RunnerResult \<Rightarrow> ('b option, unit) xfer" where
  "xview q rng K f r v = \<lparr>xq = q, xw = (), xmem = bytes K, xdst = files K (cf_dst f),
     inflight = flight_by r (all_chains rng K), completions = done_by r rng, verdict = v\<rparr>"

section \<open>The invariant\<close>

definition belongs :: "'b copy_file \<Rightarrow> CopyRunner \<Rightarrow> bool" where
  "belongs f t \<longleftrightarrow> chunksRemaining t = cf_id f \<and> sourceFd t + 2 = cf_id f \<and> destFd t + 1 = cf_id f \<and> cr_alignment t = cf_align f \<and>
     (cr_offset t, cr_size t) \<in> map_prod int int ` set (cf_chunks f)"

definition dst_open :: "(nat \<rightharpoonup> QueueFileDescriptor) \<Rightarrow> 'b copy_file \<Rightarrow> bool" where
  "dst_open D f \<longleftrightarrow> (\<forall>obj. D (cf_id f - 1) = Some obj \<longrightarrow> qfd_fd obj \<noteq> NEVER_OPENED_VAL)"

definition copying :: "CopyQueue \<Rightarrow> io_uring \<Rightarrow> 'b kern \<Rightarrow> 'b copy_file \<Rightarrow> nat \<Rightarrow> CopyRunner \<Rightarrow> RunnerResult \<Rightarrow> bool" where
  "copying q rng K f r t v \<longleftrightarrow> bufferAligned t = aligned_address (buffer t) (cr_alignment t) \<and>
     (\<exists>sfd dfd. xinv (src_bytes K f) r sfd dfd t (xview q rng K f r v) \<and>
        (jobsRunning t \<noteq> 0 \<longrightarrow> fd_ready q (sourceFd t) sfd \<and> fd_ready q (destFd t) dfd)) \<and>
     (writeOffset t \<noteq> cr_offset t \<longrightarrow> dst_open (fds q) f)"

definition runner_inv :: "CopyQueue \<Rightarrow> io_uring \<Rightarrow> 'b kern \<Rightarrow> 'b copy_file \<Rightarrow> nat \<Rightarrow> CopyRunner \<Rightarrow> bool" where
  "runner_inv q rng K f r t \<longleftrightarrow> belongs f t \<and>
     (if cr_size t = 0 \<or> buffer t = 0
      then savedError t = None \<and> readOffset t = cr_offset t \<and> writeOffset t = cr_offset t \<and> jobsRunning t = 0
      else copying q rng K f r t (status t))"

definition todo_of :: "main_pc \<Rightarrow> nat \<Rightarrow> (int \<times> int) list" where
  "todo_of mp c = (case mp of MainAdding j \<Rightarrow> if job_counter j = c then job_todo j else [] | _ \<Rightarrow> [])"

definition parts_apart :: "(nat \<rightharpoonup> CopyRunner) \<Rightarrow> main_pc \<Rightarrow> bool" where
  "parts_apart R mp \<longleftrightarrow>
     (\<forall>r r' t t'. R r = Some t \<and> R r' = Some t' \<and> chunksRemaining t = chunksRemaining t' \<and>
        (cr_offset t, cr_size t) = (cr_offset t', cr_size t') \<longrightarrow> r = r') \<and>
     (\<forall>r t. R r = Some t \<longrightarrow> (cr_offset t, cr_size t) \<notin> set (todo_of mp (chunksRemaining t)))"

definition adding_inv :: "'b copy_file list \<Rightarrow> main_pc \<Rightarrow> bool" where
  "adding_inv J mp = (case mp of
     MainAdding j \<Rightarrow> \<exists>f \<in> set J. cf_id f = job_counter j \<and> job_align j = cf_align f \<and> distinct (job_todo j) \<and>
       set (job_todo j) \<subseteq> map_prod int int ` set (cf_chunks f)
   | _ \<Rightarrow> True)"

definition chunk_done :: "(nat \<rightharpoonup> QueueFileDescriptor) \<Rightarrow> 'b kern \<Rightarrow> 'b copy_file \<Rightarrow> nat \<times> nat \<Rightarrow> bool" where
  "chunk_done D K f c \<longleftrightarrow> tidy K f \<and> dst_open D f \<and> (\<forall>i \<in> chunk_set c. files K (cf_dst f) i = files K (cf_src f) i)"

definition chunk_inv :: "main_pc \<Rightarrow> CopyQueue \<Rightarrow> 'b kern \<Rightarrow> 'b copy_file \<Rightarrow> nat \<times> nat \<Rightarrow> bool" where
  "chunk_inv mp q K f c \<longleftrightarrow> map_prod int int c \<in> set (todo_of mp (cf_id f)) \<or>
     (\<exists>r t. runners q r = Some t \<and> chunksRemaining t = cf_id f \<and> (cr_offset t, cr_size t) = map_prod int int c) \<or>
     chunk_done (fds q) K f c"

text \<open>\<open>X\<close> are runners that are just being looked at, of which nothing is claimed.\<close>

definition data_inv :: "'b copy_file list \<Rightarrow> main_pc \<Rightarrow> nat set \<Rightarrow> CopyQueue \<Rightarrow> io_uring \<Rightarrow> 'b kern \<Rightarrow> bool" where
  "data_inv J mp X q rng K \<longleftrightarrow>
     (\<forall>f \<in> set J. file_shape q f \<and> file_inv (fds q) K f \<and> (\<forall>c \<in> set (cf_chunks f). chunk_inv mp q K f c)) \<and>
     files_apart J \<and> fds_inj (descs K) (fds q) \<and> chains_inv rng K \<and> parts_apart (runners q) mp \<and> adding_inv J mp \<and>
     (\<forall>r t. runners q r = Some t \<and> r \<notin> X \<longrightarrow> (\<exists>f \<in> set J. runner_inv q rng K f r t))"

definition doomed :: "CopyQueue \<Rightarrow> bool" where
  "doomed q \<longleftrightarrow> errored q \<or> (\<exists>r t. runners q r = Some t \<and> savedError t \<noteq> None)"

lemma data_invD:
  assumes "data_inv J mp X q rng K"
  shows "f \<in> set J \<Longrightarrow> file_shape q f" "f \<in> set J \<Longrightarrow> file_inv (fds q) K f"
    "f \<in> set J \<Longrightarrow> c \<in> set (cf_chunks f) \<Longrightarrow> chunk_inv mp q K f c" "files_apart J" "fds_inj (descs K) (fds q)" "chains_inv rng K"
    "parts_apart (runners q) mp" "adding_inv J mp"
  using assms unfolding data_inv_def by blast+

lemma data_inv_runner:
  assumes "data_inv J mp X q rng K" "runners q r = Some t" "r \<notin> X"
  obtains f where "f \<in> set J" "runner_inv q rng K f r t"
  using assms unfolding data_inv_def by blast

lemma data_invI:
  assumes "\<And>f. f \<in> set J \<Longrightarrow> file_shape q f \<and> file_inv (fds q) K f"
    and "\<And>f c. f \<in> set J \<Longrightarrow> c \<in> set (cf_chunks f) \<Longrightarrow> chunk_inv mp q K f c"
    and "files_apart J" "fds_inj (descs K) (fds q)" "chains_inv rng K" "parts_apart (runners q) mp" "adding_inv J mp"
    and "\<And>r t. runners q r = Some t \<Longrightarrow> r \<notin> X \<Longrightarrow> \<exists>f \<in> set J. runner_inv q rng K f r t"
  shows "data_inv J mp X q rng K"
  using assms unfolding data_inv_def by blast

section \<open>Frames\<close>

lemma xinv_cong:
  "runners q r = runners q' r \<Longrightarrow>
     xinv src r sfd dfd t \<lparr>xq = q, xw = w, xmem = m, xdst = d, inflight = fl, completions = cs, verdict = v\<rparr> =
     xinv src r sfd dfd t \<lparr>xq = q', xw = w', xmem = m, xdst = d, inflight = fl, completions = cs, verdict = v\<rparr>"
  by (simp add: xinv_def xshape_def xdata_def xverdict_def)

lemma same_chunk_refl [simp]: "same_chunk t t"
  by (simp add: same_chunk_def)

lemma xinv_rebase: "xinv src r sfd dfd t0 s \<Longrightarrow> runners (xq s) r = Some t \<Longrightarrow> xinv src r sfd dfd t s"
  by (auto simp: xinv_def)

lemma xinv_now:
  assumes "xinv src r sfd dfd t0 s" "runners (xq s) r = Some t"
  shows "same_chunk t0 t" "chunk_ok src t" "xshape r sfd dfd t s" "xbounds r t (completions s)"
    "savedError t = None \<Longrightarrow> xdata src r t s" "xverdict t s"
  using assms by (auto simp: xinv_def)

lemma xinv_idle: "xinv src r sfd dfd t s \<Longrightarrow> inflight s = [] \<Longrightarrow> xinv src r sfd' dfd' t s"
  by (auto simp: xinv_def xshape_def)

text \<open>What another runner sees of a step that leaves its own bytes and requests alone.\<close>

lemma copying_others:
  assumes "copying q rng K f r t v" "runners q r = Some t" "runners q' r = Some t" "src_bytes K' f = src_bytes K f"
    and "flight_by r (all_chains rng' K') = flight_by r (all_chains rng K)" "done_by r rng' = done_by r rng"
    and "\<forall>a \<in> buffer_area t. bytes K' a = bytes K a" "\<forall>i \<in> chunk_area t. files K' (cf_dst f) i = files K (cf_dst f) i"
    and "jobsRunning t \<noteq> 0 \<Longrightarrow> \<forall>d \<in> {sourceFd t, destFd t}. \<forall>fd. fd_ready q d fd \<longrightarrow> fd_ready q' d fd"
    and "dst_open (fds q) f \<Longrightarrow> dst_open (fds q') f"
  shows "copying q' rng' K' f r t v"
proof -
  obtain sfd dfd where x: "xinv (src_bytes K f) r sfd dfd t (xview q rng K f r v)"
    "jobsRunning t \<noteq> 0 \<longrightarrow> fd_ready q (sourceFd t) sfd \<and> fd_ready q (destFd t) dfd"
    using assms(1) by (auto simp: copying_def)
  have "xinv (src_bytes K f) r sfd dfd t ((xview q rng K f r v)\<lparr>xq := q', xw := (), xmem := bytes K', xdst := files K' (cf_dst f)\<rparr>)"
    by (rule xinv_others [OF x(1), of t]) (use assms in \<open>simp_all add: xview_def\<close>)
  then have "xinv (src_bytes K' f) r sfd dfd t (xview q' rng' K' f r v)" using assms(4-6) by (simp add: xview_def)
  then show ?thesis using assms(1,9,10) x(2) by (auto simp: copying_def)
qed

lemma block_serves_slab:
  "same_slab (copyBufferHeap q) (copyBufferHeap q') \<Longrightarrow> heap_wf (copyBufferHeap q') \<Longrightarrow> block_serves a q \<Longrightarrow> block_serves a q'"
  by (simp add: block_serves_def same_slab_def getHeapAlignment_def getBlockSize_def)

lemma chunk_size_slab: "same_slab (copyBufferHeap q) (copyBufferHeap q') \<Longrightarrow> chunk_size a q' = chunk_size a q"
  by (simp add: chunk_size_def same_slab_def getHeapAlignment_def getBlockSize_def)

lemma file_shape_slab:
  assumes "file_shape q f" "same_slab (copyBufferHeap q) (copyBufferHeap q')" "heap_wf (copyBufferHeap q')"
    and "next_object q \<le> next_object q'"
  shows "file_shape q' f"
  using assms block_serves_slab [OF assms(2,3)] chunk_size_slab [OF assms(2)]
  by (auto simp: file_shape_def split: if_splits)

lemma runner_inv_frame:
  assumes "runner_inv q rng K f r t" "runners q r = Some t" "runners q' r = Some t" "fds q' = fds q"
  shows "runner_inv q' rng K f r t"
  using assms copying_others [of q rng K f r t "status t" q' K rng] by (auto simp: runner_inv_def fd_ready_def)

lemma data_inv_frame:
  assumes "data_inv J mp X q rng K" "runners q' = runners q" "fds q' = fds q" "next_object q' = next_object q"
    and "same_slab (copyBufferHeap q) (copyBufferHeap q')" "heap_wf (copyBufferHeap q')"
  shows "data_inv J mp X q' rng K"
proof (rule data_invI)
  note D = data_invD [OF assms(1)]
  show "files_apart J" "fds_inj (descs K) (fds q')" "chains_inv rng K" "parts_apart (runners q') mp" "adding_inv J mp"
    using D(4-8) assms(2,3) by simp_all
  fix f assume f: "f \<in> set J"
  show "file_shape q' f \<and> file_inv (fds q') K f"
    using file_shape_slab [OF D(1) [OF f] assms(5,6)] D(2) [OF f] assms(3,4) by simp
  show "chunk_inv mp q' K f c" if "c \<in> set (cf_chunks f)" for c using D(3) [OF f that] assms(2,3) by (simp add: chunk_inv_def)
next
  fix r t assume r: "runners q' r = Some t" "r \<notin> X"
  then obtain f where "f \<in> set J" "runner_inv q rng K f r t" using data_inv_runner [OF assms(1)] assms(2) by metis
  then show "\<exists>f \<in> set J. runner_inv q' rng K f r t" using runner_inv_frame assms(2,3) r(1) by metis
qed

section \<open>The areas of runners are apart\<close>

lemma chunk_area_set: "(cr_offset t, cr_size t) = map_prod int int c \<Longrightarrow> chunk_area t = chunk_set c"
  by (cases c) (auto simp: chunk_area_def chunk_set_def)

lemma belongs_chunk:
  assumes "belongs f t"
  obtains c where "c \<in> set (cf_chunks f)" "(cr_offset t, cr_size t) = map_prod int int c"
  using assms by (auto simp: belongs_def)

lemma belongs_inj:
  assumes "files_apart J" "f \<in> set J" "f' \<in> set J" "belongs f t" "belongs f' t'" "chunksRemaining t = chunksRemaining t'"
  shows "f = f'"
proof (rule ccontr)
  assume "f \<noteq> f'"
  then have "cf_id f + 3 \<le> cf_id f' \<or> cf_id f' + 3 \<le> cf_id f" using assms(1-3) unfolding files_apart_def by blast
  then show False using assms(4-6) by (auto simp: belongs_def)
qed

lemma chunks_disjoint:
  assumes "data_inv J mp X q rng K" "f \<in> set J" "runners q r = Some t" "runners q r' = Some t'" "r \<noteq> r'"
    and "belongs f t" "belongs f t'"
  shows "chunk_area t \<inter> chunk_area t' = {}"
proof -
  obtain c where c: "c \<in> set (cf_chunks f)" "(cr_offset t, cr_size t) = map_prod int int c" using assms(6) by (rule belongs_chunk)
  obtain c' where c': "c' \<in> set (cf_chunks f)" "(cr_offset t', cr_size t') = map_prod int int c'" using assms(7) by (rule belongs_chunk)
  have "parts_apart (runners q) mp" by (rule data_invD(7) [OF assms(1)])
  moreover have "chunksRemaining t = chunksRemaining t'" using assms(6,7) by (simp add: belongs_def)
  ultimately have "(cr_offset t, cr_size t) \<noteq> (cr_offset t', cr_size t')"
    using assms(3-5) unfolding parts_apart_def by blast
  then have "c \<noteq> c'" using c(2) c'(2) by auto
  moreover have "file_shape q f" by (rule data_invD(1) [OF assms(1,2)])
  ultimately show ?thesis using c(1) c'(1) chunk_area_set [OF c(2)] chunk_area_set [OF c'(2)] unfolding file_shape_def by simp
qed

text \<open>A chunk that some runner has is within the file.\<close>

lemma chunk_area_file: "file_shape q f \<Longrightarrow> belongs f t \<Longrightarrow> chunk_area t \<subseteq> {..<cf_size f}"
proof -
  assume s: "file_shape q f" and b: "belongs f t"
  obtain c where c: "c \<in> set (cf_chunks f)" "(cr_offset t, cr_size t) = map_prod int int c" using b by (rule belongs_chunk)
  then show ?thesis using s chunk_area_set [OF c(2)] unfolding file_shape_def by blast
qed

lemma belongs_size:
  assumes "file_shape q f" "belongs f t" "cr_size t \<noteq> 0"
  shows "cf_size f \<noteq> 0" "cr_alignment t = 2 ^ cf_pow f" "0 < cr_size t" "nat (cr_size t) \<le> unat (chunk_size (2 ^ cf_pow f) q)"
    "block_serves (cf_pow f) q" "length (src_bytes K f) = cf_size f"
proof -
  obtain c where c: "c \<in> set (cf_chunks f)" "(cr_offset t, cr_size t) = map_prod int int c" using assms(2) by (rule belongs_chunk)
  show "cf_size f \<noteq> 0" using c assms(1,3) by (auto simp: file_shape_def split: if_splits)
  then show "cr_alignment t = 2 ^ cf_pow f" "0 < cr_size t" "nat (cr_size t) \<le> unat (chunk_size (2 ^ cf_pow f) q)" "block_serves (cf_pow f) q"
    using c assms(1,2) by (cases c; auto simp: file_shape_def belongs_def cf_align_def)+
  show "length (src_bytes K f) = cf_size f" by (simp add: src_bytes_def)
qed

lemma belongs_chunk_ok:
  assumes "file_shape q f" "belongs f t" "cr_size t \<noteq> 0" "length src = cf_size f"
  shows "chunk_ok src t"
proof -
  obtain c where c: "c \<in> set (cf_chunks f)" "(cr_offset t, cr_size t) = map_prod int int c" using assms(2) by (rule belongs_chunk)
  note b = belongs_size [OF assms(1-3)]
  have "chunk_ok (replicate (cf_size f) ()) (fresh_runner 0 0 (2 ^ cf_pow f) 0 (map_prod int int c))"
    using assms(1) c(1) b(1) by (simp add: file_shape_def)
  moreover have "fst (map_prod int int c) = cr_offset t" "snd (map_prod int int c) = cr_size t" using c(2) by (metis fst_conv, metis snd_conv)
  ultimately show ?thesis using b(2) assms(4) unfolding chunk_ok_def by simp
qed

lemma buffer_area_block:
  assumes "file_shape q f" "belongs f t" "cr_size t \<noteq> 0" "buffer t \<in> held (copyBufferHeap q)"
    and "bufferAligned t = aligned_address (buffer t) (cr_alignment t)" "a \<in> buffer_area t"
  shows "unat a \<in> block_bytes (copyBufferHeap q) (buffer t)"
proof -
  note b = belongs_size [OF assms(1-3)]
  note fit = chunk_in_block [OF b(5) assms(4), folded b(2) assms(5)]
  have wf: "heap_wf (copyBufferHeap q)" using b(5) by (simp add: block_serves_def)
  note p = held_block [OF wf assms(4)]
  obtain k where k: "0 \<le> k" "k < cr_size t" "a = bufferAligned t + word_of_int k" using assms(6) by (auto simp: buffer_area_def)
  then have nk: "a = bufferAligned t + of_nat (nat k)" "nat k < nat (cr_size t)" by simp_all
  have le: "unat (bufferAligned t) + nat k < unat (buffer t) + unat (blockSize (copyBufferHeap q))"
    using fit(1) nk(2) b(4) unfolding getBlockSize_def b(2) by linarith
  have "unat (of_nat (nat k) :: u64) = nat k" by (rule unat_of_nat_u64) (use le p(2) in linarith)
  then have "unat a = unat (bufferAligned t) + nat k" using le p(2) unfolding nk(1) by (simp add: unat_word_ariths)
  then show ?thesis using le fit(2) by (simp add: block_bytes_def)
qed

lemma buffers_disjoint:
  assumes "file_shape q f" "belongs f t" "cr_size t \<noteq> 0" "bufferAligned t = aligned_address (buffer t) (cr_alignment t)"
    and "file_shape q f'" "belongs f' t'" "cr_size t' \<noteq> 0" "bufferAligned t' = aligned_address (buffer t') (cr_alignment t')"
    and "heap_inv nb (copyBufferHeap q) (buffers (runners q))" "runners q r = Some t" "runners q r' = Some t'" "r \<noteq> r'"
    and "buffer t \<noteq> 0" "buffer t' \<noteq> 0"
  shows "buffer_area t \<inter> buffer_area t' = {}"
proof -
  note inv = assms(9) [unfolded heap_inv_def]
  have B: "buffers (runners q) r = Some (buffer t)" "buffers (runners q) r' = Some (buffer t')"
    using assms(10,11) by (simp_all add: buffers_def)
  then have h: "buffer t \<in> held (copyBufferHeap q)" "buffer t' \<in> held (copyBufferHeap q)"
    using inv assms(13,14) by (auto intro: ranI)
  have "buffer t \<noteq> buffer t'" using inv B assms(12,13) by metis
  then have dis: "block_bytes (copyBufferHeap q) (buffer t) \<inter> block_bytes (copyBufferHeap q) (buffer t') = {}"
    using inv h by (intro held_disjoint) auto
  show ?thesis
    using buffer_area_block [OF assms(1-3) h(1) assms(4)] buffer_area_block [OF assms(5-7) h(2) assms(8)] dis by blast
qed


section \<open>A step of one runner\<close>

lemma data_inv_mono: "data_inv J mp X q rng K \<Longrightarrow> X \<subseteq> Y \<Longrightarrow> data_inv J mp Y q rng K"
  unfolding data_inv_def by blast

lemma same_job_belongs: "same_job t t' \<Longrightarrow> belongs f t' = belongs f t"
  by (simp add: belongs_def same_job_def)

lemma runner_inv_belongs: "runner_inv q rng K f r t \<Longrightarrow> belongs f t"
  by (simp add: runner_inv_def)

text \<open>The sources do not change, and nothing is written behind the end of a file.\<close>

lemma own_files:
  assumes "files_apart J" "f \<in> set J" "file_shape q f" "belongs f t"
    and "\<forall>p. p \<noteq> cf_dst f \<longrightarrow> files K' p = files K p"
    and "\<forall>i. i \<notin> chunk_area t \<longrightarrow> files K' (cf_dst f) i = files K (cf_dst f) i" and "f' \<in> set J"
  shows "files K' (cf_src f') = files K (cf_src f')" "tidy K' f' = tidy K f'"
proof -
  have "cf_src f' \<noteq> cf_dst f" using assms(1,2,7) by (simp add: files_apart_def)
  then show "files K' (cf_src f') = files K (cf_src f')" using assms(5) by simp
  show "tidy K' f' = tidy K f'"
  proof (cases "f' = f")
    case True
    have "files K' (cf_dst f) i = files K (cf_dst f) i" if "cf_size f \<le> i" for i
      using assms(6) chunk_area_file [OF assms(3,4)] that by force
    then show ?thesis using True by (simp add: tidy_def)
  next
    case False
    then have "cf_dst f' \<noteq> cf_dst f" using assms(1,2,7) by (simp add: files_apart_def)
    then show ?thesis using assms(5) by (simp add: tidy_def)
  qed
qed

lemma data_inv_own:
  assumes D: "data_inv J mp X q rng K" and H: "heap_inv nb (copyBufferHeap q) (buffers (runners q))"
    and t: "runners q r = Some t" "f \<in> set J" "belongs f t" "cr_size t \<noteq> 0" "buffer t \<noteq> 0"
      "bufferAligned t = aligned_address (buffer t) (cr_alignment t)"
    and q': "runners q' = (runners q)(r \<mapsto> t')" "same_job t t'" "fds q' = fds q" "next_object q' = next_object q"
      "copyBufferHeap q' = copyBufferHeap q"
    and K': "descs K' = descs K" "\<forall>a. a \<notin> buffer_area t \<longrightarrow> bytes K' a = bytes K a"
      "\<forall>p. p \<noteq> cf_dst f \<longrightarrow> files K' p = files K p"
      "\<forall>i. i \<notin> chunk_area t \<longrightarrow> files K' (cf_dst f) i = files K (cf_dst f) i"
    and rest: "\<And>r'. r' \<noteq> r \<Longrightarrow> flight_by r' (all_chains rng' K') = flight_by r' (all_chains rng K) \<and> done_by r' rng' = done_by r' rng"
      "chains_inv rng' K'" "r \<notin> X \<Longrightarrow> runner_inv q' rng' K' f r t'"
  shows "data_inv J mp X q' rng' K'"
proof (rule data_invI)
  note D' = data_invD [OF D]
  note keep = own_files [OF D'(4) t(2) D'(1) [OF t(2)] t(3) K'(3,4)]
  have wf: "heap_wf (copyBufferHeap q')" using H q'(5) by (simp add: heap_inv_def)
  show "files_apart J" "fds_inj (descs K') (fds q')" "adding_inv J mp" "chains_inv rng' K'" using D'(4,5,8) q'(3) K'(1) rest(2) by simp_all
  have same: "chunksRemaining t' = chunksRemaining t" "cr_offset t' = cr_offset t" "cr_size t' = cr_size t"
    using q'(2) by (simp_all add: same_job_def)
  show "parts_apart (runners q') mp"
    using D'(7) t(1) same unfolding parts_apart_def q'(1) by (auto split: if_splits)
  fix g assume g: "g \<in> set J"
  have "file_shape q' g" using file_shape_slab [OF D'(1) [OF g] _ wf] q'(4,5) by simp
  moreover have "file_inv (fds q') K' g" using D'(2) [OF g] keep [OF g] q'(3) K'(1) by (simp add: file_inv_def)
  ultimately show "file_shape q' g \<and> file_inv (fds q') K' g" by simp
  fix c assume c: "c \<in> set (cf_chunks g)"
  consider (todo) "map_prod int int c \<in> set (todo_of mp (cf_id g))"
    | (live) x y where "runners q x = Some y" "chunksRemaining y = cf_id g" "(cr_offset y, cr_size y) = map_prod int int c"
    | (finished) "chunk_done (fds q) K g c" using D'(3) [OF g c] unfolding chunk_inv_def by blast
  then show "chunk_inv mp q' K' g c"
  proof cases
    case todo
    then show ?thesis by (simp add: chunk_inv_def)
  next
    case live
    show ?thesis
    proof (cases "x = r")
      case True
      then have "runners q' r = Some t'" "chunksRemaining t' = cf_id g" "(cr_offset t', cr_size t') = map_prod int int c"
        using live t(1) q'(1) same by simp_all
      then show ?thesis unfolding chunk_inv_def by blast
    next
      case False
      then have "runners q' x = Some y" using live(1) q'(1) by simp
      then show ?thesis using live(2,3) unfolding chunk_inv_def by blast
    qed
  next
    case finished
    show ?thesis
    proof (cases "g = f")
      case False
      then have "cf_dst g \<noteq> cf_dst f" using D'(4) g t(2) by (simp add: files_apart_def)
      then have "chunk_done (fds q') K' g c" using finished keep [OF g] K'(3) q'(3) by (simp add: chunk_done_def)
      then show ?thesis by (simp add: chunk_inv_def)
    next
      case True
      obtain d where d: "d \<in> set (cf_chunks f)" "(cr_offset t, cr_size t) = map_prod int int d" using t(3) by (rule belongs_chunk)
      show ?thesis
      proof (cases "c = d")
        case True
        then have "runners q' r = Some t'" "chunksRemaining t' = cf_id g" "(cr_offset t', cr_size t') = map_prod int int c"
          using \<open>g = f\<close> d(2) t(3) q'(1) same by (simp_all add: belongs_def)
        then show ?thesis unfolding chunk_inv_def by blast
      next
        case False
        then have "chunk_set c \<inter> chunk_area t = {}"
          using D'(1) [OF g] c d(1) True chunk_area_set [OF d(2)] unfolding file_shape_def by simp
        then have "chunk_done (fds q') K' g c"
          using finished keep [OF g] K'(4) q'(3) True by (auto simp: chunk_done_def)
        then show ?thesis by (simp add: chunk_inv_def)
      qed
    qed
  qed
next
  fix x y assume x: "runners q' x = Some y" "x \<notin> X"
  note D' = data_invD [OF D]
  show "\<exists>g \<in> set J. runner_inv q' rng' K' g x y"
  proof (cases "x = r")
    case True
    then show ?thesis using x rest(3) q'(1) t(2) by auto
  next
    case False
    then have xq: "runners q x = Some y" using x(1) q'(1) by simp
    then obtain g where g: "g \<in> set J" "runner_inv q rng K g x y" using data_inv_runner [OF D _ x(2)] by blast
    have src: "src_bytes K' g = src_bytes K g"
      using own_files(1) [OF D'(4) t(2) D'(1) [OF t(2)] t(3) K'(3,4) g(1)] by (simp add: src_bytes_def)
    show ?thesis
    proof (cases "cr_size y = 0 \<or> buffer y = 0")
      case True
      then show ?thesis using g by (intro bexI [of _ g]) (auto simp: runner_inv_def)
    next
      case busy: False
      have yb: "belongs g y" "copying q rng K g x y (status y)" using g(2) busy by (simp_all add: runner_inv_def)
      then have al: "bufferAligned y = aligned_address (buffer y) (cr_alignment y)" by (simp add: copying_def)
      have "buffer_area t \<inter> buffer_area y = {}"
        by (rule buffers_disjoint [OF D'(1) [OF t(2)] t(3,4,6) D'(1) [OF g(1)] yb(1) _ al H t(1) xq False [symmetric] t(5)]) (use busy in auto)
      then have mem: "\<forall>a \<in> buffer_area y. bytes K' a = bytes K a" using K'(2) by blast
      have "\<forall>i \<in> chunk_area y. files K' (cf_dst g) i = files K (cf_dst g) i"
      proof (cases "g = f")
        case True
        then have "chunk_area t \<inter> chunk_area y = {}"
          using chunks_disjoint [OF D t(2,1) xq False [symmetric] t(3)] yb(1) by simp
        then show ?thesis using K'(4) True by blast
      next
        case False
        then have "cf_dst g \<noteq> cf_dst f" using D'(4) g(1) t(2) by (simp add: files_apart_def)
        then show ?thesis using K'(3) by simp
      qed
      then have "copying q' rng' K' g x y (status y)"
        using copying_others [OF yb(2) xq x(1) src _ _ mem] rest(1) [OF False] q'(3) by (simp add: fd_ready_def)
      then show ?thesis using g(1) yb(1) busy by (auto simp: runner_inv_def)
    qed
  qed
qed


section \<open>The kernel\<close>

text \<open>Steps that move requests between the ring and the kernel.\<close>

lemma data_inv_ring:
  assumes "data_inv J mp X q rng K" "all_chains rng' K' = all_chains rng K" "\<And>r. done_by r rng' = done_by r rng"
    and "bytes K' = bytes K" "files K' = files K" "descs K' = descs K" "chains_inv rng' K'"
  shows "data_inv J mp X q rng' K'"
proof (rule data_invI)
  note D = data_invD [OF assms(1)]
  show "files_apart J" "fds_inj (descs K') (fds q)" "chains_inv rng' K'" "parts_apart (runners q) mp" "adding_inv J mp"
    using D(4-8) assms(6,7) by simp_all
  fix f assume f: "f \<in> set J"
  show "file_shape q f \<and> file_inv (fds q) K' f" using D(1,2) [OF f] assms(5,6) by (simp add: file_inv_def tidy_def)
  show "chunk_inv mp q K' f c" if "c \<in> set (cf_chunks f)" for c
    using D(3) [OF f that] assms(5) by (simp add: chunk_inv_def chunk_done_def tidy_def)
next
  fix r t assume r: "runners q r = Some t" "r \<notin> X"
  then obtain f where "f \<in> set J" "runner_inv q rng K f r t" using data_inv_runner [OF assms(1)] by metis
  moreover have "xview q rng' K' f r v = xview q rng K f r v" "src_bytes K' f = src_bytes K f" for f v
    using assms(2-5) by (simp_all add: xview_def src_bytes_def)
  ultimately show "\<exists>f \<in> set J. runner_inv q rng' K' f r t" by (auto simp: runner_inv_def copying_def)
qed

lemma takes_chains:
  assumes "chains_inv rng K" "ring_inv n m rng" "link_chains (sq_visible (ring_sq rng)) = c # cs"
  defines "rng' \<equiv> rng\<lparr>ring_sq := sq_consume (length c) (ring_sq rng)\<rparr>" and "K' \<equiv> K\<lparr>taken := taken K @ [c]\<rparr>"
  shows "all_chains rng' K' = all_chains rng K" "chains_inv rng' K'"
proof -
  let ?sq = "ring_sq rng"
  have sq: "sq_inv n ?sq" using assms(2) by (simp add: ring_inv_def)
  have cl: "closed (sq_visible ?sq)" "closed (sq_queued ?sq)" using assms(1) by (simp_all add: chains_inv_def)
  note hd = chains_hd [OF assms(3) cl(1)]
  have len: "length c \<le> length (sq_visible ?sq)" using hd(1) by simp
  note co = sq_consume_inv [OF sq len]
  define tail where "tail = drop (length (sq_visible ?sq)) (sq_queued ?sq)"
  have que: "sq_queued ?sq = sq_visible ?sq @ tail" unfolding tail_def by (metis append_take_drop_id sq_visible_prefix [OF sq])
  have vis': "sq_visible (sq_consume (length c) ?sq) = concat cs" using co(2) hd(1) by simp
  have que': "sq_queued (sq_consume (length c) ?sq) = concat cs @ tail" using co(3) que hd(1) by simp
  have "link_chains (sq_queued ?sq) = c # cs @ link_chains tail" using que chains_append [OF cl(1)] assms(3) by simp
  moreover have "link_chains (concat cs @ tail) = cs @ link_chains tail" using chains_append [OF hd(3)] hd(2) by simp
  ultimately show all: "all_chains rng' K' = all_chains rng K" by (simp add: all_chains_def rng'_def K'_def que')
  have "closed (concat cs @ tail)"
    using cl(2) hd(3) unfolding que by (cases "tail = []") (simp_all add: closed_def)
  moreover have "c \<noteq> []" using chains_nonempty [of c "sq_visible ?sq"] assms(3) by simp
  ultimately show "chains_inv rng' K'"
    using assms(1) all hd(3) unfolding chains_inv_def by (auto simp: rng'_def K'_def vis' que')
qed

lemma post_pending:
  assumes "put_all ring_post rng cs = Some rng'" "ring_inv n m rng"
  shows "cq_pending (ring_cq rng') = cq_pending (ring_cq rng) @ cs \<and> ring_sq rng' = ring_sq rng"
  using assms
proof (induction cs arbitrary: rng)
  case (Cons c cs)
  then obtain rng1 where p: "ring_post rng c = Some rng1" "put_all ring_post rng1 cs = Some rng'" by (auto split: option.splits)
  then obtain cq where cq: "cq_post (ring_cq rng) c = Some cq" "rng1 = rng\<lparr>ring_cq := cq\<rparr>" by (auto simp: ring_post_def)
  have cqi: "cq_inv m (ring_cq rng)" using Cons.prems(2) by (simp add: ring_inv_def)
  note pend = cq_post_pending [OF cqi cq(1)]
  have "ring_inv n m rng1" using Cons.prems(2) pend(1) cq(2) by (simp add: ring_inv_def cq_ring_needs_flush_def)
  then show ?case using Cons.IH [OF p(2)] cq(2) pend(2) by simp
qed simp

lemma done_by_post:
  assumes "cq_pending (ring_cq rng') = cq_pending (ring_cq rng) @ map reply cs"
  shows "done_by r rng' = done_by r rng @ filter (\<lambda>x. event_runner (fst x) = r) cs"
proof -
  have "map cqe_event (map reply cs) = cs" by (induction cs) (auto simp: reply_def cqe_event_def)
  then show ?thesis using assms by (simp add: done_by_def del: map_map)
qed

text \<open>A chain that loses its head, or all of its requests.\<close>

lemma flight_by_split:
  assumes "distinct (map owner (A @ c # B))"
  shows "flight_by (owner c) (A @ c # B) = c"
    "es = [] \<or> owner es = owner c \<Longrightarrow> flight_by (owner c) (A @ (if es = [] then [] else [es]) @ B) = es"
    "es = [] \<or> owner es = owner c \<Longrightarrow> r \<noteq> owner c \<Longrightarrow> flight_by r (A @ (if es = [] then [] else [es]) @ B) = flight_by r (A @ c # B)"
    "es = [] \<or> owner es = owner c \<Longrightarrow> distinct (map owner (A @ (if es = [] then [] else [es]) @ B))"
proof -
  have "owner c \<notin> owner ` set A" "owner c \<notin> owner ` set B" using assms by auto
  then have A: "filter (\<lambda>x. owner x = owner c) A = []" and B: "filter (\<lambda>x. owner x = owner c) B = []"
    by (metis (mono_tags) filter_False imageI)+
  show "flight_by (owner c) (A @ c # B) = c"
    "es = [] \<or> owner es = owner c \<Longrightarrow> flight_by (owner c) (A @ (if es = [] then [] else [es]) @ B) = es"
    using A B by (auto simp: flight_by_def)
  show "flight_by r (A @ (if es = [] then [] else [es]) @ B) = flight_by r (A @ c # B)"
    if "es = [] \<or> owner es = owner c" "r \<noteq> owner c" using that by (auto simp: flight_by_def)
  show "distinct (map owner (A @ (if es = [] then [] else [es]) @ B))" if "es = [] \<or> owner es = owner c"
    using that assms by (cases "es = []") simp_all
qed

lemma req_fd [simp]: "sqe_fd (rd_req r sfd t) = sfd" "sqe_fd (wr_req r dfd t) = dfd"
  by (simp_all add: rd_req_def wr_req_def read_sqe_def write_sqe_def io_uring_prep_read_def io_uring_prep_write_def
      io_uring_prep_rw_def Let_def)

text \<open>The runner whose chain is executed.\<close>

lemma chain_runner:
  assumes "data_inv J mp {} q rng K" "ring_ok n m (runners q) k (rng, flight_of K)" "c \<in> set (taken K)"
  obtains t f where "runners q (owner c) = Some t" "f \<in> set J" "belongs f t" "cr_size t \<noteq> 0" "buffer t \<noteq> 0" "jobsRunning t \<noteq> 0"
    "copying q rng K f (owner c) t ContinueTag"
proof -
  have "c \<noteq> []" using data_invD(6) [OF assms(1)] assms(3) by (simp add: chains_inv_def)
  then have "last c \<in> set (concat (taken K))" using assms(3) by (auto intro!: bexI [of _ c])
  then have ev: "sqe_event (last c) \<in># outstanding rng (flight_of K)" by (auto simp: outstanding_eq flight_of_def)
  have inv: "ev_inv (runners q) (outstanding rng (flight_of K))" using assms(2) by (simp add: ring_ok_def)
  then obtain t where t: "runners q (owner c) = Some t" using ev by (fastforce simp: ev_inv_def owner_def sqe_event_def)
  have "0 < events_of (owner c) (outstanding rng (flight_of K))" using events_pos [OF ev] by (simp add: owner_def sqe_event_def)
  then have j: "jobsRunning t \<noteq> 0" using inv t by (simp add: ev_inv_def)
  obtain f where f: "f \<in> set J" "runner_inv q rng K f (owner c) t" using data_inv_runner [OF assms(1) t] by blast
  then show thesis using that [OF t f(1)] j by (auto simp: runner_inv_def status_def split: if_splits)
qed


lemma ready_desc:
  assumes "file_inv (fds q) K f" "belongs f t"
  shows "fd_ready q (sourceFd t) sfd \<Longrightarrow> descs K sfd = Some (cf_src f)" "fd_ready q (destFd t) dfd \<Longrightarrow> descs K dfd = Some (cf_dst f)"
proof -
  have "sourceFd t = cf_id f - 2" "destFd t = cf_id f - 1" using assms(2) by (auto simp: belongs_def)
  then show "fd_ready q (sourceFd t) sfd \<Longrightarrow> descs K sfd = Some (cf_src f)" "fd_ready q (destFd t) dfd \<Longrightarrow> descs K dfd = Some (cf_dst f)"
    using assms(1) by (auto simp: fd_ready_def file_inv_def desc_ok_def NEVER_OPENED_VAL_def)
qed

lemma src_bytes_slice:
  "off + k \<le> cf_size f \<Longrightarrow> map (files K (cf_src f)) [off..<off + k] = take k (drop off (src_bytes K f))"
  by (rule nth_equalityI) (simp_all add: src_bytes_def)

text \<open>The head of a chain of a runner is executed.\<close>

lemma executes_own:
  assumes "executes e K res K'" "file_inv (fds q) K f" "belongs f t" "r < 2 ^ 62"
    and "xinv (src_bytes K f) r sfd dfd t s" "runners (xq s) r = Some t" "inflight s = e # rest" "xmem s = bytes K" "xdst s = files K (cf_dst f)"
    and "fd_ready q (sourceFd t) sfd" "fd_ready q (destFd t) dfd"
  shows "xinv (src_bytes K f) r sfd dfd t (post e res rest (s\<lparr>xmem := bytes K', xdst := files K' (cf_dst f)\<rparr>))"
    and "descs K' = descs K \<and> taken K' = taken K \<and> (\<forall>a. a \<notin> buffer_area t \<longrightarrow> bytes K' a = bytes K a) \<and>
      (\<forall>p. p \<noteq> cf_dst f \<longrightarrow> files K' p = files K p) \<and> (\<forall>i. i \<notin> chunk_area t \<longrightarrow> files K' (cf_dst f) i = files K (cf_dst f) i)"
proof -
  have t: "chunk_ok (src_bytes K f) t" "xshape r sfd dfd t s" "xbounds r t (completions s)"
    by (rule xinv_now [OF assms(5,6)])+
  note d = ready_desc(1) [OF assms(2,3,10)] ready_desc(2) [OF assms(2,3,11)]
  have "xinv (src_bytes K f) r sfd dfd t (post e res rest (s\<lparr>xmem := bytes K', xdst := files K' (cf_dst f)\<rparr>)) \<and>
      (descs K' = descs K \<and> taken K' = taken K \<and> (\<forall>a. a \<notin> buffer_area t \<longrightarrow> bytes K' a = bytes K a) \<and>
      (\<forall>p. p \<noteq> cf_dst f \<longrightarrow> files K' p = files K p) \<and> (\<forall>i. i \<notin> chunk_area t \<longrightarrow> files K' (cf_dst f) i = files K (cf_dst f) i))"
    using assms(1)
  proof cases
    case (reads p k)
    have e: "e = rd_req r sfd t" "readOffset t < chunk_end t" using t(2) assms(7) reads(3) wr_req_fields(3) by (auto simp: xshape_def)
    then have p: "p = cf_src f" using reads(4) d(1) by simp
    have ro: "cr_offset t \<le> readOffset t" using t(3) by (simp add: xbounds_def)
    have off: "unat (sqe_off e) = nat (readOffset t)" using chunk_offsets(1) [OF t(1) ro] e rd_req_fields(6) by simp
    have le: "unat (sqe_off e) + k \<le> cf_size f"
    proof (cases k)
      case 0
      have "chunk_end t \<le> int (cf_size f)" using t(1) by (simp add: chunk_ok_def chunk_end_def src_bytes_def)
      then show ?thesis using 0 off e(2) by simp
    next
      case (Suc k')
      then have "files K p (unat (sqe_off e) + k') \<noteq> None" using reads(6) by simp
      then have "unat (sqe_off e) + k' < cf_size f" using assms(2) p by (simp add: file_inv_def)
      then show ?thesis using Suc by simp
    qed
    then have len: "unat (sqe_off e) + k \<le> length (src_bytes K f)" by (simp add: src_bytes_def)
    have mem: "map (files K p) [unat (sqe_off e)..<unat (sqe_off e) + k] = take k (drop (unat (sqe_off e)) (src_bytes K f))"
      unfolding p by (rule src_bytes_slice [OF le])
    have same: "s\<lparr>xdst := files K (cf_dst f)\<rparr> = s" using assms(9) by (cases s) simp
    have "s\<lparr>xmem := bytes K', xdst := files K' (cf_dst f)\<rparr> = s\<lparr>xmem := write_mem (sqe_addr e) (take k (drop (unat (sqe_off e)) (src_bytes K f))) (xmem s)\<rparr>"
      using reads(2) mem assms(8,9) by (cases s) simp
    then show ?thesis
      using xinv_read [OF assms(5,4,7) reads(3,5) len] read_in_area [OF assms(5,7) reads(3,5) len] reads(1,2) mem by simp
  next
    case (writes p k)
    have e: "e = wr_req r dfd t" using t(2) assms(7) writes(3) rd_req_fields(3) by (auto simp: xshape_def)
    then have p: "p = cf_dst f" using writes(4) d(2) by simp
    have "s\<lparr>xmem := bytes K', xdst := files K' (cf_dst f)\<rparr> =
        s\<lparr>xdst := write_file (unat (sqe_off e)) (read_mem (sqe_addr e) k (xmem s)) (xdst s)\<rparr>"
      using writes(2) p assms(8,9) by (cases s) simp
    then show ?thesis
      using xinv_write [OF assms(5,4,7) writes(3,5)] write_in_area [OF assms(5,7) writes(3,5), of _ "sqe_addr e" "files K (cf_dst f)"]
        writes(1,2) p assms(8) by simp
  next
    case fails
    have "s\<lparr>xmem := bytes K', xdst := files K' (cf_dst f)\<rparr> = s" using fails(1) assms(8,9) by (cases s) simp
    then show ?thesis using xinv_fail [OF assms(5,4,7) fails(2)] fails(1) by simp
  qed
  then show "xinv (src_bytes K f) r sfd dfd t (post e res rest (s\<lparr>xmem := bytes K', xdst := files K' (cf_dst f)\<rparr>))"
    "descs K' = descs K \<and> taken K' = taken K \<and> (\<forall>a. a \<notin> buffer_area t \<longrightarrow> bytes K' a = bytes K a) \<and>
      (\<forall>p. p \<noteq> cf_dst f \<longrightarrow> files K' p = files K p) \<and> (\<forall>i. i \<notin> chunk_area t \<longrightarrow> files K' (cf_dst f) i = files K (cf_dst f) i)"
    by blast+
qed


lemma shape_owner:
  assumes "xshape r sfd dfd t s" "r < 2 ^ 62" "inflight s = e # rest"
  shows "\<forall>x \<in> set (e # rest). event_runner (sqe_user_data x) = r"
  using assms rd_req_fields(1) wr_req_fields(1) event_ptr_inj(3) [OF assms(2)] by (auto simp: xshape_def)

lemma finish_request_owner:
  assumes "finish_request e res rest = (es, cs)" "\<forall>x \<in> set (e # rest). event_runner (sqe_user_data x) = r"
  shows "es = [] \<or> owner es = r" "\<forall>x \<in> set cs. event_runner (fst x) = r"
proof -
  have "owner rest = r" if "rest \<noteq> []" using that assms(2) last_in_set [of rest] by (simp add: owner_def)
  note last = this
  show "es = [] \<or> owner es = r" using assms(1) by (cases rule: finish_request_cases) (use last in auto)
  show "\<forall>x \<in> set cs. event_runner (fst x) = r" using assms(1) by (cases rule: finish_request_cases) (use assms(2) in auto)
qed

lemma data_kernel_inv:
  assumes step: "data_kernel (rng, K) (rng', K')" and D: "data_inv J mp {} q rng K"
    and ok: "ring_ok n m (runners q) k (rng, flight_of K)" and H: "heap_inv nb (copyBufferHeap q) (buffers (runners q))"
    and small: "\<forall>r \<in> dom (runners q). r < 2 ^ 62"
  shows "data_inv J mp {} q rng' K'"
  using step
proof cases
  case (takes c cs)
  note ch = takes_chains [OF data_invD(6) [OF D] _ takes(3), of n m]
  have "ring_inv n m rng" using ok by (simp add: ring_ok_def)
  then show ?thesis using data_inv_ring [OF D, of rng' K'] ch takes(1,2) by (simp add: done_by_def)
next
  case (wakes f)
  have "sq_queued ((ring_sq rng)\<lparr>sq_kflags := f\<rparr>) = sq_queued (ring_sq rng)" "sq_visible ((ring_sq rng)\<lparr>sq_kflags := f\<rparr>) = sq_visible (ring_sq rng)"
    by (simp_all add: sq_queued_def sq_visible_def)
  then show ?thesis using data_inv_ring [OF D, of rng' K'] data_invD(6) [OF D] wakes(1,2) by (simp add: done_by_def all_chains_def chains_inv_def)
next
  case (runs A e rest B res K1 es cs)
  let ?c = "e # rest" and ?Q = "link_chains (sq_queued (ring_sq rng))"
  obtain t f where t: "runners q (owner ?c) = Some t" "f \<in> set J" "belongs f t" "cr_size t \<noteq> 0" "buffer t \<noteq> 0" "jobsRunning t \<noteq> 0"
    "copying q rng K f (owner ?c) t ContinueTag" using chain_runner [OF D ok, of ?c] runs(2) by auto
  let ?r = "owner ?c" and ?s = "xview q rng K f (owner ?c) ContinueTag"
  obtain sfd dfd where x: "xinv (src_bytes K f) ?r sfd dfd t ?s" "fd_ready q (sourceFd t) sfd" "fd_ready q (destFd t) dfd"
    and al: "bufferAligned t = aligned_address (buffer t) (cr_alignment t)" "writeOffset t \<noteq> cr_offset t \<longrightarrow> dst_open (fds q) f"
    using t(6,7) by (auto simp: copying_def)
  have r: "?r < 2 ^ 62" using small t(1) by blast
  have all: "all_chains rng K = A @ ?c # (B @ ?Q)" using runs(2) by (simp add: all_chains_def)
  have dist: "distinct (map owner (A @ ?c # (B @ ?Q)))" using data_invD(6) [OF D] all by (simp add: chains_inv_def)
  note fl = flight_by_split [OF dist]
  have inf: "inflight ?s = ?c" using fl(1) all by (simp add: xview_def)
  note ex = executes_own [OF runs(3) data_invD(2) [OF D t(2)] t(3) r x(1) _ inf _ _ x(2,3)]
  have sh: "xshape ?r sfd dfd t ?s" using xinv_now(3) [OF x(1)] t(1) by (simp add: xview_def)
  note own = shape_owner [OF sh r inf]
  have es: "es = [] \<or> owner es = ?r" and cs: "\<forall>x \<in> set cs. event_runner (fst x) = ?r"
    by (rule finish_request_owner [OF runs(4) own])+
  have "ring_inv n m rng" using ok by (simp add: ring_ok_def)
  note pend = post_pending [OF runs(5) this]
  have dn: "done_by x rng' = done_by x rng @ (if x = ?r then cs else [])" for x
    using done_by_post [OF conjunct1 [OF pend], of x] cs by (auto simp: filter_empty_conv filter_id_conv)
  have all': "all_chains rng' K' = A @ (if es = [] then [] else [es]) @ (B @ ?Q)"
    using runs(1) pend by (simp add: all_chains_def)
  have K': "descs K' = descs K" "\<forall>a. a \<notin> buffer_area t \<longrightarrow> bytes K' a = bytes K a"
    "\<forall>p. p \<noteq> cf_dst f \<longrightarrow> files K' p = files K p" "\<forall>i. i \<notin> chunk_area t \<longrightarrow> files K' (cf_dst f) i = files K (cf_dst f) i"
    using ex(2) t(1) runs(1) by (simp_all add: xview_def)
  show ?thesis
  proof (rule data_inv_own [OF D H t(1-5) al(1) _ _ _ _ _ K'])
    show "same_job t t" by (simp add: same_job_def)
    show "flight_by x (all_chains rng' K') = flight_by x (all_chains rng K) \<and> done_by x rng' = done_by x rng" if "x \<noteq> ?r" for x
      using that fl(3) [OF es that] dn all all' by simp
    show "chains_inv rng' K'"
      using data_invD(6) [OF D] pend fl(4) [OF es] all' runs(1,2) by (auto simp: chains_inv_def)
    have src: "src_bytes K' f = src_bytes K f"
      using own_files(1) [OF data_invD(4) [OF D] t(2) data_invD(1) [OF D t(2)] t(3) K'(3,4) t(2)] by (simp add: src_bytes_def)
    have "post e res rest (?s\<lparr>xmem := bytes K1, xdst := files K1 (cf_dst f)\<rparr>) = xview q rng' K' f ?r ContinueTag"
      using runs(1,4) fl(2) [OF es] all' dn by (simp add: post_def xview_def)
    then have "xinv (src_bytes K' f) ?r sfd dfd t (xview q rng' K' f ?r ContinueTag)"
      using ex(1) t(1) src by (simp add: xview_def)
    then show "runner_inv q rng' K' f ?r t"
      using t(3-6) x(2,3) al by (auto simp: runner_inv_def copying_def status_def)
  qed (use t(1) in auto)
qed

end
