(* ===== verification/Copy_Open.thy ===== *)
theory Copy_Open
  imports Copy_Data
begin

text \<open>
  The system calls that open and close files keep the invariant of the data: an object of the queue is
  opened once, on its own path, with a descriptor that no other object has, and a destination is
  truncated before any of its chunks is written.
\<close>

section \<open>Opening files\<close>

lemma opened_trunc: "(f AND O_TRUNC \<noteq> 0) = (g AND O_TRUNC \<noteq> 0) \<Longrightarrow> opened p f fd K = opened p g fd K"
  by (simp add: opened_def)

lemma xor_direct_trunc: "(f XOR O_DIRECT) AND O_TRUNC = f AND O_TRUNC" for f :: int
proof (rule bit_eqI)
  fix n
  have "bit (O_DIRECT AND O_TRUNC :: int) n = False" by simp
  then have "\<not> (bit (O_DIRECT :: int) n \<and> bit (O_TRUNC :: int) n)" by (simp only: bit_and_iff) simp
  then show "bit ((f XOR O_DIRECT) AND O_TRUNC) n = bit (f AND O_TRUNC) n" by (auto simp: bit_and_iff bit_xor_iff)
qed

lemma myOpen_loop_data:
  assumes "os_data view os" "myOpen_loop os k p f m (fd0, err0, w) = (fd, err, w')" "0 < k"
  shows "if fd < 0 then view w' = view w else 2 < fd \<and> descs (view w) fd = None \<and> view w' = opened (c_str p) f fd (view w)"
  using assms(2,3)
proof (induction k arbitrary: f fd0 err0 w)
  case (Suc k)
  obtain fd1 err1 w1 where o: "os_open os (c_str p) f m w = (fd1, err1, w1)" by (metis prod_cases3)
  note law = os_data_open [OF assms(1) o]
  show ?case
  proof (cases "fd1 < 0")
    case False
    then have "fd = fd1" "w' = w1" using Suc.prems(1) o by (auto simp: Let_def)
    then show ?thesis using law(2) False by simp
  next
    case True
    consider (again) f' where "f' = f \<or> f' = f XOR O_DIRECT" "myOpen_loop os k p f' m (fd1, err1, w1) = (fd, err, w')"
      | (over) "fd = fd1" "w' = w1"
      using Suc.prems(1) o True by (auto simp: Let_def split: if_splits)
    then show ?thesis
    proof cases
      case over
      then show ?thesis using law(1) True by simp
    next
      case again
      then have tr: "(f' AND O_TRUNC \<noteq> 0) = (f AND O_TRUNC \<noteq> 0)" using xor_direct_trunc by auto
      show ?thesis
      proof (cases k)
        case 0
        then show ?thesis using again law(1) True by simp
      next
        case (Suc j)
        then show ?thesis using Suc.IH [OF again(2)] law(1) [OF True] opened_trunc [OF tr, of "c_str p" fd "view w"] by (auto split: if_splits)
      qed
    qed
  qed
qed simp

lemma myOpen_data:
  assumes "os_data view os" "myOpen os p f m w = (res, w')"
  shows "case res of Inl e \<Rightarrow> view w' = view w
    | Inr fd \<Rightarrow> 2 < fd \<and> descs (view w) fd = None \<and> view w' = opened (c_str p) f fd (view w)"
proof -
  obtain fd err w1 where l: "myOpen_loop os 5 p f m (-1, 0, w) = (fd, err, w1)" by (metis prod_cases3)
  then show ?thesis using myOpen_loop_data [OF assms(1) l] assms(2) by (auto simp: myOpen_def split: if_splits)
qed

text \<open>The object at \<open>d\<close> was opened.\<close>

definition fd_opened :: "nat \<Rightarrow> CopyQueue \<Rightarrow> 'b kern \<Rightarrow> CopyQueue \<Rightarrow> 'b kern \<Rightarrow> bool" where
  "fd_opened d q K q' K' \<longleftrightarrow> (\<exists>obj fd. fds q d = Some obj \<and> qfd_fd obj = NEVER_OPENED_VAL \<and> 2 < fd \<and> descs K fd = None \<and>
     fds q' = (fds q)(d \<mapsto> obj\<lparr>qfd_fd := fd\<rparr>) \<and> K' = opened (c_str (qfd_path obj)) (qfd_oflag obj) fd K)"

lemma ensureOpened_data:
  assumes "os_data view os" "ensureOpened nd os d q w = Inr (Inr u, q', w')"
  shows "fds q' = fds q \<and> view w' = view w \<and> (\<forall>obj. fds q d = Some obj \<longrightarrow> qfd_fd obj \<noteq> NEVER_OPENED_VAL) \<or>
    fd_opened d q (view w) q' (view w')"
proof -
  obtain obj where obj: "fds q d = Some obj" using assms(2) by (auto simp: ensureOpened_def outcome_simps)
  show ?thesis
  proof (cases "qfd_fd obj = NEVER_OPENED_VAL")
    case False
    then show ?thesis using assms(2) obj by (auto simp: ensureOpened_def outcome_simps)
  next
    case True
    then obtain k where "doOpen os d (q\<lparr>fileDescriptorsUsed := k\<rparr>) w = Inr (Inr u, q', w')"
      using assms(2) obj by (auto simp: ensureOpened_def outcome_simps reserve_loop_eq split: if_splits)
    then obtain fd where "myOpen os (qfd_path obj) (qfd_oflag obj) (qfd_mode obj) w = (Inr fd, w')"
      "q' = q\<lparr>fileDescriptorsUsed := k, fds := (fds q)(d \<mapsto> obj\<lparr>qfd_fd := fd\<rparr>)\<rparr>"
      using obj by (auto simp: doOpen_def effect_simps)
    then show ?thesis using myOpen_data [OF assms(1)] obj True unfolding fd_opened_def by fastforce
  qed
qed


lemma ids_apart:
  assumes "files_apart J" "f \<in> set J" "g \<in> set J" "2 \<le> cf_id f" "2 \<le> cf_id g" "i = 1 \<or> i = 2" "j = 1 \<or> j = 2"
    and "cf_id g - i = cf_id f - j"
  shows "g = f \<and> i = j"
proof (cases "g = f")
  case True
  then show ?thesis using assms(4-8) by auto
next
  case False
  then have "cf_id f + 3 \<le> cf_id g \<or> cf_id g + 3 \<le> cf_id f" using assms(1-3) unfolding files_apart_def by metis
  then show ?thesis using assms(4-8) by auto
qed

lemma belongs_fds: "belongs f t \<Longrightarrow> sourceFd t = cf_id f - 2 \<and> destFd t = cf_id f - 1"
  by (auto simp: belongs_def)

text \<open>A runner that has not written yet does not depend on the destination.\<close>

lemma copying_dst:
  assumes "copying q rng K f r t v" "runners q r = Some t" "runners q' r = Some t" "jobsRunning t = 0" "writeOffset t = cr_offset t"
    and "bytes K' = bytes K" "src_bytes K' f = src_bytes K f" "taken K' = taken K"
  shows "copying q' rng K' f r t v"
proof -
  obtain sfd dfd where x: "xinv (src_bytes K f) r sfd dfd t (xview q rng K f r v)" using assms(1) by (auto simp: copying_def)
  have rt: "runners (xq (xview q rng K f r v)) r = Some t" using assms(2) by (simp add: xview_def)
  note n = xinv_now [OF x rt]
  have "inflight (xview q rng K f r v) = []" "completions (xview q rng K f r v) = []"
    using n(3) assms(4) by (auto simp: xshape_def)
  then have fl: "flight_by r (all_chains rng K) = []" "done_by r rng = []" by (simp_all add: xview_def)
  have all: "all_chains rng K' = all_chains rng K" using assms(8) by (simp add: all_chains_def)
  have "xinv (src_bytes K f) r sfd dfd t (xview q' rng K' f r v)"
  proof (rule xinvI [of _ _ t])
    show "savedError t = None \<longrightarrow> xdata (src_bytes K f) r t (xview q' rng K' f r v)"
      using n(5) assms(5,6) fl by (auto simp: xdata_def xview_def all dst_holds_def)
  qed (use n assms(3) fl in \<open>simp_all add: xview_def all xshape_def xverdict_def\<close>)
  then show ?thesis using assms(1,4,5,7) by (auto simp: copying_def)
qed

lemma data_inv_opened:
  assumes D: "data_inv J mp X q rng K" and o: "fd_opened d q K q' K'" and f: "f \<in> set J"
    and d: "d = cf_id f - 2 \<or> d = cf_id f - 1"
    and q': "runners q' = runners q" "next_object q' = next_object q" "copyBufferHeap q' = copyBufferHeap q" "heap_wf (copyBufferHeap q)"
  shows "data_inv J mp X q' rng K'"
proof -
  note D' = data_invD [OF D]
  obtain obj fd where obj: "fds q d = Some obj" "qfd_fd obj = NEVER_OPENED_VAL" "2 < fd" "descs K fd = None"
    and fq: "fds q' = (fds q)(d \<mapsto> obj\<lparr>qfd_fd := fd\<rparr>)" and K': "K' = opened (c_str (qfd_path obj)) (qfd_oflag obj) fd K"
    using o unfolding fd_opened_def by blast
  have two: "2 \<le> cf_id g" if "g \<in> set J" for g using D'(1) [OF that] by (simp add: file_shape_def)
  note apart = ids_apart [OF D'(4)]
  define p where "p = (if d = cf_id f - 2 then cf_src f else cf_dst f)"
  have ne: "cf_id f - 2 \<noteq> cf_id f - 1" using two [OF f] by simp
  have ok: "desc_ok (descs K) p (d \<noteq> cf_id f - 2) obj"
    using D'(2) [OF f] d obj(1) ne by (auto simp: file_inv_def p_def)
  then have Kd: "descs K' = (descs K)(fd \<mapsto> p)" and Kf: "files K' = (if d = cf_id f - 2 then files K else (files K)(cf_dst f := Map.empty))"
    and Kb: "bytes K' = bytes K" "taken K' = taken K"
    unfolding K' by (auto simp: opened_def desc_ok_def p_def)
  have src: "files K' (cf_src g) = files K (cf_src g)" if "g \<in> set J" for g
    using D'(4) that f unfolding Kf by (simp add: files_apart_def)
  have dst: "files K' (cf_dst g) = files K (cf_dst g)" if "g \<in> set J" "g \<noteq> f \<or> d = cf_id f - 2" for g
    using D'(4) that f unfolding Kf by (auto simp: files_apart_def)
  have other: "descs K' x = descs K x" if "descs K x \<noteq> None" for x using that obj(4) unfolding Kd by auto
  have inj: "descs K (qfd_fd x) \<noteq> None" if "fds q e = Some x" "qfd_fd x \<noteq> NEVER_OPENED_VAL" for e x
    using D'(5) that unfolding fds_inj_def by blast
  have fdn: "fd \<noteq> NEVER_OPENED_VAL" using obj(3) by (simp add: NEVER_OPENED_VAL_def)
  have fresh: "qfd_fd x \<noteq> fd" if "fds q e = Some x" for e x using inj [OF that] obj(4) fdn by auto
  have keep: "desc_ok (descs K') p' b x" if "desc_ok (descs K) p' b x" for p' b x
    using that other by (auto simp: desc_ok_def)
  show ?thesis
  proof (rule data_invI)
    show "files_apart J" "parts_apart (runners q') mp" "adding_inv J mp" using D'(4,7,8) q'(1) by simp_all
    show "chains_inv rng K'" using D'(6) Kb by (simp add: chains_inv_def all_chains_def)
    show "fds_inj (descs K') (fds q')"
      unfolding fds_inj_def
    proof (intro conjI allI impI)
      fix e x assume "fds q' e = Some x"
      then show "qfd_fd x = NEVER_OPENED_VAL \<or> descs K' (qfd_fd x) \<noteq> None"
        using inj other fq Kd by (cases "e = d") fastforce+
    next
      fix e e' x x'
      assume a: "fds q' e = Some x \<and> fds q' e' = Some x' \<and> qfd_fd x = qfd_fd x' \<and> qfd_fd x \<noteq> NEVER_OPENED_VAL"
      then show "e = e'"
      proof (cases "e = d \<or> e' = d")
        case True
        then show ?thesis using a fq by (auto dest: fresh split: if_splits)
      next
        case False
        then show ?thesis using a fq D'(5) unfolding fds_inj_def by (metis fun_upd_other)
      qed
    qed
    fix g assume g: "g \<in> set J"
    have "file_shape q' g" by (rule file_shape_slab [OF D'(1) [OF g]]) (use q' in simp_all)
    moreover have td: "tidy K' g" if "tidy K g \<or> g = f \<and> d \<noteq> cf_id f - 2"
      using that dst [OF g] unfolding tidy_def Kf by (cases "g \<noteq> f \<or> d = cf_id f - 2") auto
    have "file_inv (fds q') K' g"
      unfolding file_inv_def
    proof (intro conjI allI impI)
      show "files K' (cf_src g) = cf_data g" using src [OF g] D'(2) [OF g] by (simp add: file_inv_def)
      show "(cf_data g i \<noteq> None) = (i < cf_size g)" for i using D'(2) [OF g] by (simp add: file_inv_def)
    next
      fix x assume x: "fds q' (cf_id g - 2) = Some x"
      show "desc_ok (descs K') (cf_src g) False x"
      proof (cases "cf_id g - 2 = d")
        case True
        then have "g = f \<and> d = cf_id f - 2" using d apart [OF f g two [OF f] two [OF g], of 2] by auto
        then show ?thesis using x True fq ok obj(3) Kd by (auto simp: desc_ok_def p_def)
      next
        case False
        then show ?thesis using x fq keep D'(2) [OF g] by (simp add: file_inv_def)
      qed
    next
      fix x assume x: "fds q' (cf_id g - 1) = Some x"
      have "desc_ok (descs K') (cf_dst g) True x \<and> (qfd_fd x \<noteq> NEVER_OPENED_VAL \<longrightarrow> tidy K' g)"
      proof (cases "cf_id g - 1 = d")
        case True
        then have gf: "g = f \<and> d = cf_id f - 1" using d apart [OF f g two [OF f] two [OF g], of 1] by auto
        then show ?thesis using x True fq ok obj(3) Kd ne td by (auto simp: desc_ok_def p_def)
      next
        case False
        then show ?thesis using x fq keep td D'(2) [OF g] by (simp add: file_inv_def)
      qed
      then show "desc_ok (descs K') (cf_dst g) True x" "qfd_fd x \<noteq> NEVER_OPENED_VAL \<Longrightarrow> tidy K' g" by blast+
    qed
    ultimately show "file_shape q' g \<and> file_inv (fds q') K' g" by simp
    fix c assume c: "c \<in> set (cf_chunks g)"
    have "chunk_done (fds q') K' g c" if "chunk_done (fds q) K g c"
    proof -
      have op: "dst_open (fds q) g" "tidy K g" using that by (simp_all add: chunk_done_def)
      then have "cf_id g - 1 \<noteq> d" using obj(1,2) by (auto simp: dst_open_def)
      then have "g \<noteq> f \<or> d = cf_id f - 2" "dst_open (fds q') g" using d op(1) fq by (auto simp: dst_open_def)
      then show ?thesis using that dst [OF g] src [OF g] td op(2) by (simp add: chunk_done_def)
    qed
    then show "chunk_inv mp q' K' g c" using D'(3) [OF g c] q'(1) by (auto simp: chunk_inv_def)
  next
    fix r t assume r: "runners q' r = Some t" "r \<notin> X"
    then have rq: "runners q r = Some t" using q'(1) by simp
    obtain g where g: "g \<in> set J" "runner_inv q rng K g r t" using data_inv_runner [OF D rq r(2)] .
    have sb: "src_bytes K' g = src_bytes K g" using src [OF g(1)] by (simp add: src_bytes_def)
    show "\<exists>g \<in> set J. runner_inv q' rng K' g r t"
    proof (cases "cr_size t = 0 \<or> buffer t = 0")
      case True
      then show ?thesis using g by (auto simp: runner_inv_def)
    next
      case busy: False
      have b: "belongs g t" "copying q rng K g r t (status t)" using g(2) busy by (simp_all add: runner_inv_def)
      have rd: "fd_ready q e x \<longrightarrow> fd_ready q' e x" for e x
        using obj(1,2) fq by (auto simp: fd_ready_def NEVER_OPENED_VAL_def)
      have "copying q' rng K' g r t (status t)"
      proof (cases "g = f \<and> d \<noteq> cf_id f - 2")
        case True
        then have "d = cf_id g - 1" using d by simp
        then have "\<not> dst_open (fds q) g" "\<not> fd_ready q (destFd t) x" for x
          using obj(1,2) belongs_fds [OF b(1)] by (auto simp: dst_open_def fd_ready_def NEVER_OPENED_VAL_def)
        then have "jobsRunning t = 0" "writeOffset t = cr_offset t" using b(2) by (auto simp: copying_def)
        then show ?thesis using copying_dst [OF b(2) rq r(1) _ _ Kb(1) sb Kb(2)] by simp
      next
        case False
        have "dst_open (fds q) g \<Longrightarrow> dst_open (fds q') g" using fq fdn by (auto simp: dst_open_def)
        then show ?thesis
          using copying_others [OF b(2) rq r(1) sb, of rng] Kb dst [OF g(1)] False rd by (auto simp: all_chains_def)
      qed
      then show ?thesis using g(1) b(1) busy by (auto simp: runner_inv_def)
    qed
  qed
qed


section \<open>Closing files and deleting a runner\<close>

lemma data_inv_retired:
  assumes D: "data_inv J mp {r} q rng K" and t: "runners q r = Some t" "f \<in> set J" "belongs f t"
    and finished: "tidy K f" "dst_open (fds q) f" "\<forall>i \<in> chunk_area t. files K (cf_dst f) i = files K (cf_src f) i"
    and q': "runners q' = (runners q)(r := None)" "next_object q' = next_object q"
      "same_slab (copyBufferHeap q) (copyBufferHeap q')" "heap_wf (copyBufferHeap q')"
    and fd: "\<And>d x. fds q' d = Some x \<Longrightarrow> fds q d = Some x \<and> (qfd_fd x \<noteq> NEVER_OPENED_VAL \<longrightarrow> descs K' (qfd_fd x) = descs K (qfd_fd x))"
      "\<And>x y. runners q' x = Some y \<Longrightarrow> fds q' (sourceFd y) = fds q (sourceFd y) \<and> fds q' (destFd y) = fds q (destFd y)"
    and K': "bytes K' = bytes K" "files K' = files K" "taken K' = taken K"
  shows "data_inv J mp {} q' rng K'"
proof (rule data_invI)
  note D' = data_invD [OF D]
  show "files_apart J" "adding_inv J mp" using D'(4,8) by simp_all
  show "chains_inv rng K'" using D'(6) K'(3) by (simp add: chains_inv_def all_chains_def)
  show "fds_inj (descs K') (fds q')" using D'(5) fd(1) unfolding fds_inj_def by metis
  show "parts_apart (runners q') mp" using D'(7) unfolding parts_apart_def q'(1) by (auto split: if_splits)
  have op: "dst_open (fds q') g" if "dst_open (fds q) g" for g using that fd(1) by (auto simp: dst_open_def)
  have dn: "chunk_done (fds q') K' g c" if "chunk_done (fds q) K g c" for g c
    using that op [of g] K'(2) by (simp add: chunk_done_def tidy_def)
  fix g assume g: "g \<in> set J"
  have "file_inv (fds q') K' g" using D'(2) [OF g] fd(1) K'(2) by (fastforce simp: file_inv_def desc_ok_def tidy_def)
  then show "file_shape q' g \<and> file_inv (fds q') K' g" using file_shape_slab [OF D'(1) [OF g] q'(3,4)] q'(2) by simp
  fix c assume c: "c \<in> set (cf_chunks g)"
  consider (todo) "map_prod int int c \<in> set (todo_of mp (cf_id g))"
    | (live) x y where "runners q x = Some y" "chunksRemaining y = cf_id g" "(cr_offset y, cr_size y) = map_prod int int c"
    | (finished) "chunk_done (fds q) K g c" using D'(3) [OF g c] unfolding chunk_inv_def by blast
  then show "chunk_inv mp q' K' g c"
  proof cases
    case todo
    then show ?thesis by (simp add: chunk_inv_def)
  next
    case finished
    then show ?thesis using dn by (simp add: chunk_inv_def)
  next
    case live
    show ?thesis
    proof (cases "x = r")
      case True
      then have y: "y = t" using live(1) t(1) by simp
      have "g = f"
      proof (rule ccontr)
        assume "g \<noteq> f"
        then have "cf_id g \<noteq> cf_id f" using D'(4) g t(2) unfolding files_apart_def by fastforce
        then show False using live(2) y t(3) by (simp add: belongs_def)
      qed
      moreover have "chunk_area t = chunk_set c" using chunk_area_set live(3) y by simp
      ultimately have "chunk_done (fds q) K g c" using finished by (simp add: chunk_done_def)
      then show ?thesis using dn by (simp add: chunk_inv_def)
    next
      case False
      then have "runners q' x = Some y" using live(1) q'(1) by simp
      then show ?thesis using live(2,3) unfolding chunk_inv_def by blast
    qed
  qed
next
  fix x y assume x: "runners q' x = Some y" "x \<notin> {}"
  then have xq: "runners q x = Some y" "x \<noteq> r" using q'(1) by (auto split: if_splits)
  obtain g where g: "g \<in> set J" "runner_inv q rng K g x y" using data_inv_runner [OF D xq(1)] xq(2) by auto
  have rd: "\<forall>d \<in> {sourceFd y, destFd y}. \<forall>fd. fd_ready q d fd \<longrightarrow> fd_ready q' d fd" using fd(2) [OF x(1)] by (simp add: fd_ready_def)
  have "dst_open (fds q) g \<Longrightarrow> dst_open (fds q') g" using fd(1) by (auto simp: dst_open_def)
  then have "runner_inv q' rng K' g x y"
    using g(2) copying_others [of q rng K g x y "status y" q' K' rng, OF _ xq(1) x(1)] K' rd
    by (auto simp: runner_inv_def src_bytes_def all_chains_def)
  then show "\<exists>g \<in> set J. runner_inv q' rng K' g x y" using g(1) by blast
qed

text \<open>The files of a job are closed when its last runner ends.\<close>

lemma close_if_open_data:
  assumes "os_data view os" "close_if_open nd os d (res, q, w) = Inr (res', q', w')" "fds q d = Some obj"
  shows "(\<forall>e. e \<noteq> d \<longrightarrow> fds q' e = fds q e) \<and>
    (\<exists>ds. view w' = (view w)\<lparr>descs := ds\<rparr> \<and> (\<forall>x. x \<noteq> qfd_fd obj \<longrightarrow> ds x = descs (view w) x))"
proof (cases "isOpen obj")
  case False
  then have "q' = q" "w' = w" using assms(2,3) by (auto simp: close_if_open_def effect_simps)
  then show ?thesis by (intro conjI exI [of _ "descs (view w)"]) simp_all
next
  case True
  then obtain tmp where "myClose os (qfd_fd obj) w = (tmp, w')" "q' = q\<lparr>fds := (fds q)(d \<mapsto> obj\<lparr>qfd_fd := CLOSED_VAL\<rparr>),
      fileDescriptorsUsed := fileDescriptorsUsed q - 1\<rparr>"
    using assms(2,3) by (auto simp: close_if_open_def effect_simps notifyClosed_def getFd_def Let_def)
  moreover obtain ret err w1 where c: "os_close os (qfd_fd obj) w = (ret, err, w1)" by (metis prod_cases3)
  ultimately have "w' = w1" "\<forall>e. e \<noteq> d \<longrightarrow> fds q' e = fds q e" by (auto simp: myClose_def split: if_splits)
  moreover obtain x where "view w1 = (view w)\<lparr>descs := (descs (view w))(qfd_fd obj := x)\<rparr>" by (rule os_data_close [OF assms(1) c])
  ultimately show ?thesis by (intro conjI exI [of _ "(descs (view w))(qfd_fd obj := x)"]) simp_all
qed

lemma handleFileClose_data:
  assumes "os_data view os" "handleFileClose nd os r q w = Inr (res, q', w')" "runners q r = Some t"
    and "counters q (chunksRemaining t) = Some k" "sourceFd t \<noteq> destFd t"
  shows "if k = 1 then (\<forall>e. e \<noteq> sourceFd t \<longrightarrow> e \<noteq> destFd t \<longrightarrow> fds q' e = fds q e) \<and>
      (\<exists>ds. view w' = (view w)\<lparr>descs := ds\<rparr> \<and>
        (\<forall>x. (\<forall>e obj. e \<in> {sourceFd t, destFd t} \<longrightarrow> fds q e = Some obj \<longrightarrow> qfd_fd obj \<noteq> x) \<longrightarrow> ds x = descs (view w) x))
    else q' = q \<and> w' = w"
proof (cases "k = 1")
  case False
  then show ?thesis using assms(2-4) by (auto simp: handleFileClose_def effect_simps)
next
  case True
  then obtain res1 q1 w1 where c: "close_if_open nd os (sourceFd t) (Success, q, w) = Inr (res1, q1, w1)"
    "close_if_open nd os (destFd t) (res1, q1, w1) = Inr (res, q', w')"
    using assms(2-4) by (auto simp: handleFileClose_def effect_simps)
  obtain so where so: "fds q (sourceFd t) = Some so" using c(1) by (auto simp: close_if_open_def effect_simps)
  obtain d where d: "fds q1 (destFd t) = Some d" using c(2) by (auto simp: close_if_open_def effect_simps)
  note c1 = close_if_open_data [OF assms(1) c(1) so] and c2 = close_if_open_data [OF assms(1) c(2) d]
  have dq: "fds q (destFd t) = Some d" using c1 d assms(5) by simp
  obtain ds1 where ds1: "view w1 = (view w)\<lparr>descs := ds1\<rparr>" "\<forall>x. x \<noteq> qfd_fd so \<longrightarrow> ds1 x = descs (view w) x" using c1 by blast
  obtain ds2 where ds2: "view w' = (view w1)\<lparr>descs := ds2\<rparr>" "\<forall>x. x \<noteq> qfd_fd d \<longrightarrow> ds2 x = descs (view w1) x" using c2 by blast
  have "view w' = (view w)\<lparr>descs := ds2\<rparr>" using ds1(1) ds2(1) by simp
  moreover have "ds2 x = descs (view w) x" if "x \<noteq> qfd_fd so" "x \<noteq> qfd_fd d" for x using that ds1 ds2 by simp
  moreover have "qfd_fd so \<noteq> x \<and> qfd_fd d \<noteq> x"
    if "\<forall>e obj. e \<in> {sourceFd t, destFd t} \<longrightarrow> fds q e = Some obj \<longrightarrow> qfd_fd obj \<noteq> x" for x using that so dq by blast
  ultimately have "\<exists>ds. view w' = (view w)\<lparr>descs := ds\<rparr> \<and>
      (\<forall>x. (\<forall>e obj. e \<in> {sourceFd t, destFd t} \<longrightarrow> fds q e = Some obj \<longrightarrow> qfd_fd obj \<noteq> x) \<longrightarrow> ds x = descs (view w) x)"
    by metis
  then show ?thesis using True c1 c2 by simp
qed


lemma deleted_slab:
  assumes "deleted nd r t q q'" "queue_inv n m todo W L nb M q" "runners q r = Some t"
  shows "same_slab (copyBufferHeap q) (copyBufferHeap q')" "heap_wf (copyBufferHeap q')"
proof -
  have wf: "heap_wf (copyBufferHeap q)" using assms(2) by (simp add: queue_inv_def heap_inv_def)
  have "same_slab (copyBufferHeap q) (copyBufferHeap q') \<and> heap_wf (copyBufferHeap q')"
  proof (cases "buffer t = 0")
    case True
    then show ?thesis using assms(1) wf by (simp add: deleted_def)
  next
    case False
    obtain h where "returnBlock nd (buffer t) (copyBufferHeap q) = Inr h" "heap_wf h" "same_slab (copyBufferHeap q) h"
      using returnBlock_held [OF wf queue_inv_runner(6) [OF assms(2,3) False], of nd] by blast
    then show ?thesis using False assms(1) by (simp add: deleted_def)
  qed
  then show "same_slab (copyBufferHeap q) (copyBufferHeap q')" "heap_wf (copyBufferHeap q')" by simp_all
qed

lemma last_of_job:
  assumes "queue_inv n m todo W L nb M q" "runners q r = Some t" "counters q (chunksRemaining t) = Some 1"
    and "runners q x = Some y" "x \<noteq> r"
  shows "chunksRemaining y \<noteq> chunksRemaining t"
proof
  assume eq: "chunksRemaining y = chunksRemaining t"
  have obj: "obj_inv todo (next_object q) (dom (fds q)) (counters q) (runners q)" using assms(1) by (simp add: queue_inv_def)
  then have "finite (dom (runners q))" by (simp add: obj_inv_def)
  then have fin: "finite (of_job (runners q) (chunksRemaining t))" by (rule of_job_finite)
  have "{r, x} \<subseteq> of_job (runners q) (chunksRemaining t)" using assms(2,4) eq by (auto simp: of_job_def)
  then have "card {r, x} \<le> card (of_job (runners q) (chunksRemaining t))" using fin by (rule card_mono [rotated])
  moreover have "(1 :: int) = int (card (of_job (runners q) (chunksRemaining t)) + todo (chunksRemaining t))"
    using obj assms(3) unfolding obj_inv_def by blast
  ultimately show False using assms(5) by simp
qed

lemma retire_data:
  assumes os: "os_data view os" and D: "data_inv J mp {r} q rng (view w)" and Q: "queue_inv n m todo W L nb M q"
    and t: "runners q r = Some t" "f \<in> set J" "belongs f t"
    and finished: "tidy (view w) f" "dst_open (fds q) f"
      "\<forall>i \<in> chunk_area t. files (view w) (cf_dst f) i = files (view w) (cf_src f) i"
    and ops: "handleFileClose nd os r q w = Inr (res, q1, w1)" "quiet q1 q2" "fds q2 = fds q1" "CopyRunner_delete nd r q2 = Inr q'"
  shows "data_inv J mp {} q' rng (view w1)"
proof -
  have qq: "quiet q q2" using handleFileClose_quiet [OF ops(1)] ops(2) by (rule quiet_trans)
  have t2: "runners q2 r = Some t" using qq t(1) by (simp add: quiet_def)
  note del = CopyRunner_delete_effect [OF ops(4) t2]
  have Q2: "queue_inv n m todo W L nb M q2" using Q qq by (rule queue_inv_quiet)
  obtain k where k: "counters q (chunksRemaining t) = Some k"
    and fds': "if k = 1 then fds q' = (fds q1)(sourceFd t := None, destFd t := None) else fds q' = fds q1"
    using del qq ops(3) by (auto simp: deleted_def quiet_def calm_def split: if_splits)
  have ne: "sourceFd t \<noteq> destFd t" using t(3) by (auto simp: belongs_def)
  note close = handleFileClose_data [OF os ops(1) t(1) k ne]
  note D' = data_invD [OF D]
  have two: "2 \<le> cf_id g" if "g \<in> set J" for g using D'(1) [OF that] by (simp add: file_shape_def)
  show ?thesis
  proof (rule data_inv_retired [OF D t finished])
    show "runners q' = (runners q)(r := None)" "next_object q' = next_object q" using del qq by (simp_all add: deleted_def quiet_def calm_def)
    have "copyBufferHeap q2 = copyBufferHeap q" using qq by (simp add: quiet_def calm_def)
    then show "same_slab (copyBufferHeap q) (copyBufferHeap q')" "heap_wf (copyBufferHeap q')" using deleted_slab [OF del Q2 t2] by simp_all
    show "bytes (view w1) = bytes (view w)" "files (view w1) = files (view w)" "taken (view w1) = taken (view w)"
      using close by (cases "k = 1"; auto)+
  next
    fix d x assume x: "fds q' d = Some x"
    show "fds q d = Some x \<and> (qfd_fd x \<noteq> NEVER_OPENED_VAL \<longrightarrow> descs (view w1) (qfd_fd x) = descs (view w) (qfd_fd x))"
    proof (cases "k = 1")
      case False
      then show ?thesis using close fds' x by simp
    next
      case True
      then have d: "d \<noteq> sourceFd t" "d \<noteq> destFd t" "fds q1 d = Some x" using fds' x by (auto split: if_splits)
      then have dq: "fds q d = Some x" using close True by simp
      obtain ds where ds: "view w1 = (view w)\<lparr>descs := ds\<rparr>"
        "\<And>x. (\<forall>e obj. e \<in> {sourceFd t, destFd t} \<longrightarrow> fds q e = Some obj \<longrightarrow> qfd_fd obj \<noteq> x) \<Longrightarrow> ds x = descs (view w) x"
        using close True by auto
      have "ds (qfd_fd x) = descs (view w) (qfd_fd x)" if "qfd_fd x \<noteq> NEVER_OPENED_VAL"
      proof (rule ds(2), intro allI impI notI)
        fix e obj assume e: "e \<in> {sourceFd t, destFd t}" "fds q e = Some obj" "qfd_fd obj = qfd_fd x"
        then have "e = d" using D'(5) dq that unfolding fds_inj_def by metis
        then show False using e(1) d by auto
      qed
      then show ?thesis using dq ds(1) by simp
    qed
  next
    fix x y assume x: "runners q' x = Some y"
    have xq: "runners q x = Some y" "x \<noteq> r" using x del qq by (auto simp: deleted_def quiet_def split: if_splits)
    show "fds q' (sourceFd y) = fds q (sourceFd y) \<and> fds q' (destFd y) = fds q (destFd y)"
    proof (cases "k = 1")
      case False
      then show ?thesis using close fds' by simp
    next
      case True
      obtain g where "g \<in> set J" "runner_inv q rng (view w) g x y" by (rule data_inv_runner [OF D xq(1)]) (use xq(2) in auto)
      then have g: "g \<in> set J" "belongs g y" by (simp_all add: runner_inv_belongs)
      have "chunksRemaining y \<noteq> chunksRemaining t" using last_of_job [OF Q t(1) _ xq] k True by simp
      then have gf: "g \<noteq> f" using g(2) t(3) by (auto simp: belongs_def)
      note apart = ids_apart [OF D'(4) t(2) g(1) two [OF t(2)] two [OF g(1)]]
      have "sourceFd y \<notin> {sourceFd t, destFd t}" "destFd y \<notin> {sourceFd t, destFd t}"
        using belongs_fds [OF g(2)] belongs_fds [OF t(3)] gf apart [of 2 2] apart [of 2 1] apart [of 1 2] apart [of 1 1] by auto
      then show ?thesis using close fds' True by simp
    qed
  qed
qed

end
