(* ===== verification/Copy_Turns.thy ===== *)
theory Copy_Turns
  imports Copy_Open
begin

text \<open>
  The turns of the loops of \<open>submitLoop\<close> keep the invariant of the data: giving a batch to the kernel,
  taking a completion, choosing a runner and adding its requests to the batch.
\<close>

section \<open>The invariant of the whole system\<close>

text \<open>A runner that waits to be continued has its block.\<close>

definition buffered :: "CopyQueue \<Rightarrow> nat list \<Rightarrow> bool" where
  "buffered q L \<longleftrightarrow> (\<forall>r \<in> set L. \<forall>t. runners q r = Some t \<longrightarrow> buffer t \<noteq> 0)"

definition data_ok :: "('w \<Rightarrow> 'b kern) \<Rightarrow> 'b copy_file list \<Rightarrow> main_pc \<Rightarrow> 'w submitter \<Rightarrow> bool" where
  "data_ok view J mp s \<longleftrightarrow> doomed (queue s) \<or>
     data_inv J mp {} (queue s) (ring (queue s)) (view (world s)) \<and> buffered (queue s) (copiesPendingContinue s)"

abbreviation flying :: "('w \<Rightarrow> 'b kern) \<Rightarrow> 'w \<Rightarrow> io_uring_sqe multiset" where
  "flying view \<equiv> \<lambda>w. flight_of (view w)"

text \<open>The invariant looks at four fields of the queue.\<close>

lemma data_inv_cong:
  assumes "runners q' = runners q" "fds q' = fds q" "next_object q' = next_object q" "copyBufferHeap q' = copyBufferHeap q"
  shows "data_inv J mp X q' rng K = data_inv J mp X q rng K"
proof -
  have s: "file_shape q' f = file_shape q f" for f
    using assms(3,4) by (simp add: file_shape_def block_serves_def chunk_size_def getHeapAlignment_def getBlockSize_def)
  have "xinv src r sfd dfd t (xview q' rng K f r v) = xinv src r sfd dfd t (xview q rng K f r v)" for src r sfd dfd t f v
    unfolding xview_def by (rule xinv_cong) (simp add: assms(1))
  then have "copying q' rng K f r t v = copying q rng K f r t v" for f r t v
    using assms(2) by (simp add: copying_def fd_ready_def)
  then show ?thesis using assms(1,2) by (simp add: data_inv_def s runner_inv_def chunk_inv_def)
qed

lemma data_inv_put_ring [simp]: "data_inv J mp X (q\<lparr>ring := x\<rparr>) rng K = data_inv J mp X q rng K"
  by (rule data_inv_cong) simp_all

lemma doomed_put_ring [simp]: "doomed (q\<lparr>ring := x\<rparr>) = doomed q"
  by (simp add: doomed_def)

section \<open>The kernel and the system call\<close>

text \<open>What the kernel needs to know of the queue while it runs.\<close>

definition kern_ok :: "nat \<Rightarrow> nat \<Rightarrow> 'b copy_file list \<Rightarrow> main_pc \<Rightarrow> CopyQueue \<Rightarrow> nat \<Rightarrow> io_uring \<times> 'b kern \<Rightarrow> bool" where
  "kern_ok n m J mp q k = (\<lambda>(rng, K). ring_ok n m (runners q) k (rng, flight_of K) \<and> (doomed q \<or> data_inv J mp {} q rng K))"

lemma small_runners: "queue_inv n m todo W L nb M q \<Longrightarrow> \<forall>r \<in> dom (runners q). r < 2 ^ 62"
  using queue_inv_runner(1) by fastforce

lemma data_kernel_ok:
  assumes "data_kernel x y" "kern_ok n m J mp q k x" "queue_inv n m todo W L nb M q"
  shows "kern_ok n m J mp q k y"
proof -
  obtain rng K rng' K' where xy: "x = (rng, K)" "y = (rng', K')" by fastforce
  have ok: "ring_ok n m (runners q) k (rng, flight_of K)" using assms(2) xy(1) by (simp add: kern_ok_def)
  have "heap_inv nb (copyBufferHeap q) (buffers (runners q))" using assms(3) by (simp add: queue_inv_def)
  note inv = data_kernel_inv [OF _ _ ok this small_runners [OF assms(3)], of rng' K' J mp]
  have "kernel_run (rng, flight_of K) (rng', flight_of K')" using data_kernel_run [OF assms(1)] xy by simp
  then show ?thesis using kernel_run_ok [OF _ ok] inv assms(1,2) xy by (auto simp: kern_ok_def)
qed

lemma data_kernels_ok:
  assumes "data_kernel\<^sup>*\<^sup>* x y" "kern_ok n m J mp q k x" "queue_inv n m todo W L nb M q"
  shows "kern_ok n m J mp q k y"
  using assms(1,2) by (induction rule: rtranclp_induct) (auto dest: data_kernel_ok [OF _ _ assms(3)])

lemma flush_data:
  assumes "io_uring_flush_sq rng = (rng', c)" "kern_ok n m J mp q k (rng, K)"
  shows "kern_ok n m J mp q k (rng', K)"
proof -
  have ok: "ring_ok n m (runners q) k (rng, flight_of K)" using assms(2) by (simp add: kern_ok_def)
  then have sq: "sq_inv n (ring_sq rng)" by (simp add: ring_ok_def ring_inv_def)
  obtain sq' r' where fl: "io_uring_flush_sq_sq (ring_sq rng) = (sq', r')" by fastforce
  have rng': "rng' = rng\<lparr>ring_sq := sq'\<rparr>" using assms(1) fl by (simp add: io_uring_flush_sq_def)
  note p = flush_publishes [OF sq fl]
  have "data_inv J mp {} q rng' K" if D: "data_inv J mp {} q rng K"
    by (rule data_inv_ring [OF D]) (use data_invD(6) [OF D] p in \<open>simp_all add: rng' all_chains_def done_by_def chains_inv_def\<close>)
  then show ?thesis using assms(2) flush_ok [OF assms(1) ok] by (auto simp: kern_ok_def)
qed

lemma submit_data:
  assumes "enter_data view enter" "queue_inv n m todo W L nb M q" "kern_ok n m J mp q k (rng, view w)"
    and "io_uring_submit enter rng w = (ret, rng', w')"
  shows "kern_ok n m J mp q k (rng', view w')"
  using assms(4)
proof (cases rule: submit_cases)
  case same
  then show ?thesis using flush_data [OF same(1) assms(3)] by simp
next
  case (enter rng1 c a b f ret' err)
  then have "data_kernel\<^sup>*\<^sup>* (rng1, view w) (rng', view w')" using assms(1) unfolding enter_data_def by metis
  then show ?thesis using data_kernels_ok [OF _ flush_data [OF enter(1) assms(3)] assms(2)] by blast
qed

lemma submit_batch_data:
  assumes "enter_data view enter" "sub_inv n m (flying view) todo [] s" "data_ok view J mp s" "submit_batch enter s = Inr s'"
  shows "data_ok view J mp s'"
proof (cases "runnersAdded s = 0")
  case True
  then show ?thesis using assms by (simp add: submit_batch_def)
next
  case False
  let ?q = "queue s" let ?M = "outstanding (ring ?q) (flight_of (view (world s)))"
  have Q: "queue_inv n m todo [] (copiesPendingContinue s) (nextBuffer s) ?M ?q" using assms(2) by (simp add: sub_inv_def Let_def)
  obtain ret rng w where r: "submit_retry enter (ring ?q) (world s) = Some (ret, rng, w)"
    "s' = s\<lparr>queue := ?q\<lparr>ring := rng\<rparr>, world := w\<rparr>"
    using assms(4) False by (auto simp: submit_batch_def effect_simps)
  have "kern_ok n m J mp ?q (size ?M) (ring ?q, view (world s))"
    using Q assms(3) by (auto simp: kern_ok_def ring_ok_def data_ok_def queue_inv_def)
  then have "kern_ok n m J mp ?q (size ?M) (rng, view w)"
    using submit_retry_preserves [OF r(1), where P = "\<lambda>rng w. kern_ok n m J mp ?q (size ?M) (rng, view w)"]
      submit_data [OF assms(1) Q] by blast
  then show ?thesis using r(2) assms(3) by (auto simp: kern_ok_def data_ok_def buffered_def)
qed

section \<open>Completions\<close>

lemma advance_read_saved: "advance_read k t = Inr t' \<Longrightarrow> savedError t' = savedError t"
  using advance_read_effect [of k t t'] by auto

lemma runner_after_saved: "runner_after ty res t t' \<Longrightarrow> savedError t' = None \<Longrightarrow>
    savedError t = None \<and> (ty = Read \<longrightarrow> 0 < res) \<and> (ty = Write \<longrightarrow> res = - ECANCELED \<or> 0 \<le> res)"
  by (cases ty) (auto simp: runner_after_def split: if_splits dest: advance_read_saved)

text \<open>A completion without an error touches the runner only.\<close>

lemma onCompletionEvent_clean:
  assumes "onCompletionEvent cfg os r ty res q w = Inr (v, q', w')" "runners q r = Some t" "\<not> DEBUG_FORCE_PARTIAL_READS cfg"
    and "runners q' r = Some t'" "savedError t' = None"
  shows "fds q' = fds q \<and> w' = w \<and> savedError t = None"
proof -
  let ?t = "t\<lparr>jobsRunning := jobsRunning t - 1\<rparr>"
  have "runner_after ty res ?t t'" using onCompletionEvent_runner [OF assms(1-3)] assms(4) by auto
  from runner_after_saved [OF this assms(5)]
  have a: "savedError t = None" "ty = Read \<Longrightarrow> 0 < res" "ty = Write \<Longrightarrow> res = - ECANCELED \<or> 0 \<le> res" by simp_all
  have ov: "override_result cfg ty res ?t = (res, ?t)" using assms(3) by (simp add: override_result_def Let_def)
  have "fds q' = fds q \<and> w' = w"
  proof (cases ty)
    case Read
    then have "res \<noteq> 0" "\<not> res < 0" using a(2) by simp_all
    then show ?thesis using assms(1,2) a(1) ov Read by (auto simp: onCompletionEvent_def on_read_def effect_simps Let_def)
  next
    case Write
    then have "\<not> (res < 0 \<and> res \<noteq> - ECANCELED)" using a(3) by auto
    then show ?thesis using assms(1,2) a(1) ov Write by (auto simp: onCompletionEvent_def on_write_def effect_simps Let_def)
  qed
  then show ?thesis using a(1) by simp
qed

lemma done_by_seen:
  assumes "cq_pending (ring_cq rng) = c # cs"
  shows "done_by r rng = (if event_runner (cqe_user_data c) = r then [cqe_event c] else []) @ done_by r (io_uring_cqe_seen rng (Some i))"
    "ring_sq (io_uring_cqe_seen rng (Some i)) = ring_sq rng"
proof -
  have "cq_ktail (ring_cq rng) - cq_khead (ring_cq rng) \<noteq> 0" using assms cq_pending_Nil [of "ring_cq rng"] by auto
  then show "done_by r rng = (if event_runner (cqe_user_data c) = r then [cqe_event c] else []) @ done_by r (io_uring_cqe_seen rng (Some i))"
    using cq_advance_1(1) [of rng] assms by (simp add: done_by_def io_uring_cqe_seen_def cqe_event_def)
  show "ring_sq (io_uring_cqe_seen rng (Some i)) = ring_sq rng" by (simp add: io_uring_cqe_seen_def io_uring_cq_advance_def)
qed

text \<open>A runner with an outstanding event is copying.\<close>

lemma busy_runner:
  assumes "data_inv J mp X q rng K" "queue_inv n m todo W L nb M q" "p \<in># M" "event_runner (fst p) \<notin> X"
  obtains t f sfd dfd where "runners q (event_runner (fst p)) = Some t" "f \<in> set J" "belongs f t" "cr_size t \<noteq> 0" "buffer t \<noteq> 0" "jobsRunning t \<noteq> 0"
    "bufferAligned t = aligned_address (buffer t) (cr_alignment t)" "fd_ready q (sourceFd t) sfd" "fd_ready q (destFd t) dfd"
    "xinv (src_bytes K f) (event_runner (fst p)) sfd dfd t (xview q rng K f (event_runner (fst p)) ContinueTag)"
    "tidy K f" "dst_open (fds q) f"
proof -
  let ?r = "event_runner (fst p)"
  have inv: "ev_inv (runners q) M" using assms(2) by (simp add: queue_inv_def)
  then obtain t where t: "runners q ?r = Some t" using assms(3) by (fastforce simp: ev_inv_def)
  have j: "jobsRunning t \<noteq> 0" using inv t events_pos [OF assms(3)] by (simp add: ev_inv_def)
  obtain f where f: "f \<in> set J" "runner_inv q rng K f ?r t" using data_inv_runner [OF assms(1) t assms(4)] .
  then have b: "belongs f t" "cr_size t \<noteq> 0" "buffer t \<noteq> 0" "copying q rng K f ?r t ContinueTag"
    using j by (auto simp: runner_inv_def status_def split: if_splits)
  obtain sfd dfd where x: "xinv (src_bytes K f) ?r sfd dfd t (xview q rng K f ?r ContinueTag)" "fd_ready q (sourceFd t) sfd" "fd_ready q (destFd t) dfd"
    and al: "bufferAligned t = aligned_address (buffer t) (cr_alignment t)" using b(4) j by (auto simp: copying_def)
  have d: "dst_open (fds q) f" using x(3) belongs_fds [OF b(1)] by (auto simp: dst_open_def fd_ready_def NEVER_OPENED_VAL_def)
  have "tidy K f" using data_invD(2) [OF assms(1) f(1)] x(3) belongs_fds [OF b(1)]
    by (auto simp: file_inv_def fd_ready_def NEVER_OPENED_VAL_def)
  then show thesis using that [OF t f(1) b(1-3) j al x(2,3,1) _ d] by blast
qed

lemma src_bytes_nth: "i < cf_size f \<Longrightarrow> src_bytes K f ! i = files K (cf_src f) i"
  by (simp add: src_bytes_def)

lemma xinv_world:
  "xinv src r sfd dfd t \<lparr>xq = q, xw = w, xmem = mem, xdst = d, inflight = fl, completions = cs, verdict = v\<rparr> \<Longrightarrow>
     xinv src r sfd dfd t \<lparr>xq = q, xw = w', xmem = mem, xdst = d, inflight = fl, completions = cs, verdict = v\<rparr>"
  by (simp add: xinv_def xshape_def xdata_def xverdict_def)

text \<open>The runner at the head of the completion queue handles its event.\<close>

lemma complete_data:
  assumes cfg: "\<not> DEBUG_FORCE_PARTIAL_READS cfg" and Q: "queue_inv n m todo [] L nb (outstanding rng F) q" and D: "data_inv J mp {} q rng K"
    and c: "cq_pending (ring_cq rng) = c # cs" "r = event_runner (cqe_user_data c)"
    and ev: "onCompletionEvent cfg os r (event_type (cqe_user_data c)) (cqe_res c) q w = Inr (v, q1, w1)"
    and t': "runners q1 r = Some t'" "savedError t' = None"
  obtains f where "f \<in> set J" "belongs f t'" "buffer t' \<noteq> 0" "w1 = w" "fds q1 = fds q"
    "data_inv J mp {r} q1 (io_uring_cqe_seen rng (Some i)) K"
    "v \<noteq> FinishedTag \<Longrightarrow> data_inv J mp {} q1 (io_uring_cqe_seen rng (Some i)) K"
    "v = FinishedTag \<Longrightarrow> tidy K f \<and> dst_open (fds q1) f \<and> (\<forall>i \<in> chunk_area t'. files K (cf_dst f) i = files K (cf_src f) i)"
proof -
  let ?ud = "cqe_user_data c" and ?rng = "io_uring_cqe_seen rng (Some i)"
  have "cqe_event c \<in># outstanding rng F" using c(1) by (simp add: outstanding_eq)
  from busy_runner [OF D Q this] obtain t f sfd dfd where t: "runners q r = Some t" "f \<in> set J" "belongs f t" "cr_size t \<noteq> 0" "buffer t \<noteq> 0"
    "jobsRunning t \<noteq> 0" "bufferAligned t = aligned_address (buffer t) (cr_alignment t)" "fd_ready q (sourceFd t) sfd" "fd_ready q (destFd t) dfd"
    "xinv (src_bytes K f) r sfd dfd t (xview q rng K f r ContinueTag)" "tidy K f" "dst_open (fds q) f"
    unfolding c(2) cqe_event_def fst_conv by (metis empty_iff)
  have r: "r < 2 ^ 62" using queue_inv_runner(1) [OF Q t(1)] .
  obtain t1 where ch: "changed r t1 q q1" "reacted (event_type ?ud) (cqe_res c) (t\<lparr>jobsRunning := jobsRunning t - 1\<rparr>) t1" "v = runner_verdict t1"
    using onCompletionEvent_effect [OF ev t(1)] by blast
  then have "t1 = t'" using t'(1) by (simp add: changed_def)
  note ch = ch [unfolded this]
  have same: "same_job t t'" using ch(2) by (simp add: reacted_def same_job_def)
  have cl: "fds q1 = fds q" "w1 = w" using onCompletionEvent_clean [OF ev t(1) cfg t'] by simp_all
  note seen = done_by_seen [OF c(1), where i = i]
  have comp: "done_by r rng = [] @ (?ud, cqe_res c) # done_by r ?rng" using seen(1) [of r] c(2) by (simp add: cqe_event_def)
  let ?s = "\<lparr>xq = q, xw = w, xmem = bytes K, xdst = files K (cf_dst f), inflight = flight_by r (all_chains rng K),
     completions = done_by r rng, verdict = ContinueTag\<rparr>"
  have "xinv (src_bytes K f) r sfd dfd t ?s" using t(10) unfolding xview_def by (rule xinv_world)
  from xinv_complete [OF this r _ _ cfg, of "[]" ?ud "cqe_res c" "done_by r ?rng"] ev comp
  have "xinv (src_bytes K f) r sfd dfd t (?s\<lparr>xq := q1, xw := w1, completions := done_by r ?rng, verdict := v\<rparr>)" by simp
  then have x1: "xinv (src_bytes K f) r sfd dfd t \<lparr>xq = q1, xw = w1, xmem = bytes K, xdst = files K (cf_dst f),
      inflight = flight_by r (all_chains rng K), completions = done_by r ?rng, verdict = v\<rparr>" by simp
  then have "xinv (src_bytes K f) r sfd dfd t \<lparr>xq = q1, xw = (), xmem = bytes K, xdst = files K (cf_dst f),
      inflight = flight_by r (all_chains rng K), completions = done_by r ?rng, verdict = v\<rparr>" by (rule xinv_world)
  moreover have ac: "all_chains ?rng K = all_chains rng K" using seen(2) by (simp add: all_chains_def)
  ultimately have x: "xinv (src_bytes K f) r sfd dfd t' (xview q1 ?rng K f r v)"
    using xinv_rebase [of "src_bytes K f" r sfd dfd t "xview q1 ?rng K f r v" t'] t'(1) by (simp add: xview_def)
  have al: "bufferAligned t' = aligned_address (buffer t') (cr_alignment t')"
    using xinv_now(1) [OF x1, of t'] t'(1) same t(7)
    by (simp add: same_chunk_def same_job_def)
  have b: "belongs f t'" using t(3) same_job_belongs [OF same, of f] by simp
  have sh: "cr_size t' \<noteq> 0" "buffer t' \<noteq> 0" "sourceFd t' = sourceFd t" "destFd t' = destFd t" using t(4,5) same by (simp_all add: same_job_def)
  have chains: "chains_inv ?rng K" using data_invD(6) [OF D] seen(2) ac by (simp add: chains_inv_def)
  have H: "heap_inv nb (copyBufferHeap q) (buffers (runners q))" using Q by (simp add: queue_inv_def)
  have q1: "runners q1 = (runners q)(r \<mapsto> t')" "next_object q1 = next_object q" "copyBufferHeap q1 = copyBufferHeap q"
    using ch(1) by (simp_all add: changed_def calm_def)
  have rest: "flight_by r' (all_chains ?rng K) = flight_by r' (all_chains rng K) \<and> done_by r' ?rng = done_by r' rng" if "r' \<noteq> r" for r'
    using seen(1) [of r'] ac that c(2) by simp
  have own: "data_inv J mp X q1 ?rng K" if "r \<notin> X \<Longrightarrow> runner_inv q1 ?rng K f r t'" "data_inv J mp X q rng K" for X
    by (rule data_inv_own [OF that(2) H t(1-5,7) q1(1) same cl(1) q1(2,3)]) (use rest chains that(1) in auto)
  show thesis
  proof (rule that [OF t(2) b sh(2) cl(2,1)])
    show "data_inv J mp {r} q1 ?rng K" by (rule own) (use data_inv_mono [OF D] in auto)
    show "data_inv J mp {} q1 ?rng K" if "v \<noteq> FinishedTag"
    proof (rule own [OF _ D])
      have "status t' = v" using that ch(3) t'(2) by (auto simp: status_def runner_verdict_def split: if_splits)
      then show "runner_inv q1 ?rng K f r t'"
        using b sh al x t(8,9,12) cl(1) by (auto simp: runner_inv_def copying_def fd_ready_def)
    qed
    show "tidy K f \<and> dst_open (fds q1) f \<and> (\<forall>i \<in> chunk_area t'. files K (cf_dst f) i = files K (cf_src f) i)" if "v = FinishedTag"
    proof (intro conjI ballI)
      show "tidy K f" "dst_open (fds q1) f" using t(11,12) cl(1) by simp_all
      fix j assume j: "j \<in> chunk_area t'"
      have "xdst (xview q1 ?rng K f r v) j = src_bytes K f ! j" by (rule xinv_finished [OF x _ j]) (simp add: xview_def that)
      moreover have "j < cf_size f" using chunk_area_file [OF data_invD(1) [OF D t(2)] b] j by auto
      ultimately show "files K (cf_dst f) j = files K (cf_src f) j" by (simp add: xview_def src_bytes_nth)
    qed
  qed
qed

text \<open>Errors are never forgotten.\<close>

lemma doomed_calm:
  assumes "doomed q" "errored q \<longrightarrow> errored q'" "\<And>x t. runners q x = Some t \<Longrightarrow> savedError t \<noteq> None \<Longrightarrow> errored q' \<or> runners q' x = Some t"
  shows "doomed q'"
  using assms unfolding doomed_def by blast

lemma doomed_quiet: "quiet q q' \<Longrightarrow> doomed q \<Longrightarrow> doomed q'"
  by (auto simp: doomed_def quiet_def calm_def)

lemma onError_errored [simp]: "errored (onError e q)" "runners (onError e q) = runners q" "fds (onError e q) = fds q"
  by (simp_all add: onError_def Let_def)

lemma doomed_deleted: "deleted nd r t q q' \<Longrightarrow> runners q r = Some t \<Longrightarrow> savedError t = None \<Longrightarrow> doomed q \<Longrightarrow> doomed q'"
  by (rule doomed_calm [of q]) (auto simp: deleted_def)

lemma report_frame [simp]: "fds (report res q) = fds q" "runners (report res q) = runners q"
  by (simp_all add: report_def split: sum.splits)

lemma settle_finished:
  assumes "settle cfg os r FinishedTag s = Inr s'"
  obtains res q1 w1 x q2 where "handleFileClose (NDEBUG cfg) os r (queue s) (world s) = Inr (res, q1, w1)"
    "CopyRunner_delete (NDEBUG cfg) r ((report res q1)\<lparr>etaCalulator := x\<rparr>) = Inr q2" "s' = s\<lparr>queue := q2, world := w1\<rparr>"
  using assms by (auto simp: settle_def effect_simps Let_def)

lemma settle_data:
  assumes os: "os_data view os" and st: "settle cfg os r v s = Inr s'" and v: "v = runner_verdict t'"
    and t': "runners (queue s) r = Some t'" "savedError t' = None"
    and Q: "queue_inv n m todo (if jobsRunning t' = 0 then [r] else []) L nb M (queue s)"
  shows "doomed (queue s) \<Longrightarrow> doomed (queue s')"
    and "f \<in> set J \<Longrightarrow> belongs f t' \<Longrightarrow> data_inv J mp {r} (queue s) rng (view (world s)) \<Longrightarrow>
      (v \<noteq> FinishedTag \<Longrightarrow> data_inv J mp {} (queue s) rng (view (world s))) \<Longrightarrow>
      (v = FinishedTag \<Longrightarrow> tidy (view (world s)) f \<and> dst_open (fds (queue s)) f \<and>
         (\<forall>i \<in> chunk_area t'. files (view (world s)) (cf_dst f) i = files (view (world s)) (cf_src f) i)) \<Longrightarrow>
      data_inv J mp {} (queue s') rng (view (world s'))"
proof -
  have "v \<noteq> RunnerError e" for e using v t'(2) by (simp add: runner_verdict_def)
  then consider (fin) "v = FinishedTag" | (other) "v \<noteq> FinishedTag" "queue s' = queue s" "world s' = world s"
    using st by (cases v) (auto simp: settle_def)
  note C = this
  show "doomed (queue s')" if d: "doomed (queue s)"
    using C
  proof cases
    case fin
    then obtain res q1 w1 x q2 where e: "handleFileClose (NDEBUG cfg) os r (queue s) (world s) = Inr (res, q1, w1)"
      "CopyRunner_delete (NDEBUG cfg) r ((report res q1)\<lparr>etaCalulator := x\<rparr>) = Inr q2" "s' = s\<lparr>queue := q2, world := w1\<rparr>"
      using settle_finished [of cfg os r s s'] st by metis
    let ?q = "(report res q1)\<lparr>etaCalulator := x\<rparr>"
    have "doomed (report res q1)" by (rule doomed_quiet [OF report_quiet doomed_quiet [OF handleFileClose_quiet [OF e(1)] d]])
    then have d2: "doomed ?q" by (simp add: doomed_def)
    have t1: "runners ?q r = Some t'" using t'(1) handleFileClose_runners [OF e(1)] by simp
    show ?thesis using doomed_deleted [OF CopyRunner_delete_effect [OF e(2) t1] t1 t'(2) d2] e(3) by simp
  qed (use d in simp)
  show "data_inv J mp {} (queue s') rng (view (world s'))"
    if f: "f \<in> set J" "belongs f t'" and D: "data_inv J mp {r} (queue s) rng (view (world s))"
      and D0: "v \<noteq> FinishedTag \<Longrightarrow> data_inv J mp {} (queue s) rng (view (world s))"
      and fin: "v = FinishedTag \<Longrightarrow> tidy (view (world s)) f \<and> dst_open (fds (queue s)) f \<and>
         (\<forall>i \<in> chunk_area t'. files (view (world s)) (cf_dst f) i = files (view (world s)) (cf_src f) i)"
    using C
  proof cases
    case fin': fin
    then obtain res q1 w1 x q2 where e: "handleFileClose (NDEBUG cfg) os r (queue s) (world s) = Inr (res, q1, w1)"
      "CopyRunner_delete (NDEBUG cfg) r ((report res q1)\<lparr>etaCalulator := x\<rparr>) = Inr q2" "s' = s\<lparr>queue := q2, world := w1\<rparr>"
      using settle_finished [of cfg os r s s'] st by metis
    have quiet: "quiet q1 ((report res q1)\<lparr>etaCalulator := x\<rparr>)" for x using report_quiet [of q1 res] by (simp add: quiet_def calm_def)
    from fin [OF fin'] have "data_inv J mp {} q2 rng (view w1)"
      by (intro retire_data [OF os D Q t'(1) f _ _ _ e(1) quiet _ e(2)]) auto
    then show ?thesis using e(3) by simp
  qed (use D0 in simp)
qed

lemma settle_frame:
  assumes "settle cfg os r v s = Inr s'" "runners (queue s) r = Some t"
  shows "set (copiesPendingContinue s') \<subseteq> insert r (set (copiesPendingContinue s))"
    "runners (queue s') x = Some y \<Longrightarrow> runners (queue s) x = Some y"
proof -
  have del: "runners q' x = Some y \<Longrightarrow> runners q x = Some y" if d: "CopyRunner_delete nd r q = Inr q'" for q q' nd x y
    using CopyRunner_delete_effect [OF d] d by (auto simp: deleted_def CopyRunner_delete_def effect_simps split: if_splits)
  show "set (copiesPendingContinue s') \<subseteq> insert r (set (copiesPendingContinue s))"
    using assms(1) by (cases v) (auto simp: settle_def effect_simps Let_def)
  show "runners (queue s) x = Some y" if x: "runners (queue s') x = Some y"
  proof (cases v)
    case FinishedTag
    then obtain res q1 w1 y q2 where e: "handleFileClose (NDEBUG cfg) os r (queue s) (world s) = Inr (res, q1, w1)"
      "CopyRunner_delete (NDEBUG cfg) r ((report res q1)\<lparr>etaCalulator := y\<rparr>) = Inr q2" "s' = s\<lparr>queue := q2, world := w1\<rparr>"
      using settle_finished [of cfg os r s s'] assms(1) by metis
    then show ?thesis using del [OF e(2)] x handleFileClose_runners [OF e(1)] by simp
  next
    case (RunnerError e)
    then obtain q2 where e: "CopyRunner_delete (NDEBUG cfg) r (onError e (queue s)) = Inr q2" "s' = s\<lparr>queue := q2\<rparr>"
      using assms(1) by (auto simp: settle_def effect_simps)
    then show ?thesis using del [OF e(1), of x y] x by simp
  qed (use assms(1) x in \<open>auto simp: settle_def\<close>)
qed

lemma complete_turn_data:
  assumes os: "os_data view os" and cfg: "\<not> DEBUG_FORCE_PARTIAL_READS cfg" and S: "sub_inv n m (flying view) todo [] s"
    and D: "data_ok view J mp s" and st: "complete_turn cfg os enter s = Inr (again, s')"
  shows "data_ok view J mp s'"
proof -
  let ?q = "queue s" let ?F = "flight_of (view (world s))"
  have Q: "queue_inv n m todo [] (copiesPendingContinue s) (nextBuffer s) (outstanding (ring ?q) ?F) ?q"
    using S by (simp add: sub_inv_def Let_def)
  from Q st show ?thesis
  proof (cases rule: complete_turn_cases)
    case idle
    then show ?thesis using D by simp
  next
    case (event c cs i v q1 w1 s1)
    define r where "r = event_runner (cqe_user_data c)"
    note ev = event(2) [folded r_def] and se = event(3) [folded r_def]
    have rng: "ring_inv n m (ring ?q)" using Q by (simp add: queue_inv_def)
    let ?rng = "io_uring_cqe_seen (ring ?q) (Some i)"
    have M: "outstanding (ring ?q) ?F = add_mset (cqe_user_data c, cqe_res c) (outstanding ?rng ?F)"
      using seen_ok(2) [OF rng event(1), where i = i] by (simp add: cqe_event_def)
    obtain t where t: "runners ?q r = Some t" using Q unfolding M r_def by (auto simp: queue_inv_def ev_inv_def)
    obtain t' where t': "changed r t' ?q q1" "reacted (event_type (cqe_user_data c)) (cqe_res c) (t\<lparr>jobsRunning := jobsRunning t - 1\<rparr>) t'"
      "v = runner_verdict t'" using onCompletionEvent_effect [OF ev t] by blast
    have rt: "runners q1 r = Some t'" using t'(1) by (simp add: changed_def)
    have Q1: "queue_inv n m todo (if jobsRunning t' = 0 then [r] else []) (copiesPendingContinue s) (nextBuffer s) (outstanding ?rng ?F) q1"
      using queue_inv_completed [OF Q [unfolded M] _ t'(1)[unfolded r_def]] t t'(2) unfolding r_def by blast
    have fin: "data_ok view J mp s'" if "doomed (queue s1) \<or> data_inv J mp {} (queue s1) ?rng (view (world s1)) \<and>
      ring (queue s1) = ring ?q \<and> buffered (queue s1) (copiesPendingContinue s1)"
    proof -
      have "doomed (queue s') = doomed (queue s1)" using event(4) by (simp add: doomed_def)
      moreover have "data_inv J mp {} (queue s') ?rng (view (world s1)) = data_inv J mp {} (queue s1) ?rng (view (world s1))"
        by (rule data_inv_cong) (use event(4) in simp_all)
      ultimately show ?thesis using that event(4) by (auto simp: data_ok_def buffered_def)
    qed
    show ?thesis
    proof (cases "savedError t'")
      case (Some e)
      show ?thesis
      proof (cases "jobsRunning t' = 0")
        case True
        then have "v = RunnerError e" using t'(3) Some by (simp add: runner_verdict_def)
        then obtain q2 where "CopyRunner_delete (NDEBUG cfg) r (onError e q1) = Inr q2" "s1 = (s\<lparr>queue := q1, world := w1\<rparr>)\<lparr>queue := q2\<rparr>"
          using se by (auto simp: settle_def effect_simps)
        moreover have "runners (onError e q1) r = Some t'" using rt by simp
        ultimately have "errored (queue s1)" using CopyRunner_delete_effect by (fastforce simp: deleted_def)
        then show ?thesis using fin by (simp add: doomed_def)
      next
        case False
        then have "v = ContinueTag" using t'(3) by (simp add: runner_verdict_def)
        then have "s1 = s\<lparr>queue := q1, world := w1\<rparr>" using se by (simp add: settle_def)
        then have "doomed (queue s1)" using rt Some by (auto simp: doomed_def)
        then show ?thesis using fin by blast
      qed
    next
      case None
      note set = settle_data [OF os se t'(3) _ None, where L = "copiesPendingContinue s" and nb = "nextBuffer s" and M = "outstanding ?rng ?F"]
      have cl: "savedError t = None" using onCompletionEvent_clean [OF ev t cfg rt None] by simp
      show ?thesis
      proof (cases "doomed ?q")
        case True
        have "doomed q1"
          by (rule doomed_calm [OF True]) (use t'(1) t cl in \<open>auto simp: changed_def calm_def\<close>)
        then have "doomed (queue s1)" using set(1) rt Q1 by simp
        then show ?thesis using fin by blast
      next
        case False
        then have D: "data_inv J mp {} ?q (ring ?q) (view (world s))" "buffered ?q (copiesPendingContinue s)" using D by (auto simp: data_ok_def)
        from complete_data [OF cfg Q D(1) event(1) r_def ev rt None, where i = i] obtain f where f: "f \<in> set J" "belongs f t'" "w1 = world s"
          "data_inv J mp {r} q1 ?rng (view (world s))" "v \<noteq> FinishedTag \<Longrightarrow> data_inv J mp {} q1 ?rng (view (world s))"
          "v = FinishedTag \<Longrightarrow> tidy (view (world s)) f \<and> dst_open (fds q1) f \<and>
             (\<forall>i \<in> chunk_area t'. files (view (world s)) (cf_dst f) i = files (view (world s)) (cf_src f) i)"
          "buffer t' \<noteq> 0" by metis
        have "data_inv J mp {} (queue s1) ?rng (view (world s1))"
          by (rule set(2) [OF _ _ f(1,2)]) (use rt Q1 f in auto)
        moreover have "ring (queue s1) = ring ?q"
          using settle_ok [OF os_data_keeps [OF os] se [unfolded t'(3)]] rt Q1 t'(1) by (simp add: changed_def)
        moreover have "buffered (queue s1) (copiesPendingContinue s1)"
          unfolding buffered_def
        proof (intro ballI allI impI)
          fix x y assume x: "x \<in> set (copiesPendingContinue s1)" "runners (queue s1) x = Some y"
          have "x \<in> insert r (set (copiesPendingContinue s))" "runners q1 x = Some y"
            using settle_frame [OF se, of t'] rt x by auto
          then show "buffer y \<noteq> 0" using D(2) t'(1) f(7) by (auto simp: buffered_def changed_def split: if_splits)
        qed
        ultimately show ?thesis using fin by blast
      qed
    qed
  qed
qed

section \<open>Picking a runner\<close>

text \<open>A runner without requests owns no chain and no completion.\<close>

lemma idle_runner:
  assumes "queue_inv n m todo W L nb (outstanding rng (flight_of K)) q" "chains_inv rng K" "runners q r = Some t" "jobsRunning t = 0"
  shows "r \<notin> owner ` set (all_chains rng K)" "flight_by r (all_chains rng K) = []" "done_by r rng = []"
proof -
  let ?M = "outstanding rng (flight_of K)"
  have ev: "event_runner (fst p) \<noteq> r" if "p \<in># ?M" for p
    using events_pos [OF that] assms(1,3,4) by (auto simp: queue_inv_def ev_inv_def)
  show own: "r \<notin> owner ` set (all_chains rng K)"
  proof (rule notI, erule imageE)
    fix c assume c: "r = owner c" "c \<in> set (all_chains rng K)"
    then have "c \<noteq> []" using assms(2) chains_nonempty by (auto simp: all_chains_def chains_inv_def)
    then have "last c \<in> set c" by simp
    then have "last c \<in> set (concat (all_chains rng K))" using c(2) by auto
    then have "last c \<in> set (concat (taken K)) \<union> set (sq_queued (ring_sq rng))"
      by (simp only: all_chains_def concat_append set_append concat_chains)
    then have "sqe_event (last c) \<in># ?M" by (auto simp: outstanding_eq flight_of_def)
    from ev [OF this] show False using c(1) by (simp add: owner_def sqe_event_def)
  qed
  then show "flight_by r (all_chains rng K) = []" by (auto simp: flight_by_def filter_empty_conv)
  have "event_runner (fst (cqe_event c)) \<noteq> r" if "c \<in> set (cq_pending (ring_cq rng))" for c
    using ev [of "cqe_event c"] that by (auto simp: outstanding_eq)
  then show "done_by r rng = []" by (auto simp: done_by_def filter_empty_conv)
qed

lemma fetch_same [simp]:
  "runners (queue (fetch_buffer s)) = runners (queue s)" "fds (queue (fetch_buffer s)) = fds (queue s)"
  "next_object (queue (fetch_buffer s)) = next_object (queue s)" "errored (queue (fetch_buffer s)) = errored (queue s)"
  "copiesPendingStart (queue (fetch_buffer s)) = copiesPendingStart (queue s)"
  by (simp_all add: fetch_buffer_def split: prod.splits)

lemma fetch_data:
  assumes "heap_wf (copyBufferHeap (queue s))" "data_inv J mp X (queue s) rng K"
  shows "data_inv J mp X (queue (fetch_buffer s)) rng K"
proof (cases "nextBuffer s = 0")
  case True
  obtain h x where g: "getBlock (copyBufferHeap (queue s)) = (h, x)" by fastforce
  have "same_slab (copyBufferHeap (queue s)) h \<and> heap_wf h"
    using getBlock_Some(3,4) [OF assms(1)] getBlock_None(1) [OF assms(1)] g assms(1) by (cases x) (auto simp: same_slab_def)
  then show ?thesis using data_inv_frame [OF assms(2), of "queue (fetch_buffer s)"] g True by (simp add: fetch_buffer_def)
qed (use assms in \<open>simp add: fetch_buffer_def\<close>)

text \<open>A runner changes outside of the fields that say which chunk it copies.\<close>

lemma data_inv_swap:
  assumes D: "data_inv J mp X q rng K" and t: "runners q r = Some t" "f \<in> set J" "runner_inv q' rng K f r t'"
    and q': "runners q' = (runners q)(r \<mapsto> t')" "fds q' = fds q" "next_object q' = next_object q" "copyBufferHeap q' = copyBufferHeap q"
    and same: "chunksRemaining t' = chunksRemaining t" "cr_offset t' = cr_offset t" "cr_size t' = cr_size t" and wf: "heap_wf (copyBufferHeap q)"
  shows "data_inv J mp X q' rng K"
proof (rule data_invI)
  note D' = data_invD [OF D]
  show "files_apart J" "fds_inj (descs K) (fds q')" "adding_inv J mp" "chains_inv rng K" using D'(4,5,6,8) q'(2) by simp_all
  show "parts_apart (runners q') mp" using D'(7) t(1) same unfolding parts_apart_def q'(1) by (auto split: if_splits)
  fix g assume g: "g \<in> set J"
  show "file_shape q' g \<and> file_inv (fds q') K g" using file_shape_slab [OF D'(1) [OF g], of q'] D'(2) [OF g] q' wf by simp
  fix c assume c: "c \<in> set (cf_chunks g)"
  have "\<exists>x y. runners q' x = Some y \<and> chunksRemaining y = cf_id g \<and> (cr_offset y, cr_size y) = map_prod int int c"
    if "runners q x = Some y" "chunksRemaining y = cf_id g" "(cr_offset y, cr_size y) = map_prod int int c" for x y
    using that t(1) same q'(1) by (cases "x = r") auto
  then show "chunk_inv mp q' K g c" using D'(3) [OF g c] q'(2) unfolding chunk_inv_def by metis
next
  fix x y assume x: "runners q' x = Some y" "x \<notin> X"
  show "\<exists>g \<in> set J. runner_inv q' rng K g x y"
  proof (cases "x = r")
    case True
    then show ?thesis using x(1) q'(1) t by auto
  next
    case False
    then have xq: "runners q x = Some y" using x(1) q'(1) by simp
    obtain g where "g \<in> set J" "runner_inv q rng K g x y" using data_inv_runner [OF D xq x(2)] .
    then show ?thesis using runner_inv_frame [OF _ xq x(1) q'(2)] by blast
  qed
qed

lemma data_inv_give:
  assumes D: "data_inv J mp {} q rng K" and Q: "queue_inv n m todo W L nb (outstanding rng (flight_of K)) q"
    and t: "runners q r = Some t" "buffer t = 0" "0 < cr_size t" "giveBuffer nd r p q = Inr q'" "p \<noteq> 0"
  shows "data_inv J mp {} q' rng K" "runners q' = (runners q)(r \<mapsto> t\<lparr>buffer := p, bufferAligned := aligned_address p (cr_alignment t)\<rparr>)"
    "q' = q\<lparr>runners := runners q'\<rparr>"
proof -
  let ?t = "t\<lparr>buffer := p, bufferAligned := aligned_address p (cr_alignment t)\<rparr>"
  have "q' = q\<lparr>runners := (runners q)(r \<mapsto> ?t)\<rparr>" using t(1,4) by (auto simp: giveBuffer_def effect_simps Let_def)
  then show q': "runners q' = (runners q)(r \<mapsto> ?t)" "q' = q\<lparr>runners := runners q'\<rparr>" by simp_all
  have fr: "fds q' = fds q" "next_object q' = next_object q" "copyBufferHeap q' = copyBufferHeap q" by (subst q'(2), simp)+
  obtain f where f: "f \<in> set J" "runner_inv q rng K f r t" using data_inv_runner [OF D t(1)] by auto
  then have idle: "belongs f t" "savedError t = None" "readOffset t = cr_offset t" "writeOffset t = cr_offset t" "jobsRunning t = 0"
    using t(2) by (simp_all add: runner_inv_def)
  have b: "belongs f ?t" using idle(1) by (simp add: belongs_def)
  note none = idle_runner [OF Q data_invD(6) [OF D] t(1) idle(5)]
  have "chunk_ok (src_bytes K f) ?t"
    by (rule belongs_chunk_ok [OF data_invD(1) [OF D f(1)] b]) (use t(3) in \<open>simp_all add: src_bytes_def\<close>)
  then have "xinv (src_bytes K f) r 0 0 ?t (xview q' rng K f r RescheduleTag)"
    by (intro xinv_start) (use idle none q' in \<open>simp_all add: xfer_start_def xview_def\<close>)
  then have "runner_inv q' rng K f r ?t"
    using b idle t(3,5) by (auto simp: runner_inv_def copying_def status_def)
  then show "data_inv J mp {} q' rng K"
    by (intro data_inv_swap [OF D t(1) f(1) _ q'(1) fr]) (use Q in \<open>simp_all add: queue_inv_def heap_inv_def\<close>)
qed

lemma ready_saved: "queue_inv n m todo W L nb M q \<Longrightarrow> runners q r = Some t \<Longrightarrow> r \<in> set (copiesPendingStart q @ L) \<Longrightarrow> savedError t = None"
  by (auto simp: queue_inv_def ready_inv_def)

lemma pick_data:
  assumes S: "sub_inv n m (flying view) todo [] s" and D: "data_ok view J mp s" and p: "pick_runner nd s = Inr (x, s')"
  shows "data_ok view J mp s'" (is ?ok)
    and "x = Some r \<Longrightarrow> \<exists>t. runners (queue s') r = Some t \<and> savedError t = None \<and> (cr_size t = 0 \<or> buffer t \<noteq> 0 \<or> doomed (queue s'))"
proof -
  let ?f = "fetch_buffer s" let ?K = "view (world s)" let ?rng = "ring (queue s)"
  have Sf: "sub_inv n m (flying view) todo [] ?f" by (rule fetch_ok [OF S])
  then have Q: "queue_inv n m todo [] (copiesPendingContinue ?f) (nextBuffer ?f) (outstanding ?rng (flight_of ?K)) (queue ?f)"
    by (simp add: sub_inv_def Let_def)
  have "heap_wf (copyBufferHeap (queue s))" using S by (simp add: sub_inv_def Let_def queue_inv_def heap_inv_def)
  note fd = fetch_data [OF this]
  have df: "doomed (queue ?f) = doomed (queue s)" by (simp add: doomed_def)
  have Df: "data_inv J mp {} (queue ?f) ?rng ?K" "buffered (queue ?f) (copiesPendingContinue s)" if "\<not> doomed (queue s)"
    using fd D that by (auto simp: data_ok_def buffered_def)
  have "?ok \<and> (x = Some r \<longrightarrow> (\<exists>t. runners (queue s') r = Some t \<and> savedError t = None \<and> (cr_size t = 0 \<or> buffer t \<noteq> 0 \<or> doomed (queue s'))))"
    using p
  proof (cases rule: pick_runner_cases)
    case (continue r' rest t)
    have sv: "savedError t = None" using ready_saved [OF Q continue(3)] continue(2) by simp
    have "buffer t \<noteq> 0" if "\<not> doomed (queue s)" using Df(2) [OF that] continue(2,3) by (simp add: buffered_def)
    moreover have "?ok" using continue(2,4) Df df by (auto simp: data_ok_def buffered_def)
    ultimately show ?thesis using continue(1,3,4) sv df by auto
  next
    case start
    from start(2) show ?thesis
    proof (cases rule: pick_start_cases)
      case none
      then show ?thesis using Df df start(1) by (auto simp: data_ok_def buffered_def)
    next
      case (start r' rest t q1 nb1)
      have sv: "savedError t = None" using ready_saved [OF Q start(3)] start(2) by simp
      have L: "copiesPendingContinue s' = []" using start(6) \<open>copiesPendingContinue s = []\<close> by simp
      let ?q = "queue s'"
      have q: "?q = q1\<lparr>copiesPendingStart := rest, copiesPendingStartCount := copiesPendingStartCount q1 - 1\<rparr>" "world s' = world s"
        using start(6) by simp_all
      have c: "data_inv J mp {} ?q rng K = data_inv J mp {} q1 rng K" for rng K by (rule data_inv_cong) (simp_all add: q)
      show ?thesis
      proof (cases "needsBuffer t")
        case False
        then have q1: "q1 = queue ?f" using start(5) by simp
        have "0 \<le> cr_size t" using queue_inv_runner(5) [OF Q start(3)] .
        then have "cr_size t = 0 \<or> buffer t \<noteq> 0" using False by (auto simp: needsBuffer_def)
        moreover have "doomed ?q = doomed (queue s)" by (simp add: q q1 doomed_def)
        then have "?ok" using Df q(2) L c by (auto simp: data_ok_def buffered_def q(1) q1)
        ultimately show ?thesis using start(1,3) sv q by (auto simp: q1)
      next
        case True
        then have b: "buffer t = 0" "0 < cr_size t" "giveBuffer nd r' (nextBuffer ?f) (queue ?f) = Inr q1"
          using start(5) by (simp_all add: needsBuffer_def)
        let ?t = "t\<lparr>buffer := nextBuffer ?f, bufferAligned := aligned_address (nextBuffer ?f) (cr_alignment t)\<rparr>"
        have q1: "q1 = (queue ?f)\<lparr>runners := (runners (queue ?f))(r' \<mapsto> ?t)\<rparr>"
          using b(3) start(3) by (auto simp: giveBuffer_def effect_simps Let_def)
        note give = data_inv_give(1) [OF _ Q start(3) b start(4), of J mp]
        have "doomed ?q" if "doomed (queue s)"
          by (rule doomed_calm [OF that]) (use start(3) sv in \<open>auto simp: q q1\<close>)
        then have "?ok" using give Df(1) c L q by (auto simp: data_ok_def buffered_def q1)
        moreover have "runners ?q r' = Some ?t" by (simp add: q q1)
        ultimately show ?thesis using start(1,4) sv by auto
      qed
    qed
  qed
  then show ?ok "x = Some r \<Longrightarrow> \<exists>t. runners (queue s') r = Some t \<and> savedError t = None \<and> (cr_size t = 0 \<or> buffer t \<noteq> 0 \<or> doomed (queue s'))"
    by blast+
qed

section \<open>Adding a runner to the batch\<close>

lemma open_data:
  assumes os: "os_data view os" and D: "data_inv J mp X q rng (view w)" and f: "f \<in> set J" "d = cf_id f - 2 \<or> d = cf_id f - 1"
    and wf: "heap_wf (copyBufferHeap q)" and o: "ensureOpened nd os d q w = Inr (Inr u, q', w')"
  shows "data_inv J mp X q' rng (view w')" "\<exists>fd. fd_ready q' d fd" "fd_ready q e x \<Longrightarrow> fd_ready q' e x"
proof -
  have qu: "runners q' = runners q" "next_object q' = next_object q" "copyBufferHeap q' = copyBufferHeap q"
    using ensureOpened_quiet [OF o] by (simp_all add: quiet_def calm_def)
  obtain obj where obj: "fds q d = Some obj" using o by (auto simp: ensureOpened_def outcome_simps)
  have "data_inv J mp X q' rng (view w') \<and> (\<exists>fd. fd_ready q' d fd) \<and> (fd_ready q e x \<longrightarrow> fd_ready q' e x)"
    using ensureOpened_data [OF os o]
  proof
    assume s: "fds q' = fds q \<and> view w' = view w \<and> (\<forall>obj. fds q d = Some obj \<longrightarrow> qfd_fd obj \<noteq> NEVER_OPENED_VAL)"
    have "2 < qfd_fd obj" using s obj f(2) data_invD(2) [OF D f(1)] by (auto simp: file_inv_def desc_ok_def)
    moreover have "data_inv J mp X q' rng (view w') = data_inv J mp X q rng (view w)" using data_inv_cong [of q' q] s qu by simp
    ultimately show ?thesis using s obj D by (auto simp: fd_ready_def)
  next
    assume o: "fd_opened d q (view w) q' (view w')"
    then have "\<exists>fd. fd_ready q' d fd" "fd_ready q e x \<longrightarrow> fd_ready q' e x"
      unfolding fd_opened_def fd_ready_def by (auto simp: NEVER_OPENED_VAL_def)
    then show ?thesis using data_inv_opened [OF D o f qu wf] by blast
  qed
  then show "data_inv J mp X q' rng (view w')" "\<exists>fd. fd_ready q' d fd" "fd_ready q e x \<Longrightarrow> fd_ready q' e x" by blast+
qed

text \<open>An open destination is empty behind the end of the file.\<close>

lemma ready_tidy:
  assumes "data_inv J mp X q rng K" "f \<in> set J" "belongs f t" "fd_ready q (destFd t) fd"
  shows "tidy K f" "dst_open (fds q) f"
  using data_invD(2) [OF assms(1,2)] assms(4) belongs_fds [OF assms(3)]
  by (auto simp: file_inv_def dst_open_def fd_ready_def NEVER_OPENED_VAL_def)

lemma buffered_deleted: "buffered q L \<Longrightarrow> runners q' = (runners q)(r := None) \<Longrightarrow> buffered q' L"
  by (auto simp: buffered_def)

lemma add_empty_data:
  assumes os: "os_data view os" and S: "sub_inv n m (flying view) todo [r] s" and D: "data_ok view J mp s"
    and t: "runners (queue s) r = Some t" "savedError t = None" "cr_size t = 0" and st: "add_empty cfg os r s = Inr (x, s')"
  shows "data_ok view J mp s'"
proof -
  let ?q = "queue s" let ?rng = "ring ?q"
  obtain res1 q1 w1 res q2 w2 q3 where e: "ensureOpened (NDEBUG cfg) os (destFd t) ?q (world s) = Inr (res1, q1, w1)"
    "(case res1 of Inl e \<Rightarrow> Inr (Inl e, q1, w1) | Inr _ \<Rightarrow> handleFileClose (NDEBUG cfg) os r q1 w1) = Inr (res, q2, w2)"
    "CopyRunner_delete (NDEBUG cfg) r (report res q2) = Inr q3" "s' = s\<lparr>queue := q3, world := w2\<rparr>"
    using st t(1) unfolding add_empty_def by (auto simp: with_runner_Inr and_then_Inr)
  have q1: "quiet ?q q1" by (rule ensureOpened_quiet [OF e(1)])
  have "quiet q1 q2" using e(2) handleFileClose_quiet by (auto split: sum.split_asm)
  then have q2: "quiet ?q (report res q2)" using q1 report_quiet by (blast intro: quiet_trans)
  then have t2: "runners (report res q2) r = Some t" using t(1) by (simp add: quiet_def)
  note del = CopyRunner_delete_effect [OF e(3) t2]
  have dm: "doomed q3" if "doomed (report res q2)" by (rule doomed_deleted [OF del t2 t(2) that])
  show ?thesis
  proof (cases "doomed ?q \<or> (\<exists>e. res1 = Inl e)")
    case True
    then have "doomed (report res q2)" using doomed_quiet [OF q2] e(2) by (auto simp: report_def doomed_def)
    then show ?thesis using dm e(4) by (simp add: data_ok_def)
  next
    case False
    then obtain u where u: "res1 = Inr u" by (cases res1) auto
    have D': "data_inv J mp {} ?q ?rng (view (world s))" "buffered ?q (copiesPendingContinue s)" using D False by (auto simp: data_ok_def)
    have Q: "queue_inv n m todo [r] (copiesPendingContinue s) (nextBuffer s) (outstanding ?rng (flight_of (view (world s)))) ?q"
      using S by (simp add: sub_inv_def Let_def)
    then have wf: "heap_wf (copyBufferHeap ?q)" by (simp add: queue_inv_def heap_inv_def)
    obtain f where f: "f \<in> set J" "runner_inv ?q ?rng (view (world s)) f r t" using data_inv_runner [OF D'(1) t(1)] by auto
    have b: "belongs f t" using runner_inv_belongs [OF f(2)] .
    have d: "destFd t = cf_id f - 2 \<or> destFd t = cf_id f - 1" using belongs_fds [OF b] by simp
    note o = open_data [OF os D'(1) f(1) d wf e(1) [unfolded u]]
    obtain fd where fd: "fd_ready q1 (destFd t) fd" using o(2) by blast
    have t1: "runners q1 r = Some t" using q1 t(1) by (simp add: quiet_def)
    have "chunk_area t = {}" using t(3) by (auto simp: chunk_area_def)
    then have "data_inv J mp {} q3 ?rng (view w2)"
      using ready_tidy [OF o(1) f(1) b fd] e(2) [unfolded u] queue_inv_quiet [OF Q q1]
      by (intro retire_data [OF os data_inv_mono [OF o(1)] _ t1 f(1) b _ _ _ _ report_quiet [of q2 res] _ e(3)]) auto
    moreover have "ring q3 = ?rng" "runners q3 = (runners ?q)(r := None)" using del q2 by (simp_all add: deleted_def quiet_def)
    ultimately show ?thesis using e(4) buffered_deleted [OF D'(2)] by (simp add: data_ok_def)
  qed
qed

text \<open>The files are open: \<open>addToBatch\<close> goes on as if they had been open before.\<close>

lemma addToBatch_opened:
  assumes "addToBatch cfg os r q w = Inr (Success, q', w')" "runners q r = Some t"
  obtains q1 w1 q2 w2 where "ensureOpened (NDEBUG cfg) os (sourceFd t) q w = Inr (Success, q1, w1)"
    "ensureOpened (NDEBUG cfg) os (destFd t) q1 w1 = Inr (Success, q2, w2)"
    "\<forall>sfd dfd. fd_ready q2 (sourceFd t) sfd \<longrightarrow> fd_ready q2 (destFd t) dfd \<longrightarrow> addToBatch cfg os r q2 w2 = Inr (Success, q', w')"
proof -
  obtain res q2 w2 where o: "open_files (NDEBUG cfg) os t q w = Inr (res, q2, w2)"
    using assms by (auto simp: addToBatch_def submitReadWriteCommands_def effect_simps)
  have ok: "res = Success" using assms o by (cases res) (auto simp: addToBatch_def submitReadWriteCommands_def effect_simps Let_def)
  obtain q1 w1 where o1: "ensureOpened (NDEBUG cfg) os (sourceFd t) q w = Inr (Success, q1, w1)"
    "ensureOpened (NDEBUG cfg) os (destFd t) q1 w1 = Inr (Success, q2, w2)"
    using o ok by (auto simp: open_files_def effect_simps)
  have t2: "runners q2 r = Some t" using open_files_quiet [OF o] assms(2) by (simp add: quiet_def)
  have "addToBatch cfg os r q2 w2 = Inr (Success, q', w')" if "fd_ready q2 (sourceFd t) sfd" "fd_ready q2 (destFd t) dfd" for sfd dfd
  proof -
    have "open_files (NDEBUG cfg) os t q2 w2 = Inr (Success, q2, w2)"
      by (simp add: open_files_def ensureOpened_ready [OF that(1)] ensureOpened_ready [OF that(2)])
    then show ?thesis using assms o ok t2 by (simp add: addToBatch_def submitReadWriteCommands_def with_runner_def)
  qed
  then show thesis using that o1 by blast
qed

lemma requests_chain:
  assumes "chunk_ok src t" "cr_offset t \<le> readOffset t" "readOffset t \<le> chunk_end t" "r < 2 ^ 62"
  shows "link_chains (requests t r sfd dfd) = [requests t r sfd dfd]" "owner (requests t r sfd dfd) = r"
    "closed (requests t r sfd dfd)"
  using requests_eq [OF assms(1-3), of r sfd dfd] rd_req_fields(4) wr_req_fields(1,4) event_ptr_inj(3) [OF assms(4)]
  by (simp_all add: owner_def closed_def)

lemma batch_data:
  assumes cfg: "\<not> DEBUG_FORCE_PARTIAL_READS cfg" "\<not> DEBUG_FORCE_PARTIAL_WRITES cfg"
    and D: "data_inv J mp {} q (ring q) K" and Q: "queue_inv n m todo [r] L nb (outstanding (ring q) (flight_of K)) q"
    and room: "length (sq_queued (ring_sq (ring q))) + 2 \<le> 2 ^ n"
    and t: "runners q r = Some t" "savedError t = None" "0 < cr_size t" "buffer t \<noteq> 0" "writeOffset t < chunk_end t"
    and rd: "fd_ready q (sourceFd t) sfd" "fd_ready q (destFd t) dfd"
    and st: "addToBatch cfg os r q w = Inr (Success, q', w')"
  shows "data_inv J mp {} q' (ring q') K" "w' = w"
proof -
  let ?rng = "ring q" let ?reqs = "requests t r sfd dfd" let ?t = "t\<lparr>jobsRunning := int (length ?reqs)\<rparr>"
  have j: "jobsRunning t = 0" using queue_inv_runner(2) [OF Q t(1)] by simp
  obtain f where f: "f \<in> set J" "runner_inv q ?rng K f r t" using data_inv_runner [OF D t(1)] by auto
  then have b: "belongs f t" "copying q ?rng K f r t RescheduleTag" using t(3,4) j by (auto simp: runner_inv_def status_def)
  obtain s0 d0 where "xinv (src_bytes K f) r s0 d0 t (xview q ?rng K f r RescheduleTag)"
    and al: "bufferAligned t = aligned_address (buffer t) (cr_alignment t)" using b(2) by (auto simp: copying_def)
  note idle = idle_runner [OF Q data_invD(6) [OF D] t(1) j]
  let ?s = "\<lparr>xq = q, xw = w, xmem = bytes K, xdst = files K (cf_dst f), inflight = flight_by r (all_chains ?rng K),
     completions = done_by r ?rng, verdict = RescheduleTag\<rparr>"
  have x: "xinv (src_bytes K f) r sfd dfd t ?s"
    using xinv_idle [OF \<open>xinv (src_bytes K f) r s0 d0 t _\<close>] idle(2) unfolding xview_def
    by (metis (no_types, lifting) xfer.select_convs(5) xinv_world)
  have bd: "chunk_ok (src_bytes K f) t" "xbounds r t (done_by r ?rng)" using xinv_now(2,4) [OF x] t(1) by simp_all
  have sq: "sq_inv n (ring_sq ?rng)" using Q by (simp add: queue_inv_def ring_inv_def)
  have can: "can_submit n r sfd dfd t q" using bd(1) rd t j sq room by (auto simp: can_submit_def chunk_end_def chunk_ok_def)
  from addToBatch_requests [OF can cfg, of os w] obtain q3 where q3: "addToBatch cfg os r q w = Inr (Success, q3, w)"
    "sq_queued (ring_sq (ring q3)) = sq_queued (ring_sq ?rng) @ ?reqs" "ring_cq (ring q3) = ring_cq ?rng"
    "q3 = q\<lparr>ring := ring q3, runners := (runners q)(r \<mapsto> ?t), submissionsRunning := submissionsRunning q + of_nat (length ?reqs)\<rparr>"
    by blast
  have eq: "q3 = q'" "w' = w" using q3(1) st by simp_all
  have fr: "runners q' = (runners q)(r \<mapsto> ?t)" "fds q' = fds q" "next_object q' = next_object q" "copyBufferHeap q' = copyBufferHeap q"
    unfolding eq [symmetric] by (subst q3(4), simp)+
  have vis: "sq_visible (ring_sq (ring q')) = sq_visible (ring_sq ?rng)"
    using addToBatch_effect [OF st t(1) sq room] t(5) by (auto simp: batched_def chunk_end_def)
  have "xinv (src_bytes K f) r sfd dfd t (?s\<lparr>xq := q', xw := w, verdict := ContinueTag,
      inflight := drop (length (sq_queued (ring_sq (ring (xq ?s))))) (sq_queued (ring_sq (ring q')))\<rparr>)"
    by (rule xinv_submit [OF x _ _ _ cfg]) (use can st eq in simp_all)
  then have "xinv (src_bytes K f) r sfd dfd t \<lparr>xq = q', xw = w, xmem = bytes K, xdst = files K (cf_dst f),
      inflight = ?reqs, completions = done_by r ?rng, verdict = ContinueTag\<rparr>" using q3(2) eq by simp
  then have x3: "xinv (src_bytes K f) r sfd dfd t \<lparr>xq = q', xw = (), xmem = bytes K, xdst = files K (cf_dst f),
      inflight = ?reqs, completions = done_by r ?rng, verdict = ContinueTag\<rparr>" by (rule xinv_world)
  note rc = requests_chain [OF bd(1) _ _ queue_inv_runner(1) [OF Q t(1)], of sfd dfd]
  have rc: "link_chains ?reqs = [?reqs]" "owner ?reqs = r" "closed ?reqs" using rc bd(2) by (auto simp: xbounds_def)
  note C = data_invD(6) [OF D, unfolded chains_inv_def]
  have all: "all_chains (ring q') K = all_chains ?rng K @ [?reqs]"
    using q3(2) eq(1) chains_append [of "sq_queued (ring_sq ?rng)" ?reqs] C rc(1) by (simp add: all_chains_def)
  have dn: "done_by y (ring q') = done_by y ?rng" for y using q3(3) eq(1) by (simp add: done_by_def)
  have fl: "flight_by y (all_chains (ring q') K) = flight_by y (all_chains ?rng K) @ (if y = r then ?reqs else [])" for y
    using all rc(2) by (simp add: flight_by_def)
  have H: "heap_inv nb (copyBufferHeap q) (buffers (runners q))" using Q by (simp add: queue_inv_def)
  show "data_inv J mp {} q' (ring q') K"
  proof (rule data_inv_own [OF D H t(1) f(1) b(1) _ t(4) al fr(1) _ fr(2-4)])
    show "chains_inv (ring q') K"
      using C vis idle(1) q3(2) eq(1) closed_append [OF _ rc(3)] rc(2) unfolding chains_inv_def all by simp
    have "xinv (src_bytes K f) r sfd dfd ?t (xview q' (ring q') K f r ContinueTag)"
      using xinv_rebase [OF x3, of ?t] fr(1) fl [of r] dn idle(2) by (simp add: xview_def)
    moreover have "?reqs \<noteq> []" using rc(1) by (metis list.distinct(1) chains_Nil_iff)
    ultimately show "runner_inv q' (ring q') K f r ?t"
      using b(1) t(3,4) al rd fr(2) ready_tidy(2) [OF D f(1) b(1) rd(2)]
      by (auto simp: runner_inv_def copying_def status_def belongs_def fd_ready_def)
  qed (use t(3) fl dn in \<open>auto simp: same_job_def\<close>)
  show "w' = w" by (rule eq(2))
qed

lemma addToBatch_data:
  assumes os: "os_data view os" and cfg: "\<not> DEBUG_FORCE_PARTIAL_READS cfg" "\<not> DEBUG_FORCE_PARTIAL_WRITES cfg"
    and D: "data_inv J mp {} q (ring q) (view w)" and Q: "queue_inv n m todo [r] L nb (outstanding (ring q) (flight_of (view w))) q"
    and room: "length (sq_queued (ring_sq (ring q))) + 2 \<le> 2 ^ n"
    and t: "runners q r = Some t" "savedError t = None" "0 < cr_size t" "buffer t \<noteq> 0" "writeOffset t < chunk_end t"
    and st: "addToBatch cfg os r q w = Inr (Success, q', w')"
  shows "data_inv J mp {} q' (ring q') (view w')"
proof -
  have wf: "heap_wf (copyBufferHeap q)" using Q by (simp add: queue_inv_def heap_inv_def)
  obtain f where f: "f \<in> set J" "runner_inv q (ring q) (view w) f r t" using data_inv_runner [OF D t(1)] by auto
  have d: "sourceFd t = cf_id f - 2 \<or> sourceFd t = cf_id f - 1" "destFd t = cf_id f - 2 \<or> destFd t = cf_id f - 1"
    using belongs_fds [OF runner_inv_belongs [OF f(2)]] by simp_all
  obtain q1 w1 q2 w2 where o: "ensureOpened (NDEBUG cfg) os (sourceFd t) q w = Inr (Success, q1, w1)"
    "ensureOpened (NDEBUG cfg) os (destFd t) q1 w1 = Inr (Success, q2, w2)"
    "\<forall>sfd dfd. fd_ready q2 (sourceFd t) sfd \<longrightarrow> fd_ready q2 (destFd t) dfd \<longrightarrow> addToBatch cfg os r q2 w2 = Inr (Success, q', w')"
    using st t(1) by (rule addToBatch_opened)
  have q1: "quiet q q1" by (rule ensureOpened_quiet [OF o(1)])
  then have q2: "quiet q q2" using ensureOpened_quiet [OF o(2)] by (rule quiet_trans)
  have wf1: "heap_wf (copyBufferHeap q1)" using wf q1 by (simp add: quiet_def calm_def)
  note a = open_data [OF os D f(1) d(1) wf o(1)] and a2 = open_data [OF os _ f(1) d(2) wf1 o(2)]
  obtain sfd dfd where rd: "fd_ready q2 (sourceFd t) sfd" "fd_ready q2 (destFd t) dfd" using a a2 by blast
  have rq: "ring q2 = ring q" "runners q2 r = Some t" using q2 t(1) by (simp_all add: quiet_def)
  have "flight_of (view w2) = flight_of (view w)"
    using ensureOpened_keeps [OF os_data_keeps [OF os] o(1)] ensureOpened_keeps [OF os_data_keeps [OF os] o(2)] by simp
  then have Q2: "queue_inv n m todo [r] L nb (outstanding (ring q2) (flight_of (view w2))) q2" using queue_inv_quiet [OF Q q2] rq(1) by simp
  have D2: "data_inv J mp {} q2 (ring q2) (view w2)" using a2(1) [OF a(1)] rq(1) by simp
  have "addToBatch cfg os r q2 w2 = Inr (Success, q', w')" using o(3) rd by blast
  from batch_data [OF cfg D2 Q2 _ rq(2) t(2-5) rd this] room rq(1) show ?thesis by simp
qed

lemma add_copy_data:
  assumes os: "os_data view os" and cfg: "\<not> DEBUG_FORCE_PARTIAL_READS cfg" "\<not> DEBUG_FORCE_PARTIAL_WRITES cfg"
    and S: "sub_inv n m (flying view) todo [r] s" and D: "data_ok view J mp s"
    and room: "size (outstanding (ring (queue s)) (flight_of (view (world s)))) + 2 \<le> 2 ^ n"
    and t: "runners (queue s) r = Some t" "savedError t = None" "cr_size t \<noteq> 0" "writeOffset t < cr_offset t + cr_size t"
      "buffer t \<noteq> 0 \<or> doomed (queue s)"
    and st: "add_copy cfg os r s = Inr (x, s')"
  shows "data_ok view J mp s'"
proof -
  let ?q = "queue s" let ?M = "outstanding (ring ?q) (flight_of (view (world s)))"
  obtain res q1 w1 where a: "addToBatch cfg os r ?q (world s) = Inr (res, q1, w1)" using st by (auto simp: add_copy_def effect_simps)
  have Q: "queue_inv n m todo [r] (copiesPendingContinue s) (nextBuffer s) ?M ?q" using S by (simp add: sub_inv_def Let_def)
  have sq: "sq_inv n (ring_sq (ring ?q))" using Q by (simp add: queue_inv_def ring_inv_def)
  have room': "length (sq_queued (ring_sq (ring ?q))) + 2 \<le> 2 ^ n" using room by (simp add: outstanding_eq)
  show ?thesis
  proof (cases res)
    case (Inl e)
    then obtain q2 where "s' = s\<lparr>queue := onError e q2, world := w1\<rparr>" using st a by (auto simp: add_copy_def effect_simps)
    then show ?thesis by (simp add: data_ok_def doomed_def)
  next
    case (Inr u)
    then have s': "s' = s\<lparr>queue := q1, world := w1, runnersAdded := runnersAdded s + 1\<rparr>" using st a by (auto simp: add_copy_def effect_simps)
    obtain es where es: "batched n r es ?q q1" using addToBatch_effect [OF a t(1) sq room' t(4)] Inr by auto
    then obtain t' where t': "runners q1 = (runners ?q)(r \<mapsto> t')" "same_job t t'" "errored ?q \<longrightarrow> errored q1" using t(1) by (auto simp: batched_def calm_def)
    show ?thesis
    proof (cases "doomed ?q")
      case True
      have "doomed q1" by (rule doomed_calm [OF True t'(3)]) (use t(1,2) t'(1) in auto)
      then show ?thesis using s' by (simp add: data_ok_def)
    next
      case False
      then have D': "data_inv J mp {} ?q (ring ?q) (view (world s))" "buffered ?q (copiesPendingContinue s)" "buffer t \<noteq> 0"
        using D t(5) by (auto simp: data_ok_def)
      have pos: "0 < cr_size t" using queue_inv_runner(5) [OF Q t(1)] t(3) by simp
      have w: "writeOffset t < chunk_end t" using t(4) by (simp add: chunk_end_def)
      have "data_inv J mp {} q1 (ring q1) (view w1)"
        by (rule addToBatch_data [OF os cfg D'(1) Q room' t(1,2) pos D'(3) w]) (use a Inr in simp)
      moreover have "buffered q1 (copiesPendingContinue s)" using D'(2,3) t'(1,2) t(1) by (auto simp: buffered_def same_job_def)
      ultimately show ?thesis using s' by (simp add: data_ok_def)
    qed
  qed
qed

lemma adding_turn_data:
  assumes os: "os_data view os" and cfg: "\<not> DEBUG_FORCE_PARTIAL_READS cfg" "\<not> DEBUG_FORCE_PARTIAL_WRITES cfg"
    and S: "sub_inv n m (flying view) todo [] s" and D: "data_ok view J mp s" and st: "adding_turn cfg os s = Inr (x, s')"
  shows "data_ok view J mp s'"
  using st
proof (cases rule: adding_turn_cases)
  case stop
  then show ?thesis using D by simp
next
  case none
  then show ?thesis using pick_data(1) [OF S D] by blast
next
  case (some r t s1)
  note pk = pick_runner_ok [OF S some(2), unfolded picked_def] and D1 = pick_data [OF S D some(2)]
  have room: "size (outstanding (ring (queue s1)) (flight_of (view (world s1)))) + 2 \<le> 2 ^ n"
    using may_add_room [OF some(1) S] pk by simp
  have t: "cr_size t \<noteq> 0 \<Longrightarrow> writeOffset t < cr_offset t + cr_size t" and inv: "sub_inv n m (flying view) todo [r] s1"
    using pk some(3) by auto
  have sv: "savedError t = None" "cr_size t \<noteq> 0 \<Longrightarrow> buffer t \<noteq> 0 \<or> doomed (queue s1)" using D1(2) some(3) by auto
  show ?thesis
  proof (cases "cr_size t = 0")
    case True
    then show ?thesis using add_empty_data [OF os inv D1(1) some(3) sv(1) True] some(4) by simp
  next
    case False
    then show ?thesis using add_copy_data [OF os cfg inv D1(1) room some(3) sv(1) False t [OF False] sv(2) [OF False]] some(4) by simp
  qed
qed

end
