(* ===== verification/Copy_Files.thy ===== *)
theory Copy_Files
  imports Copy_Turns
begin

text \<open>
  Runs of the whole system with the bytes: the main thread adds files, the threads work and the kernel
  executes requests, in any order. The invariant of \<open>Copy_Data\<close> holds all along, so when the submit
  thread has ended and no error was reported, every file that was added has been copied.
\<close>

section \<open>The main thread adds a file\<close>

lemma todo_of_simps [simp]:
  "todo_of MainIdle c = []" "todo_of MainJoining c = []"
  "todo_of (MainAdding j) c = (if job_counter j = c then job_todo j else [])"
  by (simp_all add: todo_of_def)

lemma data_inv_pc:
  assumes "data_inv J mp X q rng K" "todo_of mp' = todo_of mp" "adding_inv J mp'"
  shows "data_inv J mp' X q rng K"
  using assms unfolding data_inv_def chunk_inv_def parts_apart_def by auto

lemma data_inv_part:
  assumes D: "data_inv J (MainAdding j) {} q rng K" and j: "job_todo j = chunk # chunks" "job_source j + 2 = job_counter j" "job_dest j + 1 = job_counter j"
    and R: "\<forall>r \<in> dom (runners q). r < next_object q" and wf: "heap_wf (copyBufferHeap q)"
    and q': "q' = part_added (job_source j) (job_dest j) (job_align j) (job_counter j) chunk q"
  shows "data_inv J (MainAdding (j\<lparr>job_todo := chunks\<rparr>)) {} q' rng K"
proof (rule data_invI)
  let ?n = "next_object q" let ?t = "fresh_runner (job_source j) (job_dest j) (job_align j) (job_counter j) chunk"
  note D' = data_invD [OF D]
  have fr: "runners q' = (runners q)(?n \<mapsto> ?t)" "fds q' = fds q" "next_object q' = ?n + 1" "copyBufferHeap q' = copyBufferHeap q"
    unfolding q' by (simp_all add: part_added_def)
  have new: "runners q ?n = None" using R by fastforce
  obtain f where f: "f \<in> set J" "cf_id f = job_counter j" "job_align j = cf_align f" "distinct (chunk # chunks)"
    "set (chunk # chunks) \<subseteq> map_prod int int ` set (cf_chunks f)"
    using D'(8) j(1) by (auto simp: adding_inv_def)
  show "files_apart J" "fds_inj (descs K) (fds q')" "chains_inv rng K" using D'(4-6) fr by simp_all
  show "adding_inv J (MainAdding (j\<lparr>job_todo := chunks\<rparr>))" using f by (auto simp: adding_inv_def)
  have old: "cr_offset t \<noteq> fst chunk \<or> cr_size t \<noteq> snd chunk" "(cr_offset t, cr_size t) \<notin> set chunks"
    if "runners q r = Some t" "chunksRemaining t = job_counter j" for r t
    using D'(7) that j(1) unfolding parts_apart_def by force+
  have none: "(cr_offset t, cr_size t) \<notin> set (todo_of (MainAdding (j\<lparr>job_todo := chunks\<rparr>)) (chunksRemaining t))"
    if "runners q' r = Some t" for r t
    using that old f(4) unfolding fr(1) by (auto split: if_splits)
  have "r = r'" if "runners q' r = Some t" "runners q' r' = Some t'" "chunksRemaining t = chunksRemaining t'"
    "(cr_offset t, cr_size t) = (cr_offset t', cr_size t')" for r r' t t'
  proof -
    have "\<not> (r = ?n \<and> r' \<noteq> ?n)" "\<not> (r \<noteq> ?n \<and> r' = ?n)" using that old(1) [of r t] old(1) [of r' t'] unfolding fr(1) by (auto split: if_splits)
    then show ?thesis using that D'(7) unfolding fr(1) parts_apart_def by (auto split: if_splits)
  qed
  then show "parts_apart (runners q') (MainAdding (j\<lparr>job_todo := chunks\<rparr>))" using none unfolding parts_apart_def by blast
  fix g assume g: "g \<in> set J"
  show "file_shape q' g \<and> file_inv (fds q') K g" using file_shape_slab [OF D'(1) [OF g], of q'] D'(2) [OF g] fr wf by simp
  fix c assume c: "c \<in> set (cf_chunks g)"
  have "\<exists>r t. runners q' r = Some t \<and> chunksRemaining t = cf_id g \<and> (cr_offset t, cr_size t) = map_prod int int c"
    if "runners q r = Some t" "chunksRemaining t = cf_id g" "(cr_offset t, cr_size t) = map_prod int int c" for r t
    using that new fr(1) by (intro exI [of _ r] exI [of _ t]) auto
  moreover have "\<exists>r t. runners q' r = Some t \<and> chunksRemaining t = cf_id g \<and> (cr_offset t, cr_size t) = map_prod int int c"
    if "cf_id g = job_counter j" "map_prod int int c = chunk"
    using that fr(1) by (intro exI [of _ ?n] exI [of _ ?t]) simp
  ultimately show "chunk_inv (MainAdding (j\<lparr>job_todo := chunks\<rparr>)) q' K g c"
    using D'(3) [OF g c] fr(2) j(1) unfolding chunk_inv_def by (auto split: if_splits)
next
  let ?n = "next_object q" let ?t = "fresh_runner (job_source j) (job_dest j) (job_align j) (job_counter j) chunk"
  fix r t assume r: "runners q' r = Some t" "r \<notin> {}"
  show "\<exists>f \<in> set J. runner_inv q' rng K f r t"
  proof (cases "r = ?n")
    case True
    then have t: "t = ?t" using r(1) unfolding q' by (simp add: part_added_def)
    obtain f where f: "f \<in> set J" "cf_id f = job_counter j" "job_align j = cf_align f" "chunk \<in> map_prod int int ` set (cf_chunks f)"
      using data_invD(8) [OF D] j(1) by (auto simp: adding_inv_def)
    have "belongs f t" using f j(2,3) t by (simp add: belongs_def)
    then show ?thesis using f(1) t by (intro bexI [of _ f]) (simp_all add: runner_inv_def)
  next
    case False
    then have rq: "runners q r = Some t" "fds q' = fds q" using r(1) unfolding q' by (simp_all add: part_added_def)
    obtain f where "f \<in> set J" "runner_inv q rng K f r t" using data_inv_runner [OF D rq(1)] by auto
    then show ?thesis using runner_inv_frame [OF _ rq(1) r(1) rq(2)] by blast
  qed
qed

text \<open>
  A file may be added when the result of \<open>statx\<close> tells its size, and a block size that the heap
  serves, and when its destination is no other file that is copied from or to.
\<close>

definition may_copy :: "'b kern \<Rightarrow> CopyQueue \<Rightarrow> 'b copy_file list \<Rightarrow> nat \<Rightarrow> path \<Rightarrow> path \<Rightarrow> statx \<Rightarrow> bool" where
  "may_copy K q J a src dest st \<longleftrightarrow> (\<forall>i. files K (c_str src) i \<noteq> None \<longleftrightarrow> i < unat (stx_size st)) \<and>
     (stx_size st \<noteq> 0 \<longrightarrow> stx_blksize st = 2 ^ a \<and> block_serves a q) \<and> c_str src \<noteq> c_str dest \<and>
     (\<forall>f \<in> set J. c_str src \<noteq> cf_dst f \<and> c_str dest \<noteq> cf_dst f \<and> c_str dest \<noteq> cf_src f)"

definition new_file :: "'b kern \<Rightarrow> CopyQueue \<Rightarrow> nat \<Rightarrow> path \<Rightarrow> path \<Rightarrow> statx \<Rightarrow> 'b copy_file" where
  "new_file K q a src dest st = \<lparr>cf_id = next_object q + 2, cf_src = c_str src, cf_dst = c_str dest,
     cf_size = unat (stx_size st), cf_chunks = job_chunks st q, cf_pow = a, cf_data = files K (c_str src)\<rparr>"

lemma job_chunks_concat:
  "addable st q \<Longrightarrow> concat (map (\<lambda>c. [fst c..<fst c + snd c]) (job_chunks st q)) = [0..<unat (stx_size st)]"
  using job_chunks_facts(1) by (simp only: case_prod_unfold)

lemma job_chunks_apart:
  assumes "addable st q" "c \<in> set (job_chunks st q)" "c' \<in> set (job_chunks st q)" "c \<noteq> c'"
  shows "chunk_set c \<inter> chunk_set c' = {}"
proof (cases "[fst c..<fst c + snd c] = [fst c'..<fst c' + snd c']")
  case True
  then have "chunk_set c = chunk_set c'" unfolding chunk_set_def by (metis set_upt)
  moreover have "chunk_set c = {}"
  proof (rule ccontr)
    assume ne: "chunk_set c \<noteq> {}"
    have "length [fst c..<fst c + snd c] = length [fst c'..<fst c' + snd c']" using True by simp
    then have k: "snd c = snd c'" "0 < snd c" using ne by (simp_all add: chunk_set_def)
    then have "fst c = hd [fst c..<fst c + snd c]" "fst c' = hd [fst c'..<fst c' + snd c']" by (simp_all add: hd_upt)
    then have "c = c'" using True k(1) by (metis prod.expand)
    then show False using assms(4) by blast
  qed
  ultimately show ?thesis by simp
next
  case False
  have "distinct (concat (map (\<lambda>c. [fst c..<fst c + snd c]) (job_chunks st q)))"
    using job_chunks_concat [OF assms(1)] by (simp only: distinct_upt)
  then have "set xs \<inter> set ys = {}" if "xs \<in> set (map (\<lambda>c. [fst c..<fst c + snd c]) (job_chunks st q))"
    "ys \<in> set (map (\<lambda>c. [fst c..<fst c + snd c]) (job_chunks st q))" "xs \<noteq> ys" for xs ys
    using that unfolding distinct_concat_iff by blast
  from this [OF _ _ False] assms(2,3) show ?thesis unfolding chunk_set_def by (simp del: upt_conv_Cons)
qed

lemma job_chunks_cover:
  assumes "addable st q"
  shows "{..<unat (stx_size st)} = (\<Union>c \<in> set (job_chunks st q). chunk_set c)"
  using arg_cong [OF job_chunks_concat [OF assms], of set] by (auto simp: chunk_set_def atLeast0LessThan)

lemma job_chunks_distinct:
  assumes "addable st q" "stx_size st \<noteq> 0 \<Longrightarrow> stx_blksize st = 2 ^ a \<and> block_serves a q"
  shows "distinct (job_chunks st q)"
proof (cases "stx_size st = 0")
  case True
  then show ?thesis by (simp add: job_chunks_def file_chunks_def)
next
  case False
  let ?f = "\<lambda>c. [fst c..<fst c + snd c]"
  have "0 < snd c" if "c \<in> set (job_chunks st q)" for c
    using job_chunk(2) [of st q "fst c" "snd c" a "replicate (unat (stx_size st)) ()"] assms that False by simp
  then have "?f c \<noteq> []" if "c \<in> set (job_chunks st q)" for c using that by (simp add: upt_eq_Nil_conv)
  then have "[] \<notin> ?f ` set (job_chunks st q)" unfolding image_iff by metis
  then have "removeAll [] (map ?f (job_chunks st q)) = map ?f (job_chunks st q)" by (auto intro: removeAll_id)
  moreover have "distinct (concat (map ?f (job_chunks st q)))" using job_chunks_concat [OF assms(1)] by (simp only: distinct_upt)
  ultimately have "distinct (map ?f (job_chunks st q))" unfolding distinct_concat_iff by simp
  then show ?thesis by (simp only: distinct_map)
qed

lemma new_file_shape:
  assumes "addable st q" "may_copy K q J a src dest st" "next_object q' = next_object q + 3" "copyBufferHeap q' = copyBufferHeap q"
  shows "file_shape q' (new_file K q a src dest st)"
proof -
  have b: "stx_blksize st = 2 ^ a" "block_serves a q" if "stx_size st \<noteq> 0" using assms(2) that by (simp_all add: may_copy_def)
  have s: "block_serves a q' = block_serves a q" "chunk_size x q' = chunk_size x q" for x
    using assms(4) by (simp_all add: block_serves_def chunk_size_def getHeapAlignment_def getBlockSize_def)
  have "0 < snd c \<and> snd c \<le> unat (chunk_size (2 ^ a) q) \<and>
      chunk_ok (replicate (unat (stx_size st)) ()) (fresh_runner 0 0 (2 ^ a) 0 (map_prod int int c))"
    if "c \<in> set (job_chunks st q)" "stx_size st \<noteq> 0" for c
    using job_chunk [OF assms(1) _ b(2) b(1) _ that(2), of "fst c" "snd c" "replicate (unat (stx_size st)) ()"] that
    by (cases c) simp
  moreover have "job_chunks st q = [(0, 0)]" if "stx_size st = 0" using that by (simp add: job_chunks_def file_chunks_def)
  moreover have "unat (stx_size st) = 0 \<longleftrightarrow> stx_size st = 0" by (simp add: unat_eq_0)
  ultimately show ?thesis
    using job_chunks_apart [OF assms(1)] job_chunks_cover [OF assms(1)] b assms(3) by (auto simp: file_shape_def new_file_def s)
qed

text \<open>The descriptors of the new file, before they are opened.\<close>

definition source_object :: "path \<Rightarrow> QueueFileDescriptor" where
  "source_object src = \<lparr>qfd_path = src, qfd_oflag = O_RDONLY OR O_DIRECT OR O_CLOEXEC, qfd_mode = 0, qfd_fd = NEVER_OPENED_VAL\<rparr>"

definition dest_object :: "path \<Rightarrow> u32 \<Rightarrow> QueueFileDescriptor" where
  "dest_object dest mode = \<lparr>qfd_path = dest, qfd_oflag = O_WRONLY OR O_CREAT OR O_TRUNC OR O_CLOEXEC, qfd_mode = mode, qfd_fd = NEVER_OPENED_VAL\<rparr>"

lemma object_flags: "(qfd_oflag (source_object src) AND O_TRUNC \<noteq> 0) = False" "(qfd_oflag (dest_object dest mode) AND O_TRUNC \<noteq> 0) = True"
  by (simp_all add: source_object_def dest_object_def)

lemma runner_inv_objects:
  assumes "runner_inv q rng K f r t" "runners q r = Some t" "runners q' r = Some t"
    and "fds q' (cf_id f - 2) = fds q (cf_id f - 2)" "fds q' (cf_id f - 1) = fds q (cf_id f - 1)"
  shows "runner_inv q' rng K f r t"
proof -
  have b: "belongs f t" by (rule runner_inv_belongs [OF assms(1)])
  have "copying q rng K f r t (status t) \<Longrightarrow> copying q' rng K f r t (status t)"
    by (rule copying_others [OF _ assms(2,3)]) (use assms(4,5) belongs_fds [OF b] in \<open>auto simp: fd_ready_def dst_open_def\<close>)
  then show ?thesis using assms(1) by (auto simp: runner_inv_def)
qed

lemma data_inv_new_file:
  assumes D: "data_inv J MainIdle {} q rng K" and a: "addable st q" and m: "may_copy K q J a src dest st"
    and q': "runners q' = runners q" "copyBufferHeap q' = copyBufferHeap q" "next_object q' = next_object q + 3"
      "fds q' = (fds q)(next_object q \<mapsto> source_object src, next_object q + 1 \<mapsto> dest_object dest mode)"
    and j: "job_counter j = next_object q + 2" "job_align j = job_alignment st" "job_todo j = map (map_prod int int) (job_chunks st q)"
    and wf: "heap_wf (copyBufferHeap q)"
  shows "data_inv (new_file K q a src dest st # J) (MainAdding j) {} q' rng K"
proof -
  let ?n = "next_object q" let ?f = "new_file K q a src dest st"
  note D' = data_invD [OF D]
  have id: "2 \<le> cf_id g" "cf_id g < ?n" if "g \<in> set J" for g using D'(1) [OF that] by (simp_all add: file_shape_def)
  have fd: "fds q' (cf_id g - 2) = fds q (cf_id g - 2)" "fds q' (cf_id g - 1) = fds q (cf_id g - 1)" if "g \<in> set J" for g
    using id [OF that] q'(4) by auto
  have fid: "cf_id ?f = ?n + 2" "cf_src ?f = c_str src" "cf_dst ?f = c_str dest" "cf_data ?f = files K (c_str src)"
    "cf_size ?f = unat (stx_size st)" "cf_chunks ?f = job_chunks st q" by (simp_all add: new_file_def)
  have own: "chunksRemaining t < ?n" if rt: "runners q r = Some t" for r t
  proof -
    obtain g where "g \<in> set J" "runner_inv q rng K g r t" using data_inv_runner [OF D rt] by auto
    then show ?thesis using id(2) runner_inv_belongs [of q rng K g r t] by (auto simp: belongs_def)
  qed
  have blk: "stx_size st \<noteq> 0 \<Longrightarrow> stx_blksize st = 2 ^ a \<and> block_serves a q" using m by (simp add: may_copy_def)
  show ?thesis
  proof (rule data_invI)
    show "files_apart (?f # J)"
      unfolding files_apart_def
    proof (intro ballI)
      fix g g' assume "g \<in> set (?f # J)" "g' \<in> set (?f # J)"
      then consider "g = ?f" "g' = ?f" | "g = ?f" "g' \<in> set J" | "g \<in> set J" "g' = ?f" | "g \<in> set J" "g' \<in> set J" by auto
      then show "cf_src g \<noteq> cf_dst g' \<and> (g \<noteq> g' \<longrightarrow> (cf_id g + 3 \<le> cf_id g' \<or> cf_id g' + 3 \<le> cf_id g) \<and> cf_dst g \<noteq> cf_dst g')"
      proof cases
        case 1
        then show ?thesis using m fid(2,3) by (simp add: may_copy_def)
      next
        case 2
        then show ?thesis using m fid(1-3) id(2) [of g'] by (auto simp: may_copy_def)
      next
        case 3
        then show ?thesis using m fid(1-3) id(2) [of g] by (auto simp: may_copy_def)
      next
        case 4
        then show ?thesis using D'(4) unfolding files_apart_def by blast
      qed
    qed
    show "fds_inj (descs K) (fds q')"
      using D'(5) unfolding fds_inj_def q'(4) by (auto simp: source_object_def dest_object_def split: if_splits)
    show "chains_inv rng K" by (rule D'(6))
    show "parts_apart (runners q') (MainAdding j)"
      using D'(7) own j(1) unfolding parts_apart_def q'(1) by fastforce
    have "job_alignment st = cf_align ?f"
    proof (cases "stx_size st = 0")
      case False
      have "job_chunks st q \<noteq> []" by (rule job_chunks_facts(3) [OF a])
      then have "(fst (hd (job_chunks st q)), snd (hd (job_chunks st q))) \<in> set (job_chunks st q)" by simp
      from job_chunk(1) [OF a this, of a "replicate (unat (stx_size st)) ()"] False blk show ?thesis
        by (simp add: cf_align_def new_file_def unat_eq_0)
    qed (simp add: cf_align_def new_file_def job_alignment_def)
    moreover have "distinct (map (map_prod int int) (job_chunks st q))"
      using job_chunks_distinct [OF a blk] by (auto simp: distinct_map inj_on_def)
    ultimately show "adding_inv (?f # J) (MainAdding j)" using j fid by (simp add: adding_inv_def)
  next
    fix g assume g: "g \<in> set (?f # J)"
    show "file_shape q' g \<and> file_inv (fds q') K g"
    proof (cases "g = ?f")
      case True
      have "file_inv (fds q') K ?f"
        using m object_flags q'(4) fid unfolding file_inv_def may_copy_def desc_ok_def
        by (auto simp: source_object_def dest_object_def)
      then show ?thesis using True new_file_shape [OF a m q'(3,2)] by simp
    next
      case False
      then have g: "g \<in> set J" using g by simp
      show ?thesis
        using file_shape_slab [OF D'(1) [OF g], of q'] D'(2) [OF g] fd [OF g] q'(2,3) wf by (simp add: file_inv_def)
    qed
    fix c assume c: "c \<in> set (cf_chunks g)"
    show "chunk_inv (MainAdding j) q' K g c"
    proof (cases "g = ?f")
      case True
      then show ?thesis using c j fid by (simp add: chunk_inv_def)
    next
      case False
      then have g: "g \<in> set J" using g by simp
      have "cf_id g \<noteq> ?n + 2" using id(2) [OF g] by simp
      then show ?thesis using D'(3) [OF g c] fd [OF g] q'(1) j(1) by (simp add: chunk_inv_def chunk_done_def dst_open_def)
    qed
  next
    fix r t assume r: "runners q' r = Some t" "r \<notin> {}"
    then have rq: "runners q r = Some t" using q'(1) by simp
    obtain g where g: "g \<in> set J" "runner_inv q rng K g r t" using data_inv_runner [OF D rq] by auto
    then show "\<exists>g \<in> set (?f # J). runner_inv q' rng K g r t" using runner_inv_objects [OF g(2) rq r(1) fd [OF g(1)]] by auto
  qed
qed

lemma new_fd_data:
  assumes "os_data view os" "QueueFileDescriptor_new os lost p fl md q w = Inr (d, q', w')"
  obtains fd used where "d = next_object q"
    "q' = q\<lparr>fds := (fds q)(next_object q \<mapsto> \<lparr>qfd_path = p, qfd_oflag = fl, qfd_mode = md, qfd_fd = fd\<rparr>),
       next_object := next_object q + 1, fileDescriptorsUsed := used\<rparr>"
    "fd = NEVER_OPENED_VAL \<and> view w' = view w \<or> 2 < fd \<and> descs (view w) fd = None \<and> view w' = opened (c_str p) fl fd (view w)"
proof -
  let ?obj = "\<lparr>qfd_path = p, qfd_oflag = fl, qfd_mode = md, qfd_fd = NEVER_OPENED_VAL\<rparr>"
  let ?q = "q\<lparr>next_object := next_object q + 1, fds := (fds q)(next_object q \<mapsto> ?obj)\<rparr>"
  obtain b u where r: "reserveFileDescriptor Low lost ?q = (b, ?q\<lparr>fileDescriptorsUsed := u\<rparr>)"
  proof (cases "fst (reserveFileDescriptor Low lost ?q)")
    case True
    then show thesis using that [of True "fileDescriptorsUsed q + 1"] by (auto simp: reserveFileDescriptor_def Let_def split: if_splits)
  next
    case False
    then show thesis using that [of False "fileDescriptorsUsed q"] by (auto simp: reserveFileDescriptor_def Let_def split: if_splits)
  qed
  obtain res w1 where m: "myOpen os p fl md w = (res, w1)" by fastforce
  note law = myOpen_data [OF assms(1) m] and new = assms(2) [unfolded QueueFileDescriptor_new_def Let_def r]
  show thesis
  proof (cases "b \<and> (\<exists>fd. res = Inr fd)")
    case True
    then obtain fd where fd: "res = Inr fd" by blast
    then show thesis using that [where fd = fd and used = u] new m law True by (auto simp: doOpen_def)
  next
    case False
    then have "view w' = view w" "d = next_object q" "q' = ?q\<lparr>fileDescriptorsUsed := u\<rparr>"
      using new m law by (cases b; cases res; auto simp: doOpen_def)+
    then show thesis using that [where fd = NEVER_OPENED_VAL and used = u] by auto
  qed
qed

text \<open>A new object that was opened, or not.\<close>

lemma data_inv_object:
  assumes D: "data_inv J mp X q rng K" and f: "f \<in> set J" "d = cf_id f - 2 \<or> d = cf_id f - 1" and obj: "fds q d = Some obj" "qfd_fd obj = NEVER_OPENED_VAL"
    and o: "fd = NEVER_OPENED_VAL \<and> K' = K \<or> 2 < fd \<and> descs K fd = None \<and> K' = opened (c_str (qfd_path obj)) (qfd_oflag obj) fd K"
    and wf: "heap_wf (copyBufferHeap q)"
  shows "data_inv J mp X (q\<lparr>fds := (fds q)(d \<mapsto> obj\<lparr>qfd_fd := fd\<rparr>)\<rparr>) rng K'"
proof (cases "fd = NEVER_OPENED_VAL \<and> K' = K")
  case True
  then have "(fds q)(d \<mapsto> obj\<lparr>qfd_fd := fd\<rparr>) = fds q" using obj by (cases obj) auto
  then show ?thesis using D True by simp
next
  case False
  then have "fd_opened d q K (q\<lparr>fds := (fds q)(d \<mapsto> obj\<lparr>qfd_fd := fd\<rparr>)\<rparr>) K'" using o obj by (auto simp: fd_opened_def)
  then show ?thesis by (rule data_inv_opened [OF D _ f]) (use wf in simp_all)
qed

lemma begin_data:
  assumes os: "os_data view os" and D: "data_inv J MainIdle {} q rng (view w)" and a: "addable st q" and m: "may_copy (view w) q J a src dest st"
    and wf: "heap_wf (copyBufferHeap q)" and st: "job_begin os lost src dest st q w = Inr (j, q', w')"
  shows "data_inv (new_file (view w) q a src dest st # J) (MainAdding j) {} q' rng (view w')"
proof -
  let ?n = "next_object q" let ?f = "new_file (view w) q a src dest st"
  let ?so = "O_RDONLY OR O_DIRECT OR O_CLOEXEC" and ?do = "O_WRONLY OR O_CREAT OR O_TRUNC OR O_CLOEXEC"
  obtain d1 q1 w1 d2 q2 where n: "QueueFileDescriptor_new os (fst lost) src ?so 0 q w = Inr (d1, q1, w1)"
    "QueueFileDescriptor_new os (snd lost) dest ?do (stx_mode st) q1 w1 = Inr (d2, q2, w')"
    and j: "case new_counter (int (length (job_chunks st q2))) q2 of (c, q) \<Rightarrow>
          j = \<lparr>job_source = d1, job_dest = d2, job_align = job_alignment st, job_counter = c,
                 job_todo = map (map_prod int int) (job_chunks st q2)\<rparr> \<and> q' = q"
    using st by (auto simp: job_begin_def effect_simps Let_def)
  obtain sfd u1 where s: "d1 = ?n" "q1 = q\<lparr>fds := (fds q)(?n \<mapsto> \<lparr>qfd_path = src, qfd_oflag = ?so, qfd_mode = 0, qfd_fd = sfd\<rparr>),
       next_object := ?n + 1, fileDescriptorsUsed := u1\<rparr>"
    "sfd = NEVER_OPENED_VAL \<and> view w1 = view w \<or> 2 < sfd \<and> descs (view w) sfd = None \<and> view w1 = opened (c_str src) ?so sfd (view w)"
    using new_fd_data [OF os n(1)] by blast
  obtain dfd u2 where d: "d2 = next_object q1"
    "q2 = q1\<lparr>fds := (fds q1)(next_object q1 \<mapsto> \<lparr>qfd_path = dest, qfd_oflag = ?do, qfd_mode = stx_mode st, qfd_fd = dfd\<rparr>),
       next_object := next_object q1 + 1, fileDescriptorsUsed := u2\<rparr>"
    "dfd = NEVER_OPENED_VAL \<and> view w' = view w1 \<or> 2 < dfd \<and> descs (view w1) dfd = None \<and> view w' = opened (c_str dest) ?do dfd (view w1)"
    using new_fd_data [OF os n(2)] by blast
  let ?q0 = "q\<lparr>fds := (fds q)(?n \<mapsto> source_object src, ?n + 1 \<mapsto> dest_object dest (stx_mode st)), next_object := ?n + 3\<rparr>"
  let ?q1 = "?q0\<lparr>fds := (fds ?q0)(?n \<mapsto> (source_object src)\<lparr>qfd_fd := sfd\<rparr>)\<rparr>"
  let ?q2 = "?q1\<lparr>fds := (fds ?q1)(?n + 1 \<mapsto> (dest_object dest (stx_mode st))\<lparr>qfd_fd := dfd\<rparr>)\<rparr>"
  have jc: "job_chunks st q2 = job_chunks st q" by (rule job_chunks_cong) (simp add: d(2) s(2))
  have j': "job_counter j = ?n + 2" "job_align j = job_alignment st" "job_todo j = map (map_prod int int) (job_chunks st q)"
    using j jc by (simp_all add: new_counter_def Let_def d(2) s(2))
  have id: "cf_id ?f - 2 = ?n" "cf_id ?f - 1 = ?n + 1" by (simp_all add: new_file_def)
  have D0: "data_inv (?f # J) (MainAdding j) {} ?q0 rng (view w)"
    by (rule data_inv_new_file [OF D a m _ _ _ _ j' wf, where mode = "stx_mode st"]) simp_all
  have D1: "data_inv (?f # J) (MainAdding j) {} ?q1 rng (view w1)"
    by (rule data_inv_object [OF D0, where f = ?f]) (use id s(3) wf in \<open>simp_all add: source_object_def\<close>)
  have "data_inv (?f # J) (MainAdding j) {} ?q2 rng (view w')"
    by (rule data_inv_object [OF D1, where f = ?f]) (use id d(3) wf in \<open>simp_all add: dest_object_def\<close>)
  moreover have "data_inv (?f # J) (MainAdding j) {} q' rng (view w') = data_inv (?f # J) (MainAdding j) {} ?q2 rng (view w')"
    by (rule data_inv_cong)
      (use j in \<open>simp_all add: new_counter_def Let_def d(2) s(2) source_object_def dest_object_def fun_upd_twist\<close>)
  ultimately show ?thesis by simp
qed

section \<open>Runs of the system\<close>

text \<open>
  A run from the construction of the queue to the end of its submit thread, with the files that have
  been added. The threads and the kernel take turns in any order.
\<close>

inductive data_reach ::
  "Config \<Rightarrow> 'w os \<Rightarrow> 'w sys_enter \<Rightarrow> ('w \<Rightarrow> 'b kern) \<Rightarrow> 'w system \<Rightarrow> 'b copy_file list \<Rightarrow> 'w system \<Rightarrow> bool"
  for cfg os enter view S0 where
  initially: "data_reach cfg os enter view S0 [] S0"
| thread: "data_reach cfg os enter view S0 J S \<Longrightarrow> spc S \<noteq> Returned \<Longrightarrow> thread_step cfg os enter S S' \<Longrightarrow>
     data_reach cfg os enter view S0 J S'"
| kernel: "data_reach cfg os enter view S0 J S \<Longrightarrow>
     data_kernel (ring (queue (sub S)), view (world (sub S))) (rng, view w) \<Longrightarrow>
     data_reach cfg os enter view S0 J (S\<lparr>sub := (sub S)\<lparr>queue := (queue (sub S))\<lparr>ring := rng\<rparr>, world := w\<rparr>\<rparr>)"
| begin_job: "data_reach cfg os enter view S0 J S \<Longrightarrow> mpc S = MainIdle \<Longrightarrow> room_for 3 (queue (sub S)) \<Longrightarrow>
     addable st (queue (sub S)) \<Longrightarrow> may_copy (view (world (sub S))) (queue (sub S)) J a src dest st \<Longrightarrow>
     job_begin os lost src dest st (queue (sub S)) (world (sub S)) = Inr (j, q, w) \<Longrightarrow>
     data_reach cfg os enter view S0 (new_file (view (world (sub S))) (queue (sub S)) a src dest st # J)
       (S\<lparr>sub := (sub S)\<lparr>queue := q, world := w\<rparr>, mpc := MainAdding j\<rparr>)"

lemma data_ok_cong:
  assumes "data_ok view J mp s" "runners (queue s') = runners (queue s)" "fds (queue s') = fds (queue s)" "errored (queue s) \<longrightarrow> errored (queue s')"
    and "next_object (queue s') = next_object (queue s)" "copyBufferHeap (queue s') = copyBufferHeap (queue s)" "ring (queue s') = ring (queue s)"
    and "view (world s') = view (world s)" "set (copiesPendingContinue s') \<subseteq> set (copiesPendingContinue s)"
    and "todo_of mp' = todo_of mp" "adding_inv J mp'"
  shows "data_ok view J mp' s'"
proof (cases "doomed (queue s)")
  case True
  have "doomed (queue s')" by (rule doomed_calm [OF True]) (use assms in auto)
  then show ?thesis by (simp add: data_ok_def)
next
  case False
  then have D: "data_inv J mp {} (queue s) (ring (queue s)) (view (world s))" "buffered (queue s) (copiesPendingContinue s)"
    using assms(1) by (auto simp: data_ok_def)
  have "data_inv J mp' {} (queue s) (ring (queue s)) (view (world s))" by (rule data_inv_pc [OF D(1) assms(10,11)])
  then have "data_inv J mp' {} (queue s') (ring (queue s')) (view (world s'))" using data_inv_cong [of "queue s'" "queue s" J mp'] assms by simp
  moreover have "buffered (queue s') (copiesPendingContinue s')" using D(2) assms(2,9) by (auto simp: buffered_def)
  ultimately show ?thesis by (simp add: data_ok_def)
qed

lemma adding_inv_simps [simp]: "adding_inv J MainIdle" "adding_inv J MainJoining"
  by (simp_all add: adding_inv_def)

text \<open>The thread gives its block back when it returns.\<close>

lemma returns_data:
  assumes S: "sub_inv n m (flying view) (\<lambda>_. 0) [] s" "keepAliveCount (queue s) = 0" and D: "data_ok view J mp s"
    and s': "if nextBuffer s = 0 then s' = s
         else \<exists>h. returnBlock nd (nextBuffer s) (copyBufferHeap (queue s)) = Inr h \<and> s' = s\<lparr>queue := (queue s)\<lparr>copyBufferHeap := h\<rparr>\<rparr>"
  shows "data_ok view J mp (submitter_init (queue s') (world s'))"
proof -
  let ?q = "queue s"
  have wf: "heap_wf (copyBufferHeap ?q)" using S(1) by (simp add: sub_inv_def Let_def queue_inv_def heap_inv_def)
  have "\<exists>h. s' = s\<lparr>queue := ?q\<lparr>copyBufferHeap := h\<rparr>\<rparr> \<and> same_slab (copyBufferHeap ?q) h \<and> heap_wf h"
  proof (cases "nextBuffer s = 0")
    case True
    then show ?thesis using s' wf by (intro exI [of _ "copyBufferHeap ?q"]) (auto simp: same_slab_def)
  next
    case False
    then have "nextBuffer s \<in> held (copyBufferHeap ?q)" using sub_inv_done(3) [OF S] by simp
    from returnBlock_held [OF wf this, of nd] obtain h where
      "returnBlock nd (nextBuffer s) (copyBufferHeap ?q) = Inr h" "heap_wf h" "same_slab (copyBufferHeap ?q) h" by metis
    then show ?thesis using s' False by auto
  qed
  then obtain h where h: "s' = s\<lparr>queue := ?q\<lparr>copyBufferHeap := h\<rparr>\<rparr>" "same_slab (copyBufferHeap ?q) h" "heap_wf h" by blast
  have "data_inv J mp {} (queue s') rng K" if "data_inv J mp {} ?q rng K" for rng K
    by (rule data_inv_frame [OF that]) (use h in simp_all)
  moreover have "doomed (queue s') = doomed ?q" using h(1) by (simp add: doomed_def)
  ultimately show ?thesis using D h(1) by (auto simp: data_ok_def submitter_init_def buffered_def)
qed

lemma add_part_data:
  assumes S: "sys_inv n m (flying view) S" and D: "data_ok view J (mpc S) (sub S)" and j: "mpc S = MainAdding j" "job_todo j = chunk # chunks"
    and p: "job_part nd j chunk (queue (sub S)) = Inr q"
  shows "data_ok view J (MainAdding (j\<lparr>job_todo := chunks\<rparr>)) ((sub S)\<lparr>queue := q\<rparr>)"
proof -
  let ?q = "queue (sub S)" let ?L = "copiesPendingContinue (sub S)"
  have Q: "queue_inv n m (main_todo (mpc S)) [] ?L (nextBuffer (sub S)) (outstanding (ring ?q) (flight_of (view (world (sub S))))) ?q"
    using S by (simp add: sys_inv_def sub_inv_def Let_def)
  have M: "main_inv (spc S) (MainAdding j) (q_state ?q)" using S j(1) by (simp add: sys_inv_def)
  then have q: "q = part_added (job_source j) (job_dest j) (job_align j) (job_counter j) chunk ?q"
    using p by (auto simp: job_part_eq can_add_def main_inv_def split: if_splits)
  have job: "job_source j + 2 = job_counter j" "job_dest j + 1 = job_counter j" using M by (auto simp: main_inv_def)
  have R: "\<forall>r \<in> dom (runners ?q). r < next_object ?q" using Q unfolding queue_inv_def obj_inv_def by blast
  have wf: "heap_wf (copyBufferHeap ?q)" using Q by (simp add: queue_inv_def heap_inv_def)
  have fr: "runners q = (runners ?q)(next_object ?q \<mapsto> fresh_runner (job_source j) (job_dest j) (job_align j) (job_counter j) chunk)"
    "ring q = ring ?q" "errored q = errored ?q" unfolding q by (simp_all add: part_added_def)
  have new: "next_object ?q \<notin> dom (runners ?q)" using R by blast
  show ?thesis
  proof (cases "doomed ?q")
    case True
    have "doomed q" by (rule doomed_calm [OF True]) (use fr new in auto)
    then show ?thesis by (simp add: data_ok_def)
  next
    case False
    then have D': "data_inv J (MainAdding j) {} ?q (ring ?q) (view (world (sub S)))" "buffered ?q ?L" using D j(1) by (auto simp: data_ok_def)
    have "set ?L \<subseteq> dom (runners ?q)" using Q by (auto simp: queue_inv_def wait_inv_def)
    then have "buffered q ?L" using D'(2) new fr(1) by (auto simp: buffered_def)
    then show ?thesis using data_inv_part [OF D'(1) j(2) job R wf q] fr(2) by (simp add: data_ok_def)
  qed
qed

lemma thread_step_data:
  assumes os: "os_data view os" and enter: "enter_data view enter" and cfg: "\<not> DEBUG_FORCE_PARTIAL_READS cfg" "\<not> DEBUG_FORCE_PARTIAL_WRITES cfg"
    and S: "sys_inv n m (flying view) S" and D: "data_ok view J (mpc S) (sub S)" and st: "thread_step cfg os enter S S'" "spc S \<noteq> Returned"
  shows "data_ok view J (mpc S') (sub S')"
proof -
  have sub: "sub_inv n m (flying view) (main_todo (mpc S)) [] (sub S)" using S by (simp add: sys_inv_def)
  from st(1) show ?thesis
  proof cases
    case (adding doneAdding s)
    then show ?thesis using adding_turn_data [OF os cfg sub D] by simp
  next
    case (submitting s)
    then show ?thesis using submit_batch_data [OF enter sub D] by simp
  next
    case (completing again s)
    then show ?thesis using complete_turn_data [OF os cfg(1) sub D] by simp
  next
    case (next_pass s)
    then have "s = sub S" by (auto elim: submit_exit_cases)
    then show ?thesis using next_pass D by (simp add: data_ok_def)
  next
    case (exits code s)
    then have "s = sub S" by (auto elim: submit_exit_cases)
    then show ?thesis using exits D by simp
  next
    case (returns s)
    then obtain e: "isDone (queue (sub S))" "if nextBuffer (sub S) = 0 then s = sub S
         else \<exists>h. returnBlock (NDEBUG cfg) (nextBuffer (sub S)) (copyBufferHeap (queue (sub S))) = Inr h \<and>
           s = (sub S)\<lparr>queue := (queue (sub S))\<lparr>copyBufferHeap := h\<rparr>\<rparr>"
      by (auto elim: submit_exit_cases)
    note c = sys_inv_checked [OF S returns(2) e(1)]
    show ?thesis using returns_data [OF c(2,3) D e(2)] returns(1) by simp
  next
    case (add_part j chunk chunks q)
    then show ?thesis using add_part_data [OF S D] by simp
  next
    case (end_job j)
    then show ?thesis using data_ok_cong [OF D, where s' = "sub S" and mp' = MainIdle] by (auto simp: fun_eq_iff)
  next
    case (error e)
    then show ?thesis by (simp add: data_ok_def doomed_def)
  next
    case (starts a b tty trm q)
    have "runners q = runners (queue (sub S))" "fds q = fds (queue (sub S))" "errored q = errored (queue (sub S))"
      "next_object q = next_object (queue (sub S))" "copyBufferHeap q = copyBufferHeap (queue (sub S))" "ring q = ring (queue (sub S))"
      using starts(4) by (auto simp: start_def Let_def effect_simps)
    then show ?thesis
      using data_ok_cong [OF D, where s' = "submitter_init q (world (sub S))" and mp' = MainIdle] starts by (simp add: submitter_init_def)
  next
    case (joins action q)
    have "runners q = runners (queue (sub S))" "fds q = fds (queue (sub S))" "errored q = errored (queue (sub S))"
      "next_object q = next_object (queue (sub S))" "copyBufferHeap q = copyBufferHeap (queue (sub S))" "ring q = ring (queue (sub S))"
      using joins(4) by (auto simp: join_begin_def effect_simps)
    then show ?thesis using data_ok_cong [OF D, where s' = "(sub S)\<lparr>queue := q\<rparr>" and mp' = MainJoining] joins by (simp add: fun_eq_iff)
  next
    case (joined ok q)
    then show ?thesis using st(2) by simp
  qed
qed

lemma data_reach_inv:
  assumes os: "os_data view os" and enter: "enter_data view enter" and cfg: "\<not> DEBUG_FORCE_PARTIAL_READS cfg" "\<not> DEBUG_FORCE_PARTIAL_WRITES cfg"
    and q0: "fresh_queue n m q0" "taken (view w0) = []"
    and r: "data_reach cfg os enter view (system_init q0 w0) J S"
  shows "sys_inv n m (flying view) S \<and> data_ok view J (mpc S) (sub S)"
  using r
proof induction
  case initially
  have "sq_inv n (ring_sq (ring q0))" "sq_queued (ring_sq (ring q0)) = []" using q0(1) by (simp_all add: fresh_queue_def ring_inv_def)
  then have "sq_visible (ring_sq (ring q0)) = []" using sq_visible_prefix by fastforce
  then have "data_inv [] MainIdle {} q0 (ring q0) (view w0)"
    using q0 by (simp add: data_inv_def fresh_queue_def files_apart_def fds_inj_def chains_inv_def closed_def all_chains_def parts_apart_def)
  moreover have "sys_inv n m (flying view) (system_init q0 w0)" by (rule system_init_inv [OF q0(1)]) (simp add: flight_of_def q0(2))
  ultimately show ?case by (simp add: data_ok_def buffered_def system_init_def submitter_init_def)
next
  case (thread J S S')
  then show ?case
    using thread_step_inv [OF os_data_keeps [OF os] enter_data_law [OF enter]] thread_step_data [OF os enter cfg] by blast
next
  case (kernel J S rng w)
  let ?q = "queue (sub S)" let ?M = "outstanding (ring ?q) (flight_of (view (world (sub S))))"
  have Q: "queue_inv n m (main_todo (mpc S)) [] (copiesPendingContinue (sub S)) (nextBuffer (sub S)) ?M ?q"
    using kernel.IH by (simp add: sys_inv_def sub_inv_def Let_def)
  have "kern_ok n m J (mpc S) ?q (size ?M) (ring ?q, view (world (sub S)))"
    using Q kernel.IH by (auto simp: kern_ok_def ring_ok_def data_ok_def queue_inv_def)
  from data_kernel_ok [OF kernel.hyps(2) this Q]
  have "data_ok view J (mpc S) ((sub S)\<lparr>queue := ?q\<lparr>ring := rng\<rparr>, world := w\<rparr>)"
    using kernel.IH by (auto simp: kern_ok_def data_ok_def buffered_def)
  moreover have "kernel_run (ring ?q, flight_of (view (world (sub S)))) (rng, flight_of (view w))"
    using data_kernel_run [OF kernel.hyps(2)] by simp
  ultimately show ?case using sys_inv_run [of n m "flying view" S rng w] kernel.IH by simp
next
  case (begin_job J S st a src dest lost j q w)
  let ?q = "queue (sub S)" let ?s = "(sub S)\<lparr>queue := q, world := w\<rparr>"
  have inv: "sys_inv n m (flying view) (S\<lparr>sub := ?s, mpc := MainAdding j\<rparr>)"
    using sys_inv_begin [OF _ begin_job.hyps(2,3) os_data_keeps [OF os] begin_job.hyps(4,6)] begin_job.IH by blast
  obtain sfd dfd used where b: "q = job_opened src dest (stx_mode st) sfd dfd (length (job_chunks st ?q)) used ?q"
    using job_begin_eq [of os lost src dest st ?q "world (sub S)"] begin_job.hyps(6) by (metis Inr_inject Pair_inject)
  have fr: "runners q = runners ?q" "ring q = ring ?q" "errored q = errored ?q" unfolding b by (simp_all add: job_opened_def Let_def)
  have wf: "heap_wf (copyBufferHeap ?q)" using begin_job.IH by (simp add: sys_inv_def sub_inv_def Let_def queue_inv_def heap_inv_def)
  have "data_ok view (new_file (view (world (sub S))) ?q a src dest st # J) (MainAdding j) ?s"
  proof (cases "doomed ?q")
    case True
    then show ?thesis using fr by (simp add: data_ok_def doomed_def)
  next
    case False
    then have "data_inv J MainIdle {} ?q (ring ?q) (view (world (sub S)))" "buffered ?q (copiesPendingContinue (sub S))"
      using begin_job.IH begin_job.hyps(2) by (auto simp: data_ok_def)
    then show ?thesis using begin_data [OF os _ begin_job.hyps(4,5) wf begin_job.hyps(6)] fr by (simp add: data_ok_def buffered_def)
  qed
  then show ?case using inv by simp
qed

text \<open>When the submit thread has ended no runner is left and nothing is to be added: every chunk is in its file.\<close>

lemma data_inv_finished:
  assumes D: "data_inv J MainJoining X q rng K" and "runners q = Map.empty" "f \<in> set J"
  shows "files K (cf_dst f) = cf_data f" "files K (cf_src f) = cf_data f"
proof -
  note D' = data_invD [OF D]
  have src: "files K (cf_src f) = cf_data f" "\<forall>i. cf_data f i \<noteq> None \<longleftrightarrow> i < cf_size f"
    using D'(2) [OF assms(3)] by (simp_all add: file_inv_def)
  have shape: "{..<cf_size f} = (\<Union>c \<in> set (cf_chunks f). chunk_set c)" "cf_size f = 0 \<Longrightarrow> cf_chunks f = [(0, 0)]"
    using D'(1) [OF assms(3)] by (simp_all add: file_shape_def)
  have chunk: "chunk_done (fds q) K f c" if "c \<in> set (cf_chunks f)" for c
    using D'(3) [OF assms(3) that] assms(2) by (simp add: chunk_inv_def)
  have "cf_chunks f \<noteq> []" using shape by (cases "cf_size f = 0") auto
  then have tidy: "tidy K f" using chunk [OF hd_in_set] by (simp add: chunk_done_def)
  have "files K (cf_dst f) i = cf_data f i" for i
  proof (cases "i < cf_size f")
    case True
    then obtain c where "c \<in> set (cf_chunks f)" "i \<in> chunk_set c" using shape(1) by blast
    then show ?thesis using chunk src(1) by (auto simp: chunk_done_def)
  next
    case False
    then show ?thesis using tidy src(2) by (metis tidy_def not_less)
  qed
  then show "files K (cf_dst f) = cf_data f" "files K (cf_src f) = cf_data f" using src(1) by auto
qed

lemma data_ok_finished:
  assumes "sys_inv n m (flying view) S" "data_ok view J (mpc S) (sub S)" "spc S = Returned \<or> (\<exists>c. spc S = Exited c)" "\<not> errored (queue (sub S))"
  shows "data_inv J MainJoining {} (queue (sub S)) (ring (queue (sub S))) (view (world (sub S)))" "runners (queue (sub S)) = Map.empty"
proof -
  have M: "main_inv (spc S) (mpc S) (q_state (queue (sub S)))" using assms(1) by (simp add: sys_inv_def)
  then have "q_state (queue (sub S)) = AdditionComplete" using assms(3) by (auto simp: main_inv_def)
  with M have mp: "mpc S = MainJoining" using main_inv_done by simp
  have r: "runners (queue (sub S)) = Map.empty" using assms(1,3) by (auto simp: sys_inv_def at_rest_def)
  then have "\<not> doomed (queue (sub S))" using assms(4) by (simp add: doomed_def)
  then show "data_inv J MainJoining {} (queue (sub S)) (ring (queue (sub S))) (view (world (sub S)))"
    using assms(2) mp by (simp add: data_ok_def)
  show "runners (queue (sub S)) = Map.empty" by (rule r)
qed

end
