(* ===== verification/Copy_Example.thy ===== *)
theory Copy_Example
  imports Copy_Files
begin

text \<open>
  A run of the whole system on a concrete disk: a file of four bytes is added to an idle queue, the
  threads are started and joined, and the kernel reads and writes the file, until the submit thread returns.
\<close>

section \<open>The disk\<close>

definition disk_os :: "char kern os" where
  "disk_os = no_os\<lparr>os_open := \<lambda>p f m K. (if descs K 3 = None then (3, 0, opened p f 3 K) else if descs K 4 = None then (4, 0, opened p f 4 K)
       else (- 1, ENOENT, K)), os_close := \<lambda>fd K. (0, 0, K\<lparr>descs := (descs K)(fd := None)\<rparr>)\<rparr>"

definition disk_enter :: "char kern sys_enter" where
  "disk_enter = (\<lambda>fd n c f g k rng K. (2, 0, rng, K))"

definition text_file :: "string \<Rightarrow> nat \<Rightarrow> char option" where
  "text_file s i = (if i < length s then Some (s ! i) else None)"

definition disk :: "char kern" where
  "disk = \<lparr>bytes = Map.empty, files = (\<lambda>_. Map.empty)(''a'' := text_file ''abcd'', ''b'' := text_file ''stale!''),
     descs = Map.empty, taken = []\<rparr>"

definition four_stat :: statx where
  "four_stat = \<lparr>stx_mode = 0x81A4, stx_size = 4, stx_blksize = 4\<rparr>"

lemma disk_laws: "os_data (\<lambda>K. K) disk_os" "enter_data (\<lambda>K. K) disk_enter"
  by (auto simp: os_data_def enter_data_def disk_os_def disk_enter_def no_os_def split: if_splits)

abbreviation reaches :: "char copy_file list \<Rightarrow> char kern system \<Rightarrow> bool" where
  "reaches \<equiv> data_reach (Config_default False) disk_os disk_enter (\<lambda>K. K) (system_init idle_queue disk)"

lemma reaches_thread:
  "reaches J S \<Longrightarrow> thread_step (Config_default False) disk_os disk_enter S S' \<Longrightarrow> spc S \<noteq> Returned \<Longrightarrow> reaches J S'"
  by (rule data_reach.thread)

section \<open>The main thread\<close>

definition four_job :: job where
  "four_job = \<lparr>job_source = 0, job_dest = 1, job_align = 4, job_counter = 2, job_todo = [(0, 4)]\<rparr>"

definition opened_disk :: "char kern" where
  "opened_disk = disk\<lparr>files := (files disk)(''b'' := Map.empty), descs := [3 \<mapsto> ''a'', 4 \<mapsto> ''b'']\<rparr>"

lemma four_serves: "block_serves 2 idle_queue" "chunk_size 4 idle_queue = 8192"
  using idle_laws(3)
  by (auto simp: block_serves_def fresh_queue_def idle_queue_def CopyQueue_init_def getHeapAlignment_def getBlockSize_def chunk_size_def
      intro!: exI [of _ 12])

lemma four_chunks: "job_chunks four_stat idle_queue = [(0, 4)]"
  using four_serves(2) by (simp add: job_chunks_def file_chunks_def four_stat_def chunks_from.simps)

lemma four_begin:
  "job_begin disk_os (False, False) ''a'' ''b'' four_stat idle_queue disk =
     Inr (four_job, job_opened ''a'' ''b'' 0x81A4 3 4 1 4 idle_queue, opened_disk)"
proof -
  have c: "job_chunks four_stat q = [(0, 4)]" if "copyBufferHeap q = copyBufferHeap idle_queue" for q
    using four_chunks job_chunks_cong [OF that] by simp
  have o: "myOpen disk_os ''a'' (O_RDONLY OR O_DIRECT OR O_CLOEXEC) 0 disk = (Inr 3, disk\<lparr>descs := [3 \<mapsto> ''a'']\<rparr>)"
    "myOpen disk_os ''b'' (O_WRONLY OR O_CREAT OR O_TRUNC OR O_CLOEXEC) 0x81A4 (disk\<lparr>descs := [3 \<mapsto> ''a'']\<rparr>) = (Inr 4, opened_disk)"
    by (simp_all add: myOpen_def disk_os_def no_os_def disk_def opened_disk_def opened_def numeral_eq_Suc Let_def c_str_def)
  then show ?thesis
    using c by (simp add: job_begin_def QueueFileDescriptor_new_def reserveFileDescriptor_def doOpen_def Let_def new_counter_def job_opened_def
        four_job_def job_alignment_def four_stat_def idle_queue_def CopyQueue_init_def RESERVED_HIGH_PRIORITY_FD_COUNT_def RESERVED_FD_COUNT_def)
qed

definition four_file :: "char copy_file" where
  "four_file = new_file disk idle_queue 2 ''a'' ''b'' four_stat"

definition four_added :: CopyQueue where
  "four_added = part_added 0 1 4 2 (0, 4) (job_opened ''a'' ''b'' 0x81A4 3 4 1 4 idle_queue)"

definition four_joined :: CopyQueue where
  "four_joined = four_added\<lparr>q_state := AdditionComplete\<rparr>"

lemmas four_defs = four_joined_def four_added_def part_added_def job_opened_def Let_def idle_queue_def CopyQueue_init_def

lemma four_main: "reaches [four_file] \<lparr>sub = submitter_init four_joined opened_disk, spc = Adding, mpc = MainJoining\<rparr>"
proof -
  let ?cfg = "Config_default False" and ?q = "job_opened ''a'' ''b'' 0x81A4 3 4 1 4 idle_queue"
  let ?T = "\<lambda>q sp mp. \<lparr>sub = submitter_init q opened_disk, spc = sp, mpc = mp\<rparr>"
  let ?thr = "thread_step ?cfg disk_os disk_enter"
  have add: "addable four_stat idle_queue" "room_for 3 idle_queue"
    using four_serves(2) by (simp_all add: addable_def can_add_def four_stat_def room_for_def idle_queue_def CopyQueue_init_def)
  have may: "may_copy disk idle_queue [] 2 ''a'' ''b'' four_stat"
    using four_serves(1) by (simp add: may_copy_def disk_def text_file_def four_stat_def c_str_def)
  have r0: "reaches [] (system_init idle_queue disk)" by (rule data_reach.initially)
  have "reaches [four_file] (?T ?q NotStarted (MainAdding four_job))"
    using data_reach.begin_job [OF r0, where st = four_stat and a = 2 and src = "''a''" and dest = "''b''" and
        lost = "(False, False)" and j = four_job and q = ?q and w = opened_disk]
      add may four_begin by (simp add: system_init_def submitter_init_def four_file_def)
  moreover have "can_add ?q" "room_for 1 ?q" by (simp_all add: can_add_def room_for_def four_defs)
  then have part: "job_part (NDEBUG ?cfg) four_job (0, 4) ?q = Inr four_added" "room_for 1 ?q"
    by (simp_all add: job_part_eq four_job_def four_added_def)
  have "?thr (?T ?q NotStarted (MainAdding four_job)) (?T four_added NotStarted (MainAdding (four_job\<lparr>job_todo := []\<rparr>)))"
    using thread_step.add_part [of "?T ?q NotStarted (MainAdding four_job)" four_job "(0, 4)" "[]" ?cfg four_added] part
    by (simp add: submitter_init_def four_job_def)
  ultimately have "reaches [four_file] (?T four_added NotStarted (MainAdding (four_job\<lparr>job_todo := []\<rparr>)))"
    by (rule reaches_thread) simp
  moreover have "?thr (?T four_added NotStarted (MainAdding (four_job\<lparr>job_todo := []\<rparr>))) (?T four_added NotStarted MainIdle)"
    using thread_step.end_job [of "?T four_added NotStarted (MainAdding (four_job\<lparr>job_todo := []\<rparr>))"] by simp
  ultimately have "reaches [four_file] (?T four_added NotStarted MainIdle)" by (rule reaches_thread) simp
  moreover have "start 0 0 False False four_added = Inr (four_added\<lparr>q_state := Running\<rparr>)" by (simp add: start_def four_defs)
  then have "?thr (?T four_added NotStarted MainIdle) (?T (four_added\<lparr>q_state := Running\<rparr>) Adding MainIdle)"
    using thread_step.starts [of "?T four_added NotStarted MainIdle" 0 0 False False "four_added\<lparr>q_state := Running\<rparr>"]
    by (simp add: submitter_init_def)
  ultimately have "reaches [four_file] (?T (four_added\<lparr>q_state := Running\<rparr>) Adding MainIdle)" by (rule reaches_thread) simp
  moreover have "join_begin (NDEBUG ?cfg) Return (four_added\<lparr>q_state := Running\<rparr>) = Inr four_joined"
    by (simp add: join_begin_def four_defs)
  then have "?thr (?T (four_added\<lparr>q_state := Running\<rparr>) Adding MainIdle) (?T four_joined Adding MainJoining)"
    using thread_step.joins [of "?T (four_added\<lparr>q_state := Running\<rparr>) Adding MainIdle" ?cfg Return four_joined]
    by (simp add: submitter_init_def)
  ultimately show ?thesis by (rule reaches_thread) simp
qed

section \<open>The submit thread takes the runner\<close>

definition held_runner :: CopyRunner where
  "held_runner = (fresh_runner 0 1 4 2 (0, 4))\<lparr>buffer := 8192, bufferAligned := 8192\<rparr>"

definition four_given :: CopyQueue where
  "four_given = four_joined\<lparr>copyBufferHeap := (copyBufferHeap four_joined)\<lparr>usedList := [True]\<rparr>, runners := [3 \<mapsto> held_runner],
     copiesPendingStart := [], copiesPendingStartCount := 0\<rparr>"

text \<open>The queue while the runner works: its ring, its runner and the counters change.\<close>

definition working :: "io_uring \<Rightarrow> CopyRunner \<Rightarrow> u32 \<Rightarrow> u64 \<Rightarrow> CopyQueue" where
  "working rng t k copied = four_given\<lparr>ring := rng, runners := [3 \<mapsto> t], submissionsRunning := k, totalBytesCopied := copied\<rparr>"

definition works :: "io_uring \<Rightarrow> CopyRunner \<Rightarrow> u32 \<Rightarrow> u64 \<Rightarrow> char kern \<Rightarrow> submit_pc \<Rightarrow> char kern system" where
  "works rng t k copied K sp = \<lparr>sub = \<lparr>queue = working rng t k copied, world = K, nextBuffer = 0, copiesPendingContinue = [], runnersAdded = 1\<rparr>,
     spc = sp, mpc = MainJoining\<rparr>"

lemma working_simps [simp]:
  "(working rng t k c)\<lparr>ring := rng'\<rparr> = working rng' t k c" "(working rng t k c)\<lparr>runners := [3 \<mapsto> t']\<rparr> = working rng t' k c"
  "(working rng t k c)\<lparr>submissionsRunning := k'\<rparr> = working rng t k' c" "(working rng t k c)\<lparr>totalBytesCopied := c'\<rparr> = working rng t k c'"
  "ring (working rng t k c) = rng" "runners (working rng t k c) = [3 \<mapsto> t]" "submissionsRunning (working rng t k c) = k"
  "totalBytesCopied (working rng t k c) = c"
  by (cases four_given, simp add: working_def)+

lemma four_pick:
  "pick_runner (NDEBUG (Config_default False)) (submitter_init four_joined opened_disk) =
     Inr (Some 3, submitter_init four_given opened_disk)"
proof -
  have g: "getBlock (copyBufferHeap four_joined) = ((copyBufferHeap four_joined)\<lparr>usedList := [True]\<rparr>, Some 8192)"
    by (simp add: four_defs getBlock_def getBlock_from.simps getBlock_body_def block_addr_def Let_def)
  have al: "aligned_address 8192 4 = 8192" by (simp add: aligned_address_def)
  have r: "runners four_joined = [3 \<mapsto> fresh_runner 0 1 4 2 (0, 4)]" "copiesPendingStart four_joined = [3]" "copiesPendingStartCount four_joined = 1"
    "fileDescriptorCap four_joined = 10" "fileDescriptorsUsed four_joined = 4" "blockSize (copyBufferHeap four_joined) = 8192"
    by (simp_all add: four_defs)
  have f: "fetch_buffer (submitter_init four_joined opened_disk) =
      (submitter_init four_joined opened_disk)\<lparr>queue := four_joined\<lparr>copyBufferHeap := (copyBufferHeap four_joined)\<lparr>usedList := [True]\<rparr>\<rparr>, nextBuffer := 8192\<rparr>"
    using g by (simp add: fetch_buffer_def submitter_init_def)
  show ?thesis
    unfolding pick_runner_def f
    using r al
    by (simp add: pick_continue_def submitter_init_def pick_start_def Let_def RESERVED_HIGH_PRIORITY_FD_COUNT_def with_runner_def needsBuffer_def
        giveBuffer_def four_given_def held_runner_def)
qed

lemma four_ok: "chunk_ok ''abcd'' held_runner"
  by (simp add: chunk_ok_def held_runner_def)

abbreviation four_rd :: io_uring_sqe where
  "four_rd \<equiv> rd_req 3 3 held_runner"

abbreviation four_wr :: io_uring_sqe where
  "four_wr \<equiv> wr_req 3 4 held_runner"

lemma four_reqs: "requests held_runner 3 3 4 = [four_rd, four_wr]" "sqe_len four_rd = 4" "sqe_len four_wr = 4" "sqe_off four_rd = 0" "sqe_off four_wr = 0"
  "sqe_addr four_rd = 8192" "sqe_addr four_wr = 8192" "link_chains [four_rd, four_wr] = [[four_rd, four_wr]]"
proof -
  show "requests held_runner 3 3 4 = [four_rd, four_wr]" by (subst requests_eq [OF four_ok]) (simp_all add: held_runner_def chunk_end_def)
  show "sqe_len four_rd = 4" "sqe_len four_wr = 4" "sqe_off four_rd = 0" "sqe_off four_wr = 0" "sqe_addr four_rd = 8192" "sqe_addr four_wr = 8192"
    unfolding rd_req_fields wr_req_fields by (simp_all add: held_runner_def chunk_end_def round_up_def)
  show "link_chains [four_rd, four_wr] = [[four_rd, four_wr]]" by (simp add: rd_req_fields(4) wr_req_fields(4))
qed

lemma idle_ring_facts: "ring_inv 1 1 idle_ring" "sq_queued (ring_sq idle_ring) = []" "cq_pending (ring_cq idle_ring) = []"
  using idle_laws(3) by (simp_all add: fresh_queue_def idle_queue_def CopyQueue_init_def)

lemma four_batch:
  obtains rng where "reaches [four_file] (works rng (held_runner\<lparr>jobsRunning := 2\<rparr>) 2 0 opened_disk Submitting)"
    "sq_queued (ring_sq rng) = [four_rd, four_wr]" "ring_inv 1 1 rng" "cq_pending (ring_cq rng) = []"
proof -
  let ?cfg = "Config_default False" let ?w = opened_disk
  have cfg: "\<not> DEBUG_FORCE_PARTIAL_READS ?cfg" "\<not> DEBUG_FORCE_PARTIAL_WRITES ?cfg" by (simp_all add: Config_default_def)
  have ring: "ring four_given = idle_ring" "submissionsRunning four_given = 0" "runners four_given = [3 \<mapsto> held_runner]" "totalBytesCopied four_given = 0"
    by (simp_all add: four_given_def four_defs)
  have can: "can_submit 1 3 3 4 held_runner four_given"
    using idle_ring_facts ring by (simp add: can_submit_def ring_inv_def fd_ready_def held_runner_def) (simp add: four_given_def four_defs)
  obtain q where q: "addToBatch ?cfg disk_os 3 four_given ?w = Inr (Success, q, ?w)"
    "sq_queued (ring_sq (ring q)) = sq_queued (ring_sq (ring four_given)) @ requests held_runner 3 3 4"
    "sq_inv 1 (ring_sq (ring q))" "ring_cq (ring q) = ring_cq (ring four_given)"
    "q = four_given\<lparr>ring := ring q, runners := (runners four_given)(3 \<mapsto> held_runner\<lparr>jobsRunning := int (length (requests held_runner 3 3 4))\<rparr>),
       submissionsRunning := submissionsRunning four_given + of_nat (length (requests held_runner 3 3 4))\<rparr>"
    using addToBatch_requests [OF can cfg, of disk_os ?w] by blast
  have eq: "q = working (ring q) (held_runner\<lparr>jobsRunning := 2\<rparr>) 2 0"
    by (subst q(5)) (simp add: working_def ring four_reqs(1))
  have kf: "sq_kflags (ring_sq (ring q)) = sq_kflags (ring_sq (ring four_given))"
    using addToBatch_effect [OF q(1), of held_runner 1] ring idle_ring_facts by (auto simp: ring_inv_def held_runner_def batched_def)
  have inv: "ring_inv 1 1 (ring q)" using q(3,4) kf idle_ring_facts(1) ring(1) by (simp add: ring_inv_def cq_ring_needs_flush_def)
  have pend: "cq_pending (ring_cq (ring q)) = []" "sq_queued (ring_sq (ring q)) = [four_rd, four_wr]"
    using q(2,4) ring(1) idle_ring_facts(2,3) four_reqs(1) by simp_all
  let ?s = "submitter_init four_joined ?w"
  have may: "may_add ?s" by (simp add: may_add_def submitter_init_def four_defs MAX_JOBS_PER_RUNNER_def)
  let ?s1 = "(submitter_init four_given ?w)\<lparr>queue := q, runnersAdded := 1\<rparr>"
  have "adding_turn ?cfg disk_os ?s = Inr (False, ?s1)"
    using may four_pick q(1) ring(3)
    by (simp add: adding_turn_def with_runner_def add_copy_def submitter_init_def held_runner_def)
  then have "thread_step ?cfg disk_os disk_enter \<lparr>sub = ?s, spc = Adding, mpc = MainJoining\<rparr> \<lparr>sub = ?s1, spc = Adding, mpc = MainJoining\<rparr>"
    using thread_step.adding [of "\<lparr>sub = ?s, spc = Adding, mpc = MainJoining\<rparr>" ?cfg disk_os False ?s1 disk_enter] by simp
  with four_main have r: "reaches [four_file] \<lparr>sub = ?s1, spc = Adding, mpc = MainJoining\<rparr>" by (rule reaches_thread) simp
  have "\<not> may_add ?s1" by (subst eq) (simp add: may_add_def submitter_init_def working_def four_given_def)
  then have "adding_turn ?cfg disk_os ?s1 = Inr (True, ?s1)" by (simp add: adding_turn_def)
  then have "thread_step ?cfg disk_os disk_enter \<lparr>sub = ?s1, spc = Adding, mpc = MainJoining\<rparr> \<lparr>sub = ?s1, spc = Submitting, mpc = MainJoining\<rparr>"
    using thread_step.adding [of "\<lparr>sub = ?s1, spc = Adding, mpc = MainJoining\<rparr>" ?cfg disk_os True ?s1 disk_enter] by simp
  with r have "reaches [four_file] \<lparr>sub = ?s1, spc = Submitting, mpc = MainJoining\<rparr>" by (rule reaches_thread) simp
  moreover have "?s1 = \<lparr>queue = working (ring q) (held_runner\<lparr>jobsRunning := 2\<rparr>) 2 0, world = ?w, nextBuffer = 0, copiesPendingContinue = [], runnersAdded = 1\<rparr>"
    by (simp add: submitter_init_def eq [symmetric])
  ultimately show thesis using that pend inv by (simp add: works_def)
qed

section \<open>The kernel copies the bytes\<close>

lemma reaches_kernel:
  assumes "reaches J (works rng t k c K sp)" "data_kernel (rng, K) (rng', K')"
  shows "reaches J (works rng' t k c K' sp)"
  using data_reach.kernel [OF assms(1), of rng' K'] assms(2) by (simp add: works_def)

lemma post_room:
  assumes "ring_inv n m rng" "length (cq_pending (ring_cq rng)) < 2 ^ m"
  obtains rng' where "ring_post rng e = Some rng'" "ring_inv n m rng'" "cq_pending (ring_cq rng') = cq_pending (ring_cq rng) @ [e]"
proof -
  have cq: "cq_inv m (ring_cq rng)" using assms(1) by (simp add: ring_inv_def)
  then have "m < 32" "cq_kring_entries (ring_cq rng) = 2 ^ m" by (simp_all add: cq_inv_def ring_size_def)
  then have "unat (cq_kring_entries (ring_cq rng)) = 2 ^ m" by (simp add: unat_power_two)
  then obtain cq' where p: "cq_post (ring_cq rng) e = Some cq'" using assms(2) by (auto simp: cq_post_def)
  show thesis
    using that [of "rng\<lparr>ring_cq := cq'\<rparr>"] p cq_post_pending [OF cq p] assms(1) by (simp add: ring_post_def ring_inv_def cq_ring_needs_flush_def)
qed

lemma four_submit:
  obtains rng where "reaches [four_file] (works rng (held_runner\<lparr>jobsRunning := 2\<rparr>) 2 0 opened_disk Completing)"
    "sq_visible (ring_sq rng) = [four_rd, four_wr]" "ring_inv 1 1 rng" "cq_pending (ring_cq rng) = []"
proof -
  let ?t = "held_runner\<lparr>jobsRunning := 2\<rparr>" let ?K = opened_disk
  obtain rng where r: "reaches [four_file] (works rng ?t 2 0 ?K Submitting)" "sq_queued (ring_sq rng) = [four_rd, four_wr]" "ring_inv 1 1 rng"
    "cq_pending (ring_cq rng) = []" by (rule four_batch)
  have sq: "sq_inv 1 (ring_sq rng)" using r(3) by (simp add: ring_inv_def)
  obtain sq' c where fl: "io_uring_flush_sq_sq (ring_sq rng) = (sq', c)" by fastforce
  let ?rng = "rng\<lparr>ring_sq := sq'\<rparr>"
  have e: "sq' = (ring_sq rng)\<lparr>sq_array := sq_array sq', sq_ktail := sq_sqe_tail (ring_sq rng), sq_sqe_head := sq_sqe_tail (ring_sq rng)\<rparr>"
    "c = sint (sq_sqe_tail (ring_sq rng) - sq_khead (ring_sq rng))" "sq_inv 1 sq'" using io_uring_flush_sq_sq_eq [OF sq fl] by blast+
  have "sq_kflags sq' = sq_kflags (ring_sq rng)" by (subst e(1)) simp
  then have inv: "ring_inv 1 1 ?rng" using r(3) e(3) by (simp add: ring_inv_def cq_ring_needs_flush_def)
  have "unat (sq_sqe_tail (ring_sq rng) - sq_khead (ring_sq rng)) = 2" using arg_cong [OF r(2), of length] by (simp add: sq_queued_def)
  then have "sq_sqe_tail (ring_sq rng) - sq_khead (ring_sq rng) = 2" by (simp add: word_unat_eq_iff)
  then have c: "c = 2" using e(2) by simp
  have "io_uring_submit disk_enter rng ?K = (2, ?rng, ?K)"
    using fl c by (auto simp: io_uring_submit_def io_uring_submit_and_wait_def io_uring_flush_sq_def io_uring_submit_internal_def Let_def
        disk_enter_def split: prod.splits)
  then have "submit_retry disk_enter rng ?K = Some (2, ?rng, ?K)" by (subst submit_retry.simps) simp
  then have "submit_batch disk_enter (sub (works rng ?t 2 0 ?K Submitting)) = Inr (sub (works ?rng ?t 2 0 ?K Completing))"
    by (simp add: submit_batch_def works_def)
  then have "thread_step (Config_default False) disk_os disk_enter (works rng ?t 2 0 ?K Submitting) (works ?rng ?t 2 0 ?K Completing)"
    using thread_step.submitting [of "works rng ?t 2 0 ?K Submitting" disk_enter] by (simp add: works_def)
  with r(1) have "reaches [four_file] (works ?rng ?t 2 0 ?K Completing)" by (rule reaches_thread) (simp add: works_def)
  then show thesis using that [of ?rng] flush_publishes(2) [OF sq fl] r(2,4) inv by simp
qed

definition read_disk :: "char kern" where
  "read_disk = opened_disk\<lparr>bytes := write_mem 8192 (map Some ''abcd'') (bytes opened_disk), taken := [[four_wr]]\<rparr>"

definition done_disk :: "char kern" where
  "done_disk = read_disk\<lparr>files := (files read_disk)(''b'' := write_file 0 (read_mem 8192 4 (bytes read_disk)) (files read_disk ''b'')), taken := []\<rparr>"

lemma four_kernel:
  obtains rng where "reaches [four_file] (works rng (held_runner\<lparr>jobsRunning := 2\<rparr>) 2 0 done_disk Completing)"
    "ring_inv 1 1 rng" "cq_pending (ring_cq rng) = [reply (event_ptr 3 Read, 4), reply (event_ptr 3 Write, 4)]"
proof -
  let ?t = "held_runner\<lparr>jobsRunning := 2\<rparr>" and ?K = opened_disk let ?K1 = "opened_disk\<lparr>taken := [[four_rd, four_wr]]\<rparr>"
  obtain rng where r: "reaches [four_file] (works rng ?t 2 0 ?K Completing)" "sq_visible (ring_sq rng) = [four_rd, four_wr]" "ring_inv 1 1 rng"
    "cq_pending (ring_cq rng) = []" by (rule four_submit)
  let ?r1 = "rng\<lparr>ring_sq := sq_consume 2 (ring_sq rng)\<rparr>"
  have "data_kernel (rng, ?K) (?r1, ?K1)"
    using takes [of rng "[four_rd, four_wr]" "[]" ?K] r(2) four_reqs(8) by (simp add: opened_disk_def disk_def numeral_2_eq_2)
  with r(1) have r1: "reaches [four_file] (works ?r1 ?t 2 0 ?K1 Completing)" by (rule reaches_kernel)
  have sq: "sq_inv 1 (ring_sq rng)" "2 \<le> length (sq_visible (ring_sq rng))" using r(2,3) by (simp_all add: ring_inv_def)
  have i1: "ring_inv 1 1 ?r1" using r(3) sq_consume_inv(1) [OF sq] by (simp add: ring_inv_def cq_ring_needs_flush_def sq_consume_def)
  obtain r2 where p2: "ring_post ?r1 (reply (event_ptr 3 Read, 4)) = Some r2" "ring_inv 1 1 r2" "cq_pending (ring_cq r2) = [reply (event_ptr 3 Read, 4)]"
    by (rule post_room [OF i1, where e = "reply (event_ptr 3 Read, 4)"]) (use r(4) in simp_all)
  have "executes four_rd ?K1 (int 4) (?K1\<lparr>bytes := write_mem (sqe_addr four_rd) (map (files ?K1 ''a'') [unat (sqe_off four_rd)..<unat (sqe_off four_rd) + 4]) (bytes ?K1)\<rparr>)"
    by (rule reads) (simp_all add: rd_req_fields(2) req_fd four_reqs opened_disk_def disk_def text_file_def)
  moreover have "map (files ?K1 ''a'') [unat (sqe_off four_rd)..<unat (sqe_off four_rd) + 4] = map Some ''abcd''"
    by (simp add: four_reqs opened_disk_def disk_def text_file_def upt_rec)
  ultimately have "executes four_rd ?K1 4 (?K1\<lparr>bytes := write_mem 8192 (map Some ''abcd'') (bytes ?K1)\<rparr>)" by (simp add: four_reqs)
  from runs [OF _ this, of "[]" "[four_wr]" "[]" "[four_wr]" "[(event_ptr 3 Read, 4)]" ?r1 r2] p2(1)
  have "data_kernel (?r1, ?K1) (r2, read_disk)"
    by (simp add: finish_request_def rd_req_fields(1) four_reqs read_disk_def opened_disk_def disk_def)
  with r1 have r2: "reaches [four_file] (works r2 ?t 2 0 read_disk Completing)" by (rule reaches_kernel)
  obtain r3 where p3: "ring_post r2 (reply (event_ptr 3 Write, 4)) = Some r3" "ring_inv 1 1 r3"
    "cq_pending (ring_cq r3) = [reply (event_ptr 3 Read, 4), reply (event_ptr 3 Write, 4)]"
    by (rule post_room [OF p2(2), where e = "reply (event_ptr 3 Write, 4)"]) (use p2(3) in simp_all)
  have "executes four_wr read_disk (int 4) (read_disk\<lparr>files := (files read_disk)(''b'' := write_file (unat (sqe_off four_wr)) (read_mem (sqe_addr four_wr) 4 (bytes read_disk)) (files read_disk ''b''))\<rparr>)"
    by (rule writes) (simp_all add: wr_req_fields(2) req_fd four_reqs read_disk_def opened_disk_def)
  then have "executes four_wr read_disk 4 (done_disk\<lparr>taken := [[four_wr]]\<rparr>)" by (simp add: four_reqs done_disk_def read_disk_def opened_disk_def disk_def)
  from runs [OF _ this, of "[]" "[]" "[]" "[]" "[(event_ptr 3 Write, 4)]" r2 r3] p3(1)
  have "data_kernel (r2, read_disk) (r3, done_disk)"
    by (simp add: finish_request_def wr_req_fields(1,4) four_reqs read_disk_def done_disk_def)
  with r2 have "reaches [four_file] (works r3 ?t 2 0 done_disk Completing)" by (rule reaches_kernel)
  then show thesis using that p3(2,3) by blast
qed

section \<open>The completions\<close>

lemma peek_head:
  assumes "ring_inv n m rng" "list_all app_cqe (cq_pending (ring_cq rng))" "cq_pending (ring_cq rng) = c # cs"
  obtains i where "io_uring_peek_cqe enter rng w = Some (0, Some i, rng, w)" "cq_cqes (ring_cq rng) ! i = c"
proof -
  obtain r1 c1 k1 e1 where p: "io_uring_peek_cqe_internal rng = (r1, c1, k1, e1)" by (metis prod_cases4)
  have "\<not> cq_ring_needs_flush rng" using assms(1) by (simp add: ring_inv_def)
  from peek_no_syscall [OF this p, of enter w] obtain err cqe rng' w' where q: "io_uring_peek_cqe enter rng w = Some (err, cqe, rng', w')" by blast
  from peek_app [OF assms(1,2) q] show thesis using that q assms(3) by auto
qed

lemma seen_pending:
  assumes "cq_pending (ring_cq rng) = c # cs"
  shows "cq_pending (ring_cq (io_uring_cqe_seen rng (Some i))) = cs"
proof -
  have "cq_ktail (ring_cq rng) - cq_khead (ring_cq rng) \<noteq> 0" using assms cq_pending_Nil [of "ring_cq rng"] by auto
  then show ?thesis using cq_advance_1(1) [of rng] assms by (simp add: io_uring_cqe_seen_def)
qed

lemma four_events: "event_type (event_ptr 3 Read) = Read" "event_type (event_ptr 3 Write) = Write"
  "event_runner (event_ptr 3 Read) = 3" "event_runner (event_ptr 3 Write) = 3" "app_cqe (reply (event_ptr 3 ty, k))"
proof -
  show e: "event_type (event_ptr 3 Read) = Read" "event_type (event_ptr 3 Write) = Write" "event_runner (event_ptr 3 Read) = 3" "event_runner (event_ptr 3 Write) = 3"
    by (rule event_ptr_inj; simp)+
  have "event_runner (event_ptr 3 ty) < 2 ^ 62" using e(3,4) by (cases ty) simp_all
  then show "app_cqe (reply (event_ptr 3 ty, k))" using event_not_timeout by (simp add: app_cqe_def reply_def)
qed

lemma four_read_done:
  obtains rng where "reaches [four_file] (works rng (held_runner\<lparr>jobsRunning := 1, readOffset := 4\<rparr>) 1 0 done_disk Completing)"
    "ring_inv 1 1 rng" "cq_pending (ring_cq rng) = [reply (event_ptr 3 Write, 4)]"
proof -
  let ?cfg = "Config_default False" and ?t = "held_runner\<lparr>jobsRunning := 2\<rparr>" and ?t1 = "held_runner\<lparr>jobsRunning := 1, readOffset := 4\<rparr>"
  obtain rng where r: "reaches [four_file] (works rng ?t 2 0 done_disk Completing)" "ring_inv 1 1 rng"
    "cq_pending (ring_cq rng) = [reply (event_ptr 3 Read, 4), reply (event_ptr 3 Write, 4)]" by (rule four_kernel)
  have app: "list_all app_cqe (cq_pending (ring_cq rng))" using r(3) four_events(5) by simp
  obtain i where i: "io_uring_peek_cqe disk_enter rng done_disk = Some (0, Some i, rng, done_disk)" "cq_cqes (ring_cq rng) ! i = reply (event_ptr 3 Read, 4)"
    by (rule peek_head [OF r(2) app r(3)])
  let ?rng = "io_uring_cqe_seen rng (Some i)"
  have "advance_read 4 (held_runner\<lparr>jobsRunning := 1\<rparr>) = Inr ?t1" by (simp add: advance_read_def held_runner_def)
  then have ev: "onCompletionEvent ?cfg disk_os 3 Read 4 (working rng ?t 2 0) done_disk = Inr (ContinueTag, working rng ?t1 2 0, done_disk)"
    by (simp add: onCompletionEvent_def with_runner_def override_result_def on_read_def Let_def Config_default_def) (simp add: held_runner_def)
  have "complete_turn ?cfg disk_os disk_enter (sub (works rng ?t 2 0 done_disk Completing)) = Inr (True, sub (works ?rng ?t1 1 0 done_disk Completing))"
    using i ev four_events by (simp add: complete_turn_def works_def settle_def reply_def Let_def)
  then have "thread_step ?cfg disk_os disk_enter (works rng ?t 2 0 done_disk Completing) (works ?rng ?t1 1 0 done_disk Completing)"
    using thread_step.completing [of "works rng ?t 2 0 done_disk Completing" ?cfg disk_os disk_enter True] by (simp add: works_def)
  with r(1) have "reaches [four_file] (works ?rng ?t1 1 0 done_disk Completing)" by (rule reaches_thread) (simp add: works_def)
  then show thesis using that seen_pending [OF r(3)] seen_ok(1) [OF r(2,3)] by blast
qed

lemma four_copy_run: "\<exists>S. reaches [four_file] S \<and> spc S = Returned \<and> \<not> errored (queue (sub S))"
proof -
  let ?cfg = "Config_default False" and ?t = "held_runner\<lparr>jobsRunning := 1, readOffset := 4\<rparr>"
  let ?t1 = "held_runner\<lparr>jobsRunning := 0, readOffset := 4, writeOffset := 4\<rparr>"
  obtain rng where r: "reaches [four_file] (works rng ?t 1 0 done_disk Completing)" "ring_inv 1 1 rng"
    "cq_pending (ring_cq rng) = [reply (event_ptr 3 Write, 4)]" by (rule four_read_done)
  have app: "list_all app_cqe (cq_pending (ring_cq rng))" using r(3) four_events(5) by simp
  obtain i where i: "io_uring_peek_cqe disk_enter rng done_disk = Some (0, Some i, rng, done_disk)" "cq_cqes (ring_cq rng) ! i = reply (event_ptr 3 Write, 4)"
    by (rule peek_head [OF r(2) app r(3)])
  have ev: "onCompletionEvent ?cfg disk_os 3 Write 4 (working rng ?t 1 0) done_disk = Inr (FinishedTag, working rng ?t1 1 4, done_disk)"
    by (simp add: onCompletionEvent_def with_runner_def override_result_def on_write_def Let_def Config_default_def) (simp add: held_runner_def fresh_runner_def)
  let ?s = "(sub (works rng ?t1 1 4 done_disk Completing))"
  have "\<exists>q w. settle ?cfg disk_os 3 FinishedTag ?s = Inr (?s\<lparr>queue := q, world := w\<rparr>) \<and>
      (q_state q, keepAliveCount q, submissionsRunning q, errored q, completionAction q) = (AdditionComplete, 0, 1, False, Return)"
    by (simp add: settle_def works_def working_def four_given_def four_defs handleFileClose_def with_runner_def held_runner_def
        close_if_open_def isOpen_def getFd_def myClose_def notifyClosed_def disk_os_def no_os_def report_def
        CopyRunner_delete_def QueueFileDescriptor_delete_def returnBlock_def NEVER_OPENED_VAL_def CLOSED_VAL_def fresh_runner_def Config_default_def)
  then obtain q w where st: "settle ?cfg disk_os 3 FinishedTag ?s = Inr (?s\<lparr>queue := q, world := w\<rparr>)"
    "q_state q = AdditionComplete" "keepAliveCount q = 0" "submissionsRunning q = 1" "\<not> errored q" "completionAction q = Return" by auto
  let ?q = "q\<lparr>ring := io_uring_cqe_seen (ring q) (Some i), submissionsRunning := 0\<rparr>"
  let ?T = "\<lambda>sp k. \<lparr>sub = \<lparr>queue = ?q, world = w, nextBuffer = 0, copiesPendingContinue = [], runnersAdded = k\<rparr>, spc = sp, mpc = MainJoining\<rparr>"
  have "complete_turn ?cfg disk_os disk_enter (sub (works rng ?t 1 0 done_disk Completing)) = Inr (True, sub (?T Completing 1))"
    using i ev four_events st by (simp add: complete_turn_def works_def reply_def Let_def)
  then have "thread_step ?cfg disk_os disk_enter (works rng ?t 1 0 done_disk Completing) (?T Completing 1)"
    using thread_step.completing [of "works rng ?t 1 0 done_disk Completing" ?cfg disk_os disk_enter True] by (simp add: works_def)
  with r(1) have "reaches [four_file] (?T Completing 1)" by (rule reaches_thread) (simp add: works_def)
  moreover have "thread_step ?cfg disk_os disk_enter (?T Completing 1) (?T Checking 1)"
    using thread_step.completing [of "?T Completing 1" ?cfg disk_os disk_enter False "sub (?T Completing 1)"] by (simp add: complete_turn_def)
  ultimately have "reaches [four_file] (?T Checking 1)" by (rule reaches_thread) simp
  moreover have "thread_step ?cfg disk_os disk_enter (?T Checking 1) (?T Returned 0)"
    using thread_step.returns [of "?T Checking 1" ?cfg "sub (?T Checking 1)" disk_os disk_enter] st
    by (simp add: submit_exit_def isDone_def submitter_init_def)
  ultimately have "reaches [four_file] (?T Returned 0)" by (rule reaches_thread) simp
  then show ?thesis using st(5) by (intro exI [of _ "?T Returned 0"]) simp
qed

end
