(* ===== verification/Text_Format.thy ===== *)
theory Text_Format
  imports Wcp_Prelude Complex_Main
begin

text \<open>
  The text that \<open>wcp\<close> prints: \<open>std::to_string\<close> for the integers it prints, and the local functions of
  \<open>CopyQueue::showProgressLoop\<close> (\<open>src/CopyQueue.cpp\<close>) that pad and align strings and format sizes
  and times. A \<open>double\<close> is a real number here; a conversion to an unsigned integer outside of its range is
  undefined behaviour.
\<close>

section \<open>Numbers\<close>

fun to_string :: "nat \<Rightarrow> string" where
  "to_string n = (if n < 10 then [char_of (48 + n)] else to_string (n div 10) @ [char_of (48 + n mod 10)])"

declare to_string.simps [simp del]

text \<open>The value that a string of digits stands for.\<close>

definition digits_value :: "string \<Rightarrow> nat" where
  "digits_value s = foldl (\<lambda>v c. 10 * v + (of_char c - 48)) 0 s"

definition is_digit :: "char \<Rightarrow> bool" where
  "is_digit c \<longleftrightarrow> 48 \<le> (of_char c :: nat) \<and> (of_char c :: nat) \<le> 57"

lemma of_char_digit: "k < 10 \<Longrightarrow> (of_char (char_of (48 + k)) :: nat) = 48 + k"
  by (simp add: of_char_of)

lemma to_string_value: "digits_value (to_string n) = n"
proof (induction n rule: to_string.induct)
  case (1 n)
  then show ?case
    by (subst to_string.simps) (simp add: digits_value_def of_char_digit)
qed

lemma to_string_digits: "list_all is_digit (to_string n) \<and> to_string n \<noteq> []"
proof (induction n rule: to_string.induct)
  case (1 n)
  then show ?case
    by (cases "n < 10") (auto simp: to_string.simps [of n] is_digit_def of_char_digit)
qed

lemma to_string_length: "n < 10 ^ Suc k \<Longrightarrow> length (to_string n) \<le> Suc k"
proof (induction k arbitrary: n)
  case 0
  then show ?case by (subst to_string.simps) simp
next
  case (Suc k)
  then have "n div 10 < 10 ^ Suc k" by (simp add: less_mult_imp_div_less)
  then show ?case using Suc.IH [of "n div 10"] by (subst to_string.simps) simp
qed

text \<open>\<open>std::fixed << std::setprecision(d)\<close> for a number that is not negative: rounded to even.\<close>

definition round_even :: "real \<Rightarrow> int" where
  "round_even x =
     (let f = \<lfloor>x\<rfloor>; r = x - of_int f
      in if r < 1 / 2 \<or> (r = 1 / 2 \<and> even f) then f else f + 1)"

lemma round_even_close: "\<bar>x - of_int (round_even x)\<bar> \<le> 1 / 2"
  by (auto simp: round_even_def Let_def abs_le_iff)

lemma round_even_nonneg: "0 \<le> x \<Longrightarrow> 0 \<le> round_even x"
  by (auto simp: round_even_def Let_def)

section \<open>Padding\<close>

text \<open>The conversion of a length to \<open>int32_t\<close>.\<close>

definition int32 :: "nat \<Rightarrow> int" where
  "int32 n = signed_take_bit 31 (int n)"

lemma int32_small: "n < 2 ^ 31 \<Longrightarrow> int32 n = int n"
  unfolding int32_def by (rule signed_take_bit_int_eq_self) (auto intro: order_trans [of _ 0])

function pad_loop :: "char \<Rightarrow> int \<Rightarrow> int \<Rightarrow> string \<Rightarrow> string" where
  "pad_loop c i bound pad = (if i < bound then pad_loop c (i + 1) bound (pad @ [c]) else pad)"
  by pat_completeness auto

termination
  by (relation "measure (\<lambda>(c, i, bound, pad). nat (bound - i))") auto

declare pad_loop.simps [simp del]

lemma pad_loop_eq: "pad_loop c i bound pad = pad @ replicate (nat (bound - i)) c"
proof (induction c i bound pad rule: pad_loop.induct)
  case (1 c i bound pad)
  show ?case
  proof (cases "i < bound")
    case True
    then have "nat (bound - i) = Suc (nat (bound - (i + 1)))" by simp
    then show ?thesis using 1 True by (subst pad_loop.simps) simp
  qed (subst pad_loop.simps, simp)
qed

definition leftPad :: "string \<Rightarrow> string \<Rightarrow> int \<Rightarrow> char \<Rightarrow> string" where
  "leftPad left str targetLength padChar =
     pad_loop padChar (int32 (length left)) (targetLength - int32 (length str)) left @ str"

definition rightPad :: "string \<Rightarrow> string \<Rightarrow> int \<Rightarrow> string" where
  "rightPad left str targetLength =
     str @ pad_loop CHR '' '' (int32 (length left)) (targetLength - int32 (length str)) left"

text \<open>
  The loop of \<open>centreAlign\<close>: its counter has 32 bits, its bound 64. With a bound beyond the range of
  the counter it does not end.
\<close>

partial_function (option) centre_loop :: "u32 \<Rightarrow> u64 \<Rightarrow> string \<Rightarrow> string option" where
  "centre_loop i bound str =
     (if ucast i < bound then centre_loop (i + 1) bound (str @ '' '') else Some str)"

definition centre_bound :: "string \<Rightarrow> int \<Rightarrow> u64" where
  "centre_bound centre lineWidth = word_of_int (lineWidth div 2) - of_nat (length centre) div 2"

definition centreAlign :: "string \<Rightarrow> string \<Rightarrow> int \<Rightarrow> string option" where
  "centreAlign left centre lineWidth =
     map_option (\<lambda>str. str @ centre) (centre_loop (of_nat (length left)) (centre_bound centre lineWidth) left)"

section \<open>Sizes and times\<close>

definition numDecimalPoints :: "real \<Rightarrow> nat \<Rightarrow> string" where
  "numDecimalPoints num decimalPoints =
     (let n = nat (round_even (num * 10 ^ decimalPoints))
      in to_string (n div 10 ^ decimalPoints) @
         (if decimalPoints = 0 then []
          else ''.'' @ leftPad [] (to_string (n mod 10 ^ decimalPoints)) (int decimalPoints) CHR ''0''))"

text \<open>The number and the unit of \<open>humanFriendlyFileSize\<close>.\<close>

definition size_unit :: "u64 \<Rightarrow> real \<times> string" where
  "size_unit bytes =
     (let kibibyte = 1024; mebibyte = kibibyte * 1024; gibibyte = mebibyte * 1024; tebibyte = gibibyte * 1024 :: u64
      in if bytes \<ge> tebibyte then (real (unat bytes) / real (unat tebibyte), ''TiB'')
         else if bytes \<ge> gibibyte then (real (unat bytes) / real (unat gibibyte), ''GiB'')
         else if bytes \<ge> mebibyte then (real (unat bytes) / real (unat mebibyte), ''MiB'')
         else if bytes \<ge> kibibyte then (real (unat bytes) / real (unat kibibyte), ''KiB'')
         else (real (unat bytes), ''B''))"

definition humanFriendlyFileSize :: "u64 \<Rightarrow> string" where
  "humanFriendlyFileSize bytes = (case size_unit bytes of (final, unit) \<Rightarrow> numDecimalPoints final 2 @ '' '' @ unit)"

text \<open>The conversion of \<open>floor(x)\<close> to \<open>uint32_t\<close>.\<close>

definition uint32_floor :: "real \<Rightarrow> nat outcome" where
  "uint32_floor x = defined_if ''uint32_t(floor(x))'' (0 \<le> \<lfloor>x\<rfloor> \<and> \<lfloor>x\<rfloor> < 2 ^ 32) (Inr (nat \<lfloor>x\<rfloor>))"

definition humanFriendlyTime :: "real \<Rightarrow> string outcome" where
  "humanFriendlyTime seconds =
     (let minute = 60; hour = 60 * 60
      in and_then (uint32_floor (seconds / hour)) (\<lambda>hours.
         let seconds = seconds - real hours * hour
         in and_then (uint32_floor (seconds / minute)) (\<lambda>minutes.
            let seconds = seconds - real minutes * minute
            in if hours > 0 then Inr (to_string hours @ ''h'' @ to_string minutes @ ''m'')
               else and_then (uint32_floor seconds) (\<lambda>secs.
                 let rest = leftPad [] (to_string secs) 2 CHR ''0'' @ ''s''
                 in Inr (if minutes > 0 then to_string minutes @ ''m'' @ rest else rest)))))"

section \<open>What the text says\<close>

lemma leftPad_eq:
  assumes "length left < 2 ^ 31" "length str < 2 ^ 31"
  shows "leftPad left str k c = left @ replicate (nat (k - int (length str) - int (length left))) c @ str"
  using assms by (simp add: leftPad_def pad_loop_eq int32_small)

lemma rightPad_eq:
  assumes "length left < 2 ^ 31" "length str < 2 ^ 31"
  shows "rightPad left str k = str @ left @ replicate (nat (k - int (length str) - int (length left))) CHR '' ''"
  using assms by (simp add: rightPad_def pad_loop_eq int32_small)

lemma digits_value_zeros: "digits_value (replicate k CHR ''0'' @ s) = digits_value s"
  by (induction k) (simp_all add: digits_value_def)

text \<open>Two digits.\<close>

lemma two_digits:
  assumes "n < 100"
  shows "length (leftPad [] (to_string n) 2 CHR ''0'') = 2" "list_all is_digit (leftPad [] (to_string n) 2 CHR ''0'')"
    "digits_value (leftPad [] (to_string n) 2 CHR ''0'') = n"
proof -
  have len: "length (to_string n) \<le> 2" using to_string_length [of n 1] assms by simp
  then have eq: "leftPad [] (to_string n) 2 CHR ''0'' = replicate (2 - length (to_string n)) CHR ''0'' @ to_string n"
    by (subst leftPad_eq) (simp_all add: nat_diff_distrib)
  show "length (leftPad [] (to_string n) 2 CHR ''0'') = 2" using len by (simp add: eq)
  show "list_all is_digit (leftPad [] (to_string n) 2 CHR ''0'')"
    using to_string_digits [of n] by (auto simp: eq list_all_iff is_digit_def)
  show "digits_value (leftPad [] (to_string n) 2 CHR ''0'') = n" by (simp add: eq digits_value_zeros to_string_value)
qed

lemma size_unit_spec:
  obtains k u where "size_unit bytes = (real (unat bytes) / 1024 ^ k, [''B'', ''KiB'', ''MiB'', ''GiB'', ''TiB''] ! k)"
    "k \<le> 4" "0 < k \<longrightarrow> 1024 ^ k \<le> unat bytes" "k < 4 \<longrightarrow> unat bytes < 1024 ^ Suc k"
proof -
  consider "bytes \<ge> 1099511627776" | "bytes \<ge> 1073741824" "bytes < 1099511627776" | "bytes \<ge> 1048576" "bytes < 1073741824"
    | "bytes \<ge> 1024" "bytes < 1048576" | "bytes < 1024" by (metis linorder_not_less)
  then show thesis
  proof cases
    case 1
    then show thesis using that [of 4] by (simp add: size_unit_def word_le_nat_alt)
  next
    case 2
    then show thesis using that [of 3] by (simp add: size_unit_def word_le_nat_alt word_less_nat_alt)
  next
    case 3
    then show thesis using that [of 2] by (simp add: size_unit_def word_le_nat_alt word_less_nat_alt)
  next
    case 4
    then show thesis using that [of 1] by (simp add: size_unit_def word_le_nat_alt word_less_nat_alt)
  next
    case 5
    then show thesis using that [of 0] by (simp add: size_unit_def word_le_nat_alt word_less_nat_alt)
  qed
qed


lemma uint32_floor_eq: "\<lfloor>x\<rfloor> = int k \<Longrightarrow> k < 2 ^ 32 \<Longrightarrow> uint32_floor x = Inr k"
  unfolding uint32_floor_def by (simp only: defined_if_def) simp

text \<open>
  C40. The printed time is right: for a duration that fits the counters, \<open>humanFriendlyTime\<close> prints
  the hours and minutes, the minutes and seconds, or the seconds of the whole seconds of the duration.
\<close>

theorem time_text:
  assumes "0 \<le> seconds" "seconds < 3600 * 2 ^ 32"
  shows "humanFriendlyTime seconds =
    (let t = nat \<lfloor>seconds\<rfloor>; h = t div 3600; m = t div 60 mod 60; s = t mod 60
     in Inr (if h > 0 then to_string h @ ''h'' @ to_string m @ ''m''
             else (if m > 0 then to_string m @ ''m'' else []) @ leftPad [] (to_string s) 2 CHR ''0'' @ ''s''))"
proof -
  define t where "t = nat \<lfloor>seconds\<rfloor>"
  define r where "r = seconds - real t"
  have sec: "seconds = real t + r" "0 \<le> r" "r < 1" using assms(1) unfolding t_def r_def by linarith+
  define h where "h = t div 3600"
  define t1 where "t1 = t mod 3600"
  have t: "t = 3600 * h + t1" "t1 < 3600" by (simp_all add: h_def t1_def)
  define m where "m = t1 div 60"
  define s where "s = t1 mod 60"
  have t1: "t1 = 60 * m + s" "s < 60" "m < 60" using t(2) by (simp_all add: m_def s_def)
  have "t = (60 * h + m) * 60 + s" using t(1) t1(1) by simp
  then have "t div 60 = 60 * h + m" "t mod 60 = s"
    using t1(2) div_mult_self3 [of 60 "60 * h + m" s] mod_mult_self3 [of "60 * h + m" 60 s] by simp_all
  then have m': "m = t div 60 mod 60" "s = t mod 60" using t1(3) by simp_all
  have fl: "\<lfloor>(real (d * a + b) + r) / real d\<rfloor> = int a" if "b < d" for a b d
  proof (rule floor_unique)
    have "0 < real d" using that by simp
    moreover have "real b + r < real d" using that sec(3) by linarith
    ultimately show "(real (d * a + b) + r) / real d < of_int (int a) + 1"
      by (simp add: pos_divide_less_eq algebra_simps)
    show "of_int (int a) \<le> (real (d * a + b) + r) / real d"
      using \<open>0 < real d\<close> sec(2) by (simp add: pos_le_divide_eq algebra_simps)
  qed
  have fh: "\<lfloor>seconds / 3600\<rfloor> = int h" using fl [OF t(2), of h] sec(1) t(1) by simp
  have fm: "\<lfloor>(seconds - real h * 3600) / 60\<rfloor> = int m" using fl [OF t1(2), of m] sec(1) t(1) t1(1) by (simp add: add.assoc)
  have fs: "\<lfloor>seconds - real h * 3600 - real m * 60\<rfloor> = int s"
    using sec t(1) t1(1) by (intro floor_unique) simp_all
  have "h < 2 ^ 32"
  proof -
    have "real h \<le> seconds / 3600" using fh by linarith
    then have "real h < 2 ^ 32" using assms(2) by simp
    then show ?thesis by simp
  qed
  then have "uint32_floor (seconds / 3600) = Inr h" "uint32_floor ((seconds - real h * 3600) / 60) = Inr m"
    "uint32_floor (seconds - real h * 3600 - real m * 60) = Inr s"
    using fh fm fs t1(2,3) by (intro uint32_floor_eq; simp)+
  then show ?thesis
    unfolding Let_def t_def [symmetric] h_def [symmetric] m'(1) [symmetric] m'(2) [symmetric]
    by (cases "h = 0"; cases "m = 0") (simp_all add: humanFriendlyTime_def Let_def)
qed

theorem time_text_witness: "humanFriendlyTime 125 = Inr ''2m05s''"
  using time_text [of 125] by (simp add: Let_def to_string.simps leftPad_eq char_of_def bit_0)

lemma unat_ucast_u64: "unat (ucast (i :: u32) :: u64) = unat i"
proof -
  have "unat i < 2 ^ 64" using unat_u32_bound [of i] by simp
  then show ?thesis by (simp add: unsigned_ucast_eq take_bit_nat_eq_self)
qed

lemma centre_loop_some:
  assumes "unat bound < 2 ^ 32"
  shows "k < 2 ^ 32 \<Longrightarrow> centre_loop (of_nat k) bound str = Some (str @ replicate (unat bound - k) CHR '' '')"
proof (induction "unat bound - k" arbitrary: k str)
  case 0
  have "unat (of_nat k :: u32) = k" using 0 by (simp add: unat_of_nat)
  then have "\<not> ucast (of_nat k :: u32) < bound"
    using 0 by (simp only: word_less_nat_alt unat_ucast_u64)
  then show ?case using 0 by (subst centre_loop.simps) simp
next
  case (Suc d)
  have "unat (of_nat k :: u32) = k" using Suc by (simp add: unat_of_nat)
  then have lt: "ucast (of_nat k :: u32) < bound"
    using Suc by (simp only: word_less_nat_alt unat_ucast_u64)
  have k: "Suc k < 2 ^ 32" "d = unat bound - Suc k" using Suc assms by linarith+
  have "centre_loop (of_nat k) bound str = centre_loop (of_nat (Suc k)) bound (str @ '' '')"
    using lt by (subst centre_loop.simps) (simp add: add.commute)
  then show ?case using Suc.hyps(1) [OF k(2,1)] Suc.hyps(2) k(2) by (simp add: Suc_diff_Suc replicate_app_Cons_same flip: replicate_Suc)
qed

lemma centre_loop_none:
  assumes "2 ^ 32 \<le> unat bound"
  shows "centre_loop i bound str = None"
proof -
  let ?P = "\<lambda>i' bound' str' r. bound' = bound \<longrightarrow> False"
  have "?P i bound str r" if "centre_loop i bound str = Some r" for r
  proof (rule centre_loop.raw_induct [where P = ?P, OF _ that], intro impI)
    fix f and i' :: u32 and bound' str' r
    assume IH: "\<And>i' bound' str' r. f i' bound' str' = Some r \<Longrightarrow> ?P i' bound' str' r"
      and eq: "(if ucast i' < bound' then f (i' + 1) bound' (str' @ '' '') else Some str') = Some r" and b: "bound' = bound"
    have "ucast i' < bound" using assms unat_u32_bound [of i'] by (simp only: word_less_nat_alt unat_ucast_u64)
    then show False using eq IH b by auto
  qed
  then show ?thesis by (cases "centre_loop i bound str") auto
qed

lemma wrapped:
  assumes "a < b" "b < 2 ^ 31"
  shows "2 ^ 32 \<le> (int a - int b) mod 2 ^ 64"
proof -
  have "(int a - int b) mod 2 ^ 64 = (int a - int b + 2 ^ 64) mod 2 ^ 64" by (rule mod_add_self2 [symmetric])
  also have "\<dots> = int a - int b + 2 ^ 64" using assms by (intro mod_pos_pos_trivial) simp_all
  finally have eq: "(int a - int b) mod 2 ^ 64 = int a - int b + 2 ^ 64" .
  show ?thesis unfolding eq using assms by simp
qed



end
