(* ===== verification/Copy_Walk.thy ===== *)
theory Copy_Walk
  imports Copy_Effects Text_Format
begin

text \<open>
  The directory walk of \<open>src/CopyQueue.cpp\<close>: \<open>addRecursiveCopy\<close> reads the directories below
  \<open>from\<close> with a stack, makes the directories below \<open>dest\<close>, copies symbolic links and adds a
  copy job for every regular file. The theorem shows that on a finite directory tree the walk ends and adds exactly the
  regular files of the tree, each once, with the corresponding destination.
\<close>

section \<open>Directory entries\<close>

abbreviation (input) DT_UNKNOWN :: u8 where "DT_UNKNOWN \<equiv> 0"
abbreviation (input) DT_FIFO :: u8 where "DT_FIFO \<equiv> 1"
abbreviation (input) DT_CHR :: u8 where "DT_CHR \<equiv> 2"
abbreviation (input) DT_DIR :: u8 where "DT_DIR \<equiv> 4"
abbreviation (input) DT_REG :: u8 where "DT_REG \<equiv> 8"
abbreviation (input) DT_LNK :: u8 where "DT_LNK \<equiv> 10"
abbreviation (input) DT_SOCK :: u8 where "DT_SOCK \<equiv> 12"
abbreviation (input) O_DIRECTORY :: int where "O_DIRECTORY \<equiv> 0x10000"

text \<open>The type that the mode of an entry of unknown type stands for.\<close>

definition type_of_mode :: "u32 \<Rightarrow> u8" where
  "type_of_mode mode =
     (if S_ISFIFO mode then DT_FIFO
      else if S_ISCHR mode then DT_CHR
      else if S_ISDIR mode then DT_DIR
      else if S_ISREG mode then DT_REG
      else if S_ISLNK mode then DT_LNK
      else if S_ISSOCK mode then DT_SOCK
      else DT_UNKNOWN)"

definition zero_statx :: statx where
  "zero_statx = \<lparr>stx_mode = 0, stx_size = 0, stx_blksize = 0\<rparr>"

text \<open>The directories still to be read, the queue and the world.\<close>

type_synonym 'w walk = "path list \<times> CopyQueue \<times> 'w"

definition walk_file ::
  "bool \<Rightarrow> 'w os \<Rightarrow> (path \<Rightarrow> bool \<times> bool) \<Rightarrow> path \<Rightarrow> path \<Rightarrow> bool \<Rightarrow> statx \<Rightarrow> 'w walk \<Rightarrow> 'w walk outcome" where
  "walk_file ndebug os lost fullPath destPath didStat sb = (\<lambda>(stack, q, w).
     case (if didStat then (Success, sb, w) else myStatx os AT_FDCWD fullPath 0 STATX_BASIC_STATS sb w) of
       (Inl e, _, w) \<Rightarrow> Inr (stack, onError e q, w)
     | (Inr _, sb, w) \<Rightarrow>
         and_then (addCopyJob ndebug os (lost fullPath) fullPath destPath sb q w) (\<lambda>(q, w). Inr (stack, q, w)))"

definition walk_link :: "'w os \<Rightarrow> path \<Rightarrow> path \<Rightarrow> 'w walk \<Rightarrow> 'w walk outcome" where
  "walk_link os fullPath destPath = (\<lambda>(stack, q, w).
     and_then (returned ''myReadlink'' (myReadlink os AT_FDCWD fullPath w)) (\<lambda>(result, w).
       case result of
         Inl e \<Rightarrow> Inr (stack, onError e q, w)
       | Inr linkDest \<Rightarrow>
           (case retrySyscall (\<lambda>errno w. case os_symlink os (c_str linkDest) (c_str destPath) w of (ret, err, w) \<Rightarrow>
                    (if ret < 0 then err else errno, w)) w of
              (error, w) \<Rightarrow>
                Inr (stack,
                  if error \<noteq> 0 then onError (Error (''Error copying symlink: '' @ QUOTE @ fullPath @ QUOTE)) q else q, w))))"

text \<open>
  The body of the loop over the entries of a directory. \<open>lost\<close> is the argument of \<open>addCopyJob\<close> for a path.
\<close>

definition walk_entry ::
  "bool \<Rightarrow> 'w os \<Rightarrow> (path \<Rightarrow> bool \<times> bool) \<Rightarrow> path \<Rightarrow> path \<Rightarrow> path \<Rightarrow> linux_dirent64 \<Rightarrow> 'w walk \<Rightarrow> 'w walk outcome" where
  "walk_entry ndebug os lost from dest current currentEntry = (\<lambda>(stack, q, w).
     let fullPath = current @ c_str (d_name currentEntry)
     in case (if d_type currentEntry = DT_UNKNOWN then myStatx os AT_FDCWD fullPath 0 STATX_BASIC_STATS zero_statx w
              else (Success, zero_statx, w)) of
          (Inl e, _, w) \<Rightarrow> Inr (stack, onError e q, w)
        | (Inr _, sb, w) \<Rightarrow>
            (let didStat = (d_type currentEntry = DT_UNKNOWN);
                 type = (if didStat then type_of_mode (stx_mode sb) else d_type currentEntry);
                 destPath = dest @ c_str (drop (length from) fullPath)
             in if type = DT_DIR then
                  (if c_str (d_name currentEntry) \<noteq> ''.'' \<and> c_str (d_name currentEntry) \<noteq> ''..''
                   then and_then (recursiveMkdir os destPath w) (\<lambda>w. Inr (stack @ [fullPath @ ''/''], q, w))
                   else Inr (stack, q, w))
                else if type = DT_REG then walk_file ndebug os lost fullPath destPath didStat sb (stack, q, w)
                else if type = DT_LNK then walk_link os fullPath destPath (stack, q, w)
                else Inr (stack, onError (Error (''Unhandled file type: '' @ QUOTE @ fullPath @ QUOTE @ '': '' @
                            to_string (unat type))) q, w)))"

section \<open>Loops\<close>

text \<open>
  The loop over the entries in the buffer, from offset \<open>p\<close> on. An entry of length 0 would be visited
  for ever.
\<close>

function walk_entries ::
  "bool \<Rightarrow> 'w os \<Rightarrow> (path \<Rightarrow> bool \<times> bool) \<Rightarrow> path \<Rightarrow> path \<Rightarrow> path \<Rightarrow> (nat \<Rightarrow> linux_dirent64) \<Rightarrow> int \<Rightarrow> nat \<Rightarrow>
     'w walk \<Rightarrow> 'w walk outcome" where
  "walk_entries ndebug os lost from dest current dirBuffer written p s =
     (if int p < written then
        (case walk_entry ndebug os lost from dest current (dirBuffer p) s of
           Inl a \<Rightarrow> Inl a
         | Inr s \<Rightarrow> if d_reclen (dirBuffer p) = 0 then Inl (Diverges ''nextPtr < dirBuffer.data() + written'')
                    else walk_entries ndebug os lost from dest current dirBuffer written
                           (p + unat (d_reclen (dirBuffer p))) s)
      else Inr s)"
  by pat_completeness auto

termination
  by (relation "measure (\<lambda>(_, _, _, _, _, _, _, written, p, _). nat (written - int p))")
    (auto simp: less_le [of 0 "uint _"] uint_0_iff)

declare walk_entries.simps [simp del]

abbreviation (input) DIR_BUFFER_SIZE :: u64 where "DIR_BUFFER_SIZE \<equiv> 0x2000000"

text \<open>
  The loop over the calls of \<open>myGetDents\<close>; the \<open>continue\<close> after an error goes to the condition of the
  \<open>do\<close> loop, with the value of \<open>written\<close> of the last successful call.
\<close>

partial_function (option) dents_loop ::
  "bool \<Rightarrow> 'w os \<Rightarrow> (path \<Rightarrow> bool \<times> bool) \<Rightarrow> path \<Rightarrow> path \<Rightarrow> path \<Rightarrow> int \<Rightarrow> int \<Rightarrow> (nat \<Rightarrow> linux_dirent64) \<Rightarrow>
     'w walk \<Rightarrow> ((nat \<Rightarrow> linux_dirent64) \<times> 'w walk) outcome option" where
  "dents_loop ndebug os lost from dest current fd written dirBuffer s =
     (case s of (stack, q, w) \<Rightarrow>
      case myGetDents os fd current dirBuffer DIR_BUFFER_SIZE w of
        (Inl e, dirBuffer, w) \<Rightarrow>
          if written \<noteq> 0 then dents_loop ndebug os lost from dest current fd written dirBuffer (stack, onError e q, w)
          else Some (Inr (dirBuffer, stack, onError e q, w))
      | (Inr n, dirBuffer, w) \<Rightarrow>
          (case walk_entries ndebug os lost from dest current dirBuffer (sint n) 0 (stack, q, w) of
             Inl a \<Rightarrow> Some (Inl a)
           | Inr s \<Rightarrow> if sint n \<noteq> 0 then dents_loop ndebug os lost from dest current fd (sint n) dirBuffer s
                      else Some (Inr (dirBuffer, s))))"

definition walk_directory ::
  "bool \<Rightarrow> 'w os \<Rightarrow> (path \<Rightarrow> bool \<times> bool) \<Rightarrow> path \<Rightarrow> path \<Rightarrow> path \<Rightarrow> (nat \<Rightarrow> linux_dirent64) \<Rightarrow> 'w walk \<Rightarrow>
     ((nat \<Rightarrow> linux_dirent64) \<times> 'w walk) outcome" where
  "walk_directory ndebug os lost from dest current dirBuffer = (\<lambda>(stack, q, w).
     case ScopedFileDescriptor_open os current (O_RDONLY OR O_DIRECTORY OR O_CLOEXEC) 0 ScopedFileDescriptor_init w of
       (result, currentFd, w) \<Rightarrow>
         and_then (case result of
             Inl e \<Rightarrow> Inr (dirBuffer, stack, onError e q, w)
           | Inr _ \<Rightarrow>
               and_then (ScopedFileDescriptor_getFd ndebug currentFd) (\<lambda>fd.
               and_then (returned ''while (written != 0)''
                   (dents_loop ndebug os lost from dest current fd 0 dirBuffer (stack, q, w))) (\<lambda>r. r)))
           (\<lambda>(dirBuffer, stack, q, w).
             and_then (ScopedFileDescriptor_dtor ndebug os currentFd w) (\<lambda>w. Inr (dirBuffer, stack, q, w))))"

partial_function (option) walk_stack ::
  "bool \<Rightarrow> 'w os \<Rightarrow> (path \<Rightarrow> bool \<times> bool) \<Rightarrow> path \<Rightarrow> path \<Rightarrow> (nat \<Rightarrow> linux_dirent64) \<Rightarrow> 'w walk \<Rightarrow>
     (CopyQueue \<times> 'w) outcome option" where
  "walk_stack ndebug os lost from dest dirBuffer s =
     (case s of (stack, q, w) \<Rightarrow>
      if stack = [] then Some (Inr (q, w))
      else case walk_directory ndebug os lost from dest (last stack) dirBuffer (butlast stack, q, w) of
             Inl a \<Rightarrow> Some (Inl a)
           | Inr (dirBuffer, s) \<Rightarrow> walk_stack ndebug os lost from dest dirBuffer s)"

definition with_slash :: "path \<Rightarrow> path" where
  "with_slash p = (if last p \<noteq> CHR ''/'' then p @ ''/'' else p)"

text \<open>The buffer starts out with zeros.\<close>

definition addRecursiveCopy ::
  "bool \<Rightarrow> 'w os \<Rightarrow> (path \<Rightarrow> bool \<times> bool) \<Rightarrow> path \<Rightarrow> path \<Rightarrow> CopyQueue \<Rightarrow> 'w \<Rightarrow> (CopyQueue \<times> 'w) outcome" where
  "addRecursiveCopy ndebug os lost from dest q w =
     debug_assert ndebug ''!from.empty() && !dest.empty()'' (from \<noteq> [] \<and> dest \<noteq> [])
    (defined_if ''back()'' (from \<noteq> [] \<and> dest \<noteq> [])
    (let from = with_slash from; dest = with_slash dest
     in and_then (recursiveMkdir os dest w) (\<lambda>w.
        and_then (returned ''while (!directoryStack.empty())''
            (walk_stack ndebug os lost from dest (\<lambda>_. \<lparr>d_reclen = 0, d_type = 0, d_name = []\<rparr>) ([from], q, w))) (\<lambda>r. r))))"

section \<open>Directory trees\<close>

datatype ftree = FileNode statx | LinkNode string | DirNode "(string \<times> ftree) list"

fun is_dir :: "ftree \<Rightarrow> bool" where
  "is_dir (DirNode ns) = True"
| "is_dir t = False"

lemma size_node: "(n, t) \<in> set ns \<Longrightarrow> size t < size (DirNode ns)"
  by (induction ns) auto

text \<open>
  The reference: the regular files of a tree in the order of the walk, with their paths below the root.
  The files of a directory come first; its subdirectories follow, the last one first.
\<close>

function tree_files :: "path \<Rightarrow> ftree \<Rightarrow> (path \<times> statx) list" where
  "tree_files p (FileNode st) = [(p, st)]"
| "tree_files p (LinkNode l) = []"
| "tree_files p (DirNode ns) =
     concat (map (\<lambda>(n, t). if is_dir t then [] else tree_files (p @ n) t) ns) @
     concat (map (\<lambda>(n, t). if is_dir t then tree_files (p @ n @ ''/'') t else []) (rev ns))"
  by pat_completeness auto

termination
  by (relation "measure (\<lambda>(p, t). size t)") (use size_node in force)+

definition kind :: "ftree \<Rightarrow> u8" where
  "kind t = (case t of FileNode _ \<Rightarrow> DT_REG | LinkNode _ \<Rightarrow> DT_LNK | DirNode _ \<Rightarrow> DT_DIR)"

definition entry_name :: "linux_dirent64 \<Rightarrow> string" where
  "entry_name e = c_str (d_name e)"

text \<open>
  An entry stands for a node of the tree, with its type or, unless it is a link, with an unknown type;
  the other entries are \<open>.\<close> and \<open>..\<close>.
\<close>

definition entry_ok :: "linux_dirent64 \<Rightarrow> ftree option \<Rightarrow> bool" where
  "entry_ok e x = (let dot = (entry_name e = ''.'' \<or> entry_name e = ''..'')
     in case x of None \<Rightarrow> dot \<and> d_type e = DT_DIR
      | Some t \<Rightarrow> \<not> dot \<and> (d_type e = kind t \<or> d_type e = DT_UNKNOWN \<and> kind t \<noteq> DT_LNK))"

definition nodes_of :: "(linux_dirent64 \<times> ftree option) list \<Rightarrow> (string \<times> ftree) list" where
  "nodes_of z = concat (map (\<lambda>(e, x). case x of None \<Rightarrow> [] | Some t \<Rightarrow> [(entry_name e, t)]) z)"

text \<open>
  What the system calls show of a tree at a path: \<open>listing\<close> are the entries of a directory (its path
  ends with a slash), \<open>stat\<close> the result of \<open>statx\<close>, and \<open>target\<close> that of \<open>readlink\<close>.
\<close>

record fs_view =
  listing :: "path \<Rightarrow> linux_dirent64 list option"
  stat :: "path \<Rightarrow> statx option"
  target :: "path \<Rightarrow> string option"

function presents :: "fs_view \<Rightarrow> path \<Rightarrow> ftree \<Rightarrow> bool" where
  "presents v p (FileNode st) \<longleftrightarrow> stat v p = Some st \<and> type_of_mode (stx_mode st) = DT_REG"
| "presents v p (LinkNode l) \<longleftrightarrow> target v p = Some l"
| "presents v p (DirNode ns) \<longleftrightarrow>
     (\<exists>st. stat v p = Some st \<and> type_of_mode (stx_mode st) = DT_DIR) \<and>
     (\<exists>z. listing v (p @ ''/'') = Some (map fst z) \<and> list_all (\<lambda>(e, x). entry_ok e x) z \<and> nodes_of z = ns) \<and>
     list_all (\<lambda>(n, t). presents v (p @ ''/'' @ n) t) ns"
  by pat_completeness auto

termination
  by (relation "measure (\<lambda>(v, p, t). size t)") (use size_node in force)+

text \<open>The entries \<open>es\<close> fill the buffer from offset \<open>p\<close> up to offset \<open>r\<close>.\<close>

fun entries_at :: "(nat \<Rightarrow> linux_dirent64) \<Rightarrow> nat \<Rightarrow> linux_dirent64 list \<Rightarrow> int \<Rightarrow> bool" where
  "entries_at buf p [] r \<longleftrightarrow> r = int p"
| "entries_at buf p (e # es) r \<longleftrightarrow> buf p = e \<and> d_reclen e \<noteq> 0 \<and> entries_at buf (p + unat (d_reclen e)) es r"

text \<open>
  What the walk relies on: \<open>stream fd w\<close> are the entries that have still to be read from a directory.
  Opening a directory starts its stream; \<open>getdents64\<close> takes some entries, at least one when there are
  any; the other calls leave the streams alone. \<open>statx\<close> and \<open>readlink\<close> tell what the view says, and
  making a directory or a link succeeds unless the directory exists.
\<close>

definition fs_laws :: "'w os \<Rightarrow> (int \<Rightarrow> 'w \<Rightarrow> linux_dirent64 list) \<Rightarrow> fs_view \<Rightarrow> bool" where
  "fs_laws os stream v \<longleftrightarrow>
     (\<forall>p es w. listing v p = Some es \<longrightarrow>
        (\<exists>fd e w'. os_open os p (O_RDONLY OR O_DIRECTORY OR O_CLOEXEC) 0 w = (fd, e, w') \<and> 0 < fd \<and> stream fd w' = es)) \<and>
     (\<forall>fd w. \<exists>k r e buf w'. os_getdents64 os fd DIR_BUFFER_SIZE w = (r, e, buf, w') \<and> r < 2 ^ 63 \<and>
        entries_at buf 0 (take k (stream fd w)) r \<and> stream fd w' = drop k (stream fd w) \<and> (stream fd w \<noteq> [] \<longrightarrow> 0 < k)) \<and>
     (\<forall>p f m fd w. f AND O_DIRECTORY = 0 \<longrightarrow> stream fd (snd (snd (os_open os p f m w))) = stream fd w) \<and>
     (\<forall>p st w. stat v p = Some st \<longrightarrow>
        (\<exists>e w'. os_statx os AT_FDCWD p 0 STATX_BASIC_STATS w = (0, e, st, w') \<and> (\<forall>fd. stream fd w' = stream fd w))) \<and>
     (\<forall>p l w. target v p = Some l \<longrightarrow> link_target os AT_FDCWD p l w) \<and>
     (\<forall>a b w. \<exists>e w'. os_symlink os a b w = (0, e, w') \<and> (\<forall>fd. stream fd w' = stream fd w)) \<and>
     (\<forall>p w. \<exists>w'. mkdirOne os p w = Inr w' \<and> (\<forall>fd. stream fd w' = stream fd w)) \<and>
     (\<forall>fd w. fst (os_close os fd w) = 0)"

lemma fs_lawsD:
  assumes "fs_laws os stream v"
  shows "listing v p = Some es \<Longrightarrow>
      \<exists>fd e w'. os_open os p (O_RDONLY OR O_DIRECTORY OR O_CLOEXEC) 0 w = (fd, e, w') \<and> 0 < fd \<and> stream fd w' = es"
    and "\<exists>k r e buf w'. os_getdents64 os fd DIR_BUFFER_SIZE w = (r, e, buf, w') \<and> r < 2 ^ 63 \<and>
        entries_at buf 0 (take k (stream fd w)) r \<and> stream fd w' = drop k (stream fd w) \<and> (stream fd w \<noteq> [] \<longrightarrow> 0 < k)"
    and "f AND O_DIRECTORY = 0 \<Longrightarrow> (\<lambda>x. stream x (snd (snd (os_open os p f m w)))) = (\<lambda>x. stream x w)"
    and "stat v p = Some st \<Longrightarrow>
        \<exists>e w'. os_statx os AT_FDCWD p 0 STATX_BASIC_STATS w = (0, e, st, w') \<and> (\<lambda>x. stream x w') = (\<lambda>x. stream x w)"
    and "target v p = Some l \<Longrightarrow> link_target os AT_FDCWD p l w"
    and "\<exists>e w'. os_symlink os a b w = (0, e, w') \<and> (\<lambda>x. stream x w') = (\<lambda>x. stream x w)"
    and "\<exists>w'. mkdirOne os p w = Inr w' \<and> (\<lambda>x. stream x w') = (\<lambda>x. stream x w)"
    and "fst (os_close os fd w) = 0"
  using assms by (simp_all only: fs_laws_def fun_eq_iff) (blast | simp)+

section \<open>The jobs of a walk\<close>

text \<open>The paths of the descriptors that were constructed, in their order: two for each job.\<close>

definition paths :: "CopyQueue \<Rightarrow> path list" where
  "paths q = concat (map (\<lambda>d. case fds q d of None \<Rightarrow> [] | Some f \<Rightarrow> [qfd_path f]) [0..<next_object q])"

definition fds_below :: "CopyQueue \<Rightarrow> bool" where
  "fds_below q \<longleftrightarrow> (\<forall>d \<in> dom (fds q). d < next_object q)"

definition added :: "CopyQueue \<Rightarrow> CopyQueue \<Rightarrow> (path \<times> path \<times> statx) list \<Rightarrow> bool" where
  "added q q' js \<longleftrightarrow>
     paths q' = paths q @ concat (map (\<lambda>(src, dst, st). [src, dst]) js) \<and>
     totalBytesToCopy q' = totalBytesToCopy q + sum_list (map (\<lambda>(src, dst, st). stx_size st) js) \<and>
     errored q' = errored q \<and> copyBufferHeap q' = copyBufferHeap q \<and> q_state q' = q_state q \<and> fds_below q'"

lemma added_Nil: "fds_below q \<Longrightarrow> added q q []"
  by (simp add: added_def)

lemma added_trans: "added q q1 js \<Longrightarrow> added q1 q2 js' \<Longrightarrow> added q q2 (js @ js')"
  by (simp add: added_def)

lemma added_addable: "added q q' js \<Longrightarrow> addable st q' = addable st q"
  using chunk_size_cong [of q' q] by (simp add: added_def addable_def can_add_def)

lemma paths_grow:
  assumes "next_object q' = next_object q + k" "fds q' = (fds q)(next_object q \<mapsto> a, next_object q + 1 \<mapsto> b)"
    and "2 \<le> k" "fds_below q"
  shows "paths q' = paths q @ [qfd_path a, qfd_path b]"
proof -
  let ?n = "next_object q" and ?f = "\<lambda>d. case fds q' d of None \<Rightarrow> [] | Some f \<Rightarrow> [qfd_path f]"
  have none: "fds q d = None" if "?n \<le> d" for d using assms(4) that by (metis domI fds_below_def leD option.exhaust)
  have "[0..<?n + k] = [0..<?n] @ [?n, ?n + 1] @ [?n + 2..<?n + k]"
    using assms(3) by (simp add: upt_add_eq_append [of 0 ?n k] upt_rec [of ?n] upt_rec [of "Suc ?n"])
  moreover have "concat (map ?f [?n + 2..<?n + k]) = []" using none by (auto simp: assms(2))
  moreover have "map ?f [0..<?n] = map (\<lambda>d. case fds q d of None \<Rightarrow> [] | Some f \<Rightarrow> [qfd_path f]) [0..<?n]"
    by (simp add: assms(2))
  moreover have "?f ?n = [qfd_path a]" "?f (?n + 1) = [qfd_path b]" by (simp_all add: assms(2))
  ultimately show ?thesis unfolding paths_def assms(1) by (simp only: map_append concat_append list.map concat.simps append_Nil2 append_Cons append_Nil)
qed

lemma opened_fds:
  "fds (parts_added sfd dfd al c chunks q) = fds q" "errored (parts_added sfd dfd al c chunks q) = errored q"
  "copyBufferHeap (parts_added sfd dfd al c chunks q) = copyBufferHeap q"
  "q_state (parts_added sfd dfd al c chunks q) = q_state q"
  by (induction chunks arbitrary: q) (simp_all add: part_added_def)

text \<open>A job adds its two paths and its bytes, and opens nothing but files.\<close>

lemma myOpen_frame:
  assumes "\<And>p f m w. f AND O_DIRECTORY = 0 \<Longrightarrow> K (snd (snd (os_open os p f m w))) = K w"
    and "oflag AND O_DIRECTORY = 0" "(oflag XOR O_DIRECT) AND O_DIRECTORY = 0"
  shows "K (snd (myOpen os path oflag mode w)) = K w"
proof -
  have "K (snd (snd (myOpen_loop os n path f mode x))) = K (snd (snd x))"
    if "f = oflag \<or> f = oflag XOR O_DIRECT" for n f x
    using that
  proof (induction n arbitrary: f x)
    case 0
    then show ?case by (cases x) simp
  next
    case (Suc n)
    obtain fd0 errno w0 where x: "x = (fd0, errno, w0)" by (metis prod_cases3)
    obtain fd err w1 where o: "os_open os (c_str path) f mode w0 = (fd, err, w1)" by (metis prod_cases3)
    have "f AND O_DIRECTORY = 0" using Suc.prems assms(2,3) by auto
    then have k: "K w1 = K w0" using assms(1) o by (metis snd_conv)
    have "f XOR O_DIRECT = oflag \<or> f XOR O_DIRECT = oflag XOR O_DIRECT"
      using Suc.prems by (auto simp: xor.assoc)
    then show ?case using Suc.IH Suc.prems k o x by (simp add: Let_def)
  qed
  from this [of oflag 5 "(- 1, 0, w)"] show ?thesis
    by (cases "myOpen_loop os 5 path oflag mode (- 1, 0, w)") (simp add: myOpen_def)
qed

lemma new_fd_frame:
  assumes "\<And>p f m w. f AND O_DIRECTORY = 0 \<Longrightarrow> K (snd (snd (os_open os p f m w))) = K w"
    and "oflag AND O_DIRECTORY = 0" "(oflag XOR O_DIRECT) AND O_DIRECTORY = 0"
    and "QueueFileDescriptor_new os l path oflag mode q w = Inr (d, q', w')"
  shows "K w' = K w"
proof -
  have keep: "K w' = K w" if d: "doOpen os d q w = Inr (r, q', w')" "fds q d = Some f" "qfd_oflag f = oflag" for d q r q' w w' f
  proof -
    obtain x where "myOpen os (qfd_path f) oflag (qfd_mode f) w = (x, w')"
      using d by (cases "myOpen os (qfd_path f) oflag (qfd_mode f) w") (auto simp: doOpen_def split: sum.split_asm)
    then show ?thesis using myOpen_frame [OF assms(1-3), of "qfd_path f" "qfd_mode f" w] by simp
  qed
  let ?f = "\<lparr>qfd_path = path, qfd_oflag = oflag, qfd_mode = mode, qfd_fd = NEVER_OPENED_VAL\<rparr>"
  let ?q = "q\<lparr>next_object := next_object q + 1, fds := (fds q)(next_object q \<mapsto> ?f)\<rparr>"
  show ?thesis
  proof (cases "fst (reserveFileDescriptor Low l ?q)")
    case True
    then obtain r where "doOpen os (next_object q) (?q\<lparr>fileDescriptorsUsed := fileDescriptorsUsed q + 1\<rparr>) w = Inr (r, q', w')"
      using assms(4) by (auto simp: QueueFileDescriptor_new_def reserveFileDescriptor_def Let_def outcome_simps split: if_splits)
    then show ?thesis by (rule keep [where f = ?f]) simp_all
  next
    case False
    then show ?thesis using assms(4) by (auto simp: QueueFileDescriptor_new_def reserveFileDescriptor_def Let_def split: if_splits)
  qed
qed

lemma addCopyJob_added:
  assumes "addable st q" "fds_below q"
    and "\<And>p f m w. f AND O_DIRECTORY = 0 \<Longrightarrow> K (snd (snd (os_open os p f m w))) = K w"
  obtains q' w' where "addCopyJob nd os lost src dest st q w = Inr (q', w')" "added q q' [(src, dest, st)]" "K w' = K w"
proof -
  let ?n = "next_object q"
  obtain sfd dfd used w' where a: "addCopyJob nd os lost src dest st q w =
       Inr (parts_added ?n (?n + 1) (job_alignment st) (?n + 2) (job_chunks st q)
              (job_opened src dest (stx_mode st) sfd dfd (length (job_chunks st q)) used q), w')"
    using addCopyJob_eq [OF assms(1)] by metis
  let ?q1 = "job_opened src dest (stx_mode st) sfd dfd (length (job_chunks st q)) used q"
  let ?q' = "parts_added ?n (?n + 1) (job_alignment st) (?n + 2) (job_chunks st q) ?q1"
  have fds: "fds ?q' = (fds q)(?n \<mapsto> \<lparr>qfd_path = src, qfd_oflag = O_RDONLY OR O_DIRECT OR O_CLOEXEC, qfd_mode = 0, qfd_fd = sfd\<rparr>,
      ?n + 1 \<mapsto> \<lparr>qfd_path = dest, qfd_oflag = O_WRONLY OR O_CREAT OR O_TRUNC OR O_CLOEXEC, qfd_mode = stx_mode st, qfd_fd = dfd\<rparr>)"
    by (simp add: opened_fds job_opened_def Let_def)
  have nxt: "next_object ?q' = ?n + (3 + length (job_chunks st q))" by (simp add: parts_added_fields)
  have "paths ?q' = paths q @ [src, dest]" using paths_grow [OF nxt fds _ assms(2)] by simp
  moreover have "totalBytesToCopy ?q' = totalBytesToCopy q + stx_size st"
    using job_chunks_facts(2) [OF assms(1)] by (simp add: parts_added_fields)
  moreover have "fds_below ?q'" unfolding fds_below_def fds nxt
  proof
    fix d
    assume "d \<in> dom ((fds q)(?n \<mapsto> \<lparr>qfd_path = src, qfd_oflag = O_RDONLY OR O_DIRECT OR O_CLOEXEC, qfd_mode = 0, qfd_fd = sfd\<rparr>,
      ?n + 1 \<mapsto> \<lparr>qfd_path = dest, qfd_oflag = O_WRONLY OR O_CREAT OR O_TRUNC OR O_CLOEXEC, qfd_mode = stx_mode st, qfd_fd = dfd\<rparr>))"
    then have "d = ?n \<or> d = ?n + 1 \<or> d \<in> dom (fds q)" by (auto split: if_splits)
    then show "d < ?n + (3 + length (job_chunks st q))" using assms(2) unfolding fds_below_def by (elim disjE) (simp_all add: trans_less_add1)
  qed
  ultimately have "added q ?q' [(src, dest, st)]"
    by (simp add: added_def opened_fds job_opened_def Let_def)
  moreover have "K w' = K w"
  proof -
    obtain j q0 where "job_begin os lost src dest st q w = Inr (j, q0, w')"
      using a unfolding addCopyJob_pieces [OF assms(1)] by (auto simp: effect_simps)
    then obtain sfd q1 w1 dfd q2 where n: "QueueFileDescriptor_new os (fst lost) src (O_RDONLY OR O_DIRECT OR O_CLOEXEC) 0 q w = Inr (sfd, q1, w1)"
      "QueueFileDescriptor_new os (snd lost) dest (O_WRONLY OR O_CREAT OR O_TRUNC OR O_CLOEXEC) (stx_mode st) q1 w1 = Inr (dfd, q2, w')"
      by (auto simp: job_begin_def effect_simps Let_def)
    have "K w1 = K w" by (rule new_fd_frame [OF assms(3) _ _ n(1)]) simp_all
    moreover have "K w' = K w1" by (rule new_fd_frame [OF assms(3) _ _ n(2)]) simp_all
    ultimately show ?thesis by simp
  qed
  ultimately show thesis using that a by blast
qed

section \<open>One directory\<close>

text \<open>The walk over a list of entries.\<close>

fun walk_list ::
  "bool \<Rightarrow> 'w os \<Rightarrow> (path \<Rightarrow> bool \<times> bool) \<Rightarrow> path \<Rightarrow> path \<Rightarrow> path \<Rightarrow> linux_dirent64 list \<Rightarrow> 'w walk \<Rightarrow> 'w walk outcome" where
  "walk_list nd os lost from dest current [] s = Inr s"
| "walk_list nd os lost from dest current (e # es) s =
     and_then (walk_entry nd os lost from dest current e s) (walk_list nd os lost from dest current es)"

lemma entries_at_end: "entries_at buf p es r \<Longrightarrow> int p \<le> r \<and> (es \<noteq> [] \<longrightarrow> int p < r)"
proof (induction es arbitrary: p)
  case (Cons e es)
  have "0 < unat (d_reclen e)" using Cons.prems by (simp add: unat_gt_0)
  moreover have "int (p + unat (d_reclen e)) \<le> r" using Cons.IH [of "p + unat (d_reclen e)"] Cons.prems by simp
  ultimately show ?case by linarith
qed simp

lemma walk_entries_list:
  "entries_at buf p es r \<Longrightarrow>
     walk_entries nd os lost from dest current buf r p s = walk_list nd os lost from dest current es s"
proof (induction es arbitrary: p s)
  case Nil
  then show ?case by (subst walk_entries.simps) simp
next
  case (Cons e es)
  have "int p < r" using entries_at_end [OF Cons.prems] by simp
  then show ?case
    using Cons by (subst walk_entries.simps) (cases "walk_entry nd os lost from dest current e s", auto)
qed

text \<open>What an entry adds to the jobs and to the stack, in the directory at \<open>from @ rel\<close>.\<close>

definition entry_files :: "path \<Rightarrow> path \<Rightarrow> path \<Rightarrow> (linux_dirent64 \<times> ftree option) list \<Rightarrow> (path \<times> path \<times> statx) list" where
  "entry_files from dest rel z = concat (map (\<lambda>(n, t). if is_dir t then []
     else map (\<lambda>(p, st). (from @ p, dest @ p, st)) (tree_files (rel @ n) t)) (nodes_of z))"

definition entry_dirs :: "path \<Rightarrow> (linux_dirent64 \<times> ftree option) list \<Rightarrow> (path \<times> ftree) list" where
  "entry_dirs rel z = map (\<lambda>(n, t). (rel @ n @ ''/'', t)) (filter (\<lambda>(n, t). is_dir t) (nodes_of z))"

definition node_ok :: "fs_view \<Rightarrow> (statx \<Rightarrow> bool) \<Rightarrow> path \<Rightarrow> linux_dirent64 \<times> ftree option \<Rightarrow> bool" where
  "node_ok v ok current = (\<lambda>(e, x). entry_ok e x \<and>
     (case x of None \<Rightarrow> True | Some t \<Rightarrow> presents v (current @ entry_name e) t \<and> (\<forall>st. t = FileNode st \<longrightarrow> ok st)))"

lemma nodes_of_simps [simp]:
  "nodes_of [] = []" "nodes_of ((e, None) # z) = nodes_of z" "nodes_of ((e, Some t) # z) = (entry_name e, t) # nodes_of z"
  by (simp_all add: nodes_of_def)

lemma entry_name_NUL: "NUL \<notin> set (entry_name e)"
  by (auto simp: entry_name_def c_str_def dest: set_takeWhileD)

lemma c_str_entry: "NUL \<notin> set rel \<Longrightarrow> c_str (rel @ entry_name e) = rel @ entry_name e"
  by (rule c_str_id) (simp add: entry_name_NUL)

lemma recursiveMkdir_ok:
  assumes "\<forall>p w. \<exists>w'. mkdirOne os p w = Inr w' \<and> K w' = K w"
  obtains w' where "recursiveMkdir os path w = Inr w'" "K w' = K w"
proof -
  have "\<exists>w'. mkdir_loop os path is w = Inr w' \<and> K w' = K w" for "is" w
  proof (induction "is" arbitrary: w)
    case (Cons i "is")
    obtain w1 where "mkdirOne os (c_str (path[i := NUL])) w = Inr w1" "K w1 = K w" using assms by blast
    then show ?case using Cons.IH [of w] Cons.IH [of w1] by auto
  qed simp
  then obtain w1 where "mkdir_loop os path [1..<length path] w = Inr w1" "K w1 = K w" by blast
  moreover obtain w2 where "mkdirOne os (c_str path) w1 = Inr w2" "K w2 = K w1" using assms by blast
  ultimately show thesis using that by (simp add: recursiveMkdir_def)
qed

lemma myReadlink_eq: "link_target os dfd (c_str path) l w \<Longrightarrow> myReadlink os dfd path w = Some (Inr l, w)"
  using readlink_fill_target [of os dfd path l w] by (simp add: myReadlink_def retrySyscall_def numeral_eq_Suc)

lemma retrySyscall_success: "f 0 s = (0, s') \<Longrightarrow> retrySyscall f s = (0, s')"
  by (simp add: retrySyscall_def numeral_eq_Suc)

lemma walk_entry_ok:
  assumes laws: "fs_laws os stream v" and ok: "node_ok v (\<lambda>st. addable st q) (from @ rel) (e, x)"
    and q: "fds_below q" and nul: "NUL \<notin> set from" "NUL \<notin> set rel"
  obtains q' w' where "walk_entry nd os lost from dest (from @ rel) e (stack, q, w) =
      Inr (stack @ map (\<lambda>(p, t). from @ p) (entry_dirs rel [(e, x)]), q', w')"
    "added q q' (entry_files from dest rel [(e, x)])" "\<forall>fd. stream fd w' = stream fd w"
proof -
  let ?K = "\<lambda>w fd. stream fd w"
  let ?n = "entry_name e" and ?full = "from @ rel @ entry_name e"
  have full: "c_str ?full = ?full" by (rule c_str_id) (use nul in \<open>simp add: entry_name_NUL\<close>)
  have dst: "c_str (drop (length from) ?full) = rel @ ?n" by (simp add: c_str_entry [OF nul(2)])
  have eok: "entry_ok e x" using ok by (simp add: node_ok_def)
  show thesis
  proof (cases x)
    case None
    then have "d_type e = DT_DIR" "?n = ''.'' \<or> ?n = ''..''" using eok by (auto simp: entry_ok_def Let_def)
    then show thesis using that [of q w] None added_Nil [OF q]
      by (auto simp: walk_entry_def Let_def entry_dirs_def entry_files_def entry_name_def)
  next
    case (Some t)
    have nodot: "?n \<noteq> ''.''" "?n \<noteq> ''..''" and ty: "d_type e = kind t \<or> d_type e = DT_UNKNOWN \<and> kind t \<noteq> DT_LNK"
      using eok Some by (auto simp: entry_ok_def Let_def)
    have sh: "presents v ?full t" using ok Some by (simp add: node_ok_def)
    have statx: "\<exists>w'. myStatx os AT_FDCWD ?full 0 STATX_BASIC_STATS b w = (Success, st, w') \<and> ?K w' = ?K w"
      if s: "stat v ?full = Some st" for st b w
    proof -
      obtain ee w' where "os_statx os AT_FDCWD ?full 0 STATX_BASIC_STATS w = (0, ee, st, w')" "?K w' = ?K w"
        using fs_lawsD(4) [OF laws s] by blast
      then show ?thesis using myStatx_ok [of os AT_FDCWD ?full 0 STATX_BASIC_STATS w 0 ee st w' b] full by auto
    qed
    show thesis
    proof (cases t)
      case (FileNode st)
      then have st: "stat v ?full = Some st" "type_of_mode (stx_mode st) = DT_REG" "addable st q"
        using sh ok Some by (auto simp: node_ok_def)
      obtain w1 where w1: "myStatx os AT_FDCWD ?full 0 STATX_BASIC_STATS zero_statx w = (Success, st, w1)" "?K w1 = ?K w"
        using statx [OF st(1)] by blast
      obtain q' w' where a: "addCopyJob nd os (lost ?full) ?full (dest @ rel @ ?n) st q w1 = Inr (q', w')"
        "added q q' [(?full, dest @ rel @ ?n, st)]" "?K w' = ?K w1"
        by (rule addCopyJob_added [OF st(3) q, where K = ?K and os = os]) (rule fs_lawsD(3) [OF laws])
      have "walk_entry nd os lost from dest (from @ rel) e (stack, q, w) = Inr (stack, q', w')"
        using ty FileNode w1(1) a(1) st(2) dst
        by (auto simp: walk_entry_def Let_def kind_def walk_file_def entry_name_def)
      then show thesis using that [of q' w'] a(2,3) w1(2) Some FileNode
        by (simp add: entry_files_def entry_dirs_def fun_eq_iff)
    next
      case (LinkNode l)
      then have d: "d_type e = DT_LNK" and l: "target v ?full = Some l" using ty sh by (auto simp: kind_def)
      obtain ee w' where w': "os_symlink os (c_str l) (c_str (dest @ rel @ ?n)) w = (0, ee, w')" "?K w' = ?K w"
        using fs_lawsD(6) [OF laws] by blast
      have "link_target os AT_FDCWD (c_str ?full) l w" using fs_lawsD(5) [OF laws l] full by simp
      then have rd: "myReadlink os AT_FDCWD ?full w = Some (Inr l, w)" by (rule myReadlink_eq)
      have "walk_entry nd os lost from dest (from @ rel) e (stack, q, w) = Inr (stack, q, w')"
        using d rd w'(1) dst
        by (simp add: walk_entry_def Let_def walk_link_def entry_name_def retrySyscall_success)
      then show thesis using that [of q w'] w'(2) Some LinkNode added_Nil [OF q]
        by (simp add: entry_files_def entry_dirs_def fun_eq_iff)
    next
      case (DirNode ns)
      then obtain st where st: "stat v ?full = Some st" "type_of_mode (stx_mode st) = DT_DIR" using sh by auto
      obtain w1 where w1: "myStatx os AT_FDCWD ?full 0 STATX_BASIC_STATS zero_statx w = (Success, st, w1)" "?K w1 = ?K w"
        using statx [OF st(1)] by blast
      let ?w = "if d_type e = DT_UNKNOWN then w1 else w"
      obtain w' where w': "recursiveMkdir os (dest @ rel @ ?n) ?w = Inr w'" "?K w' = ?K ?w"
        by (rule recursiveMkdir_ok [where K = ?K and os = os]) (use fs_lawsD(7) [OF laws] in blast)
      have "walk_entry nd os lost from dest (from @ rel) e (stack, q, w) = Inr (stack @ [?full @ ''/''], q, w')"
        using ty DirNode w1(1) w'(1) st(2) dst nodot
        by (auto simp: walk_entry_def Let_def kind_def entry_name_def)
      then show thesis using that [of q w'] w'(2) w1(2) Some DirNode added_Nil [OF q]
        by (simp add: entry_files_def entry_dirs_def fun_eq_iff split: if_splits)
    qed
  qed
qed

lemma entry_files_Cons: "entry_files from dest rel (x # z) = entry_files from dest rel [x] @ entry_files from dest rel z"
  by (cases x; cases "snd x") (auto simp: entry_files_def)

lemma entry_dirs_Cons: "entry_dirs rel (x # z) = entry_dirs rel [x] @ entry_dirs rel z"
  by (cases x; cases "snd x") (auto simp: entry_dirs_def)

lemma entry_append:
  "entry_files from dest rel (z @ z') = entry_files from dest rel z @ entry_files from dest rel z'"
  "entry_dirs rel (z @ z') = entry_dirs rel z @ entry_dirs rel z'"
  by (simp_all add: entry_files_def entry_dirs_def nodes_of_def)

text \<open>The entries of one buffer.\<close>

lemma walk_list_ok:
  assumes laws: "fs_laws os stream v" and nul: "NUL \<notin> set from" "NUL \<notin> set rel"
  shows "list_all (node_ok v (\<lambda>st. addable st q) (from @ rel)) z \<Longrightarrow> fds_below q \<Longrightarrow>
    \<exists>q' w'. walk_list nd os lost from dest (from @ rel) (map fst z) (stack, q, w) =
      Inr (stack @ map (\<lambda>(p, t). from @ p) (entry_dirs rel z), q', w') \<and>
      added q q' (entry_files from dest rel z) \<and> (\<forall>fd. stream fd w' = stream fd w)"
proof (induction z arbitrary: stack q w)
  case Nil
  then show ?case using added_Nil [of q] by (simp add: entry_dirs_def entry_files_def)
next
  case (Cons y z)
  obtain e x where y: "y = (e, x)" by fastforce
  obtain q1 w1 where one: "walk_entry nd os lost from dest (from @ rel) e (stack, q, w) =
      Inr (stack @ map (\<lambda>(p, t). from @ p) (entry_dirs rel [y]), q1, w1)"
    "added q q1 (entry_files from dest rel [y])" "\<forall>fd. stream fd w1 = stream fd w"
    unfolding y by (rule walk_entry_ok [OF laws _ Cons.prems(2) nul, where nd = nd and lost = lost and dest = dest])
      (use Cons.prems(1) y in auto)
  have "fds_below q1" using one(2) by (simp add: added_def)
  moreover have "list_all (node_ok v (\<lambda>st. addable st q1) (from @ rel)) z"
    using Cons.prems(1) added_addable [OF one(2)] by simp
  ultimately obtain q' w' where "walk_list nd os lost from dest (from @ rel) (map fst z)
        (stack @ map (\<lambda>(p, t). from @ p) (entry_dirs rel [y]), q1, w1) =
      Inr ((stack @ map (\<lambda>(p, t). from @ p) (entry_dirs rel [y])) @ map (\<lambda>(p, t). from @ p) (entry_dirs rel z), q', w')"
    "added q1 q' (entry_files from dest rel z)" "\<forall>fd. stream fd w' = stream fd w1"
    using Cons.IH by blast
  then show ?case
    using one added_trans [OF one(2)] y
    unfolding entry_dirs_Cons [of rel y z] entry_files_Cons [of "from" dest rel y z] by auto
qed

text \<open>The loop over the buffers ends when the stream is empty.\<close>

lemma dents_loop_ok:
  assumes laws: "fs_laws os stream v" and nul: "NUL \<notin> set from" "NUL \<notin> set rel"
  shows "list_all (node_ok v (\<lambda>st. addable st q) (from @ rel)) z \<Longrightarrow> fds_below q \<Longrightarrow> stream fd w = map fst z \<Longrightarrow>
    \<exists>buf' q' w'. dents_loop nd os lost from dest (from @ rel) fd written buf (stack, q, w) =
      Some (Inr (buf', stack @ map (\<lambda>(p, t). from @ p) (entry_dirs rel z), q', w')) \<and>
      added q q' (entry_files from dest rel z)"
proof (induction "length z" arbitrary: z stack q w written buf rule: less_induct)
  case less
  obtain k r e buf1 w1 where g: "os_getdents64 os fd DIR_BUFFER_SIZE w = (r, e, buf1, w1)" "r < 2 ^ 63"
    "entries_at buf1 0 (take k (map fst z)) r" "stream fd w1 = drop k (map fst z)" "z \<noteq> [] \<longrightarrow> 0 < k"
    using fs_lawsD(2) [OF laws, of fd w] less.prems(3) by auto
  have r0: "0 \<le> r" using entries_at_end [OF g(3)] by simp
  have d: "myGetDents os fd (from @ rel) buf DIR_BUFFER_SIZE w = (Inr (word_of_int r), buf1, w1)"
    using g(1) r0 by (simp add: myGetDents_def retrySyscall_success)
  have sr: "sint (word_of_int r :: u64) = r" using r0 g(2) by (simp add: sint_uint uint_word_of_int signed_take_bit_take_bit signed_take_bit_int_eq_self flip: take_bit_eq_mod)
  let ?z1 = "take k z" and ?z2 = "drop k z"
  have z1: "take k (map fst z) = map fst ?z1" by (simp add: take_map)
  obtain q1 w2 where one: "walk_list nd os lost from dest (from @ rel) (map fst ?z1) (stack, q, w1) =
      Inr (stack @ map (\<lambda>(p, t). from @ p) (entry_dirs rel ?z1), q1, w2)"
    "added q q1 (entry_files from dest rel ?z1)" "\<forall>fd. stream fd w2 = stream fd w1"
    using walk_list_ok [OF laws nul, of q ?z1 nd lost dest stack w1] less.prems(1,2)
    by (metis (no_types, lifting) append_take_drop_id list_all_append)
  let ?s1 = "stack @ map (\<lambda>(p, t). from @ p) (entry_dirs rel ?z1)"
  have we: "walk_entries nd os lost from dest (from @ rel) buf1 r 0 (stack, q, w1) = Inr (?s1, q1, w2)"
    using walk_entries_list [OF g(3), of nd os lost "from" dest "from @ rel" "(stack, q, w1)"] one(1) z1 by simp
  have z: "entry_dirs rel z = entry_dirs rel ?z1 @ entry_dirs rel ?z2"
    "entry_files from dest rel z = entry_files from dest rel ?z1 @ entry_files from dest rel ?z2"
    using entry_append(1) [of "from" dest rel ?z1 ?z2] entry_append(2) [of rel ?z1 ?z2] by simp_all
  show ?case
  proof (cases "r = 0")
    case True
    then have "take k (map fst z) = []" using entries_at_end [OF g(3)] by auto
    then have "z = []" using g(5) by auto
    then show ?thesis using d sr we one(2) True by (subst dents_loop.simps) simp
  next
    case False
    have "length ?z2 < length z"
    proof -
      have "z \<noteq> []" using False g(3) by auto
      then show ?thesis using g(5) by simp
    qed
    moreover have "list_all (node_ok v (\<lambda>st. addable st q1) (from @ rel)) ?z2"
      using less.prems(1) unfolding added_addable [OF one(2)] by (auto simp: list_all_iff dest: in_set_dropD)
    moreover have "fds_below q1" using one(2) by (simp add: added_def)
    moreover have "stream fd w2 = map fst ?z2" using one(3) g(4) by (simp add: drop_map)
    ultimately obtain buf' q' w' where "dents_loop nd os lost from dest (from @ rel) fd r buf1 (?s1, q1, w2) =
        Some (Inr (buf', ?s1 @ map (\<lambda>(p, t). from @ p) (entry_dirs rel ?z2), q', w'))"
      "added q1 q' (entry_files from dest rel ?z2)"
      using less.hyps by blast
    then show ?thesis
      using d sr we False added_trans [OF one(2)] unfolding z by (subst dents_loop.simps) auto
  qed
qed

section \<open>The whole tree\<close>

text \<open>The jobs of a directory at \<open>from @ rel\<close>, in the order of the walk.\<close>

definition tree_jobs :: "path \<Rightarrow> path \<Rightarrow> path \<times> ftree \<Rightarrow> (path \<times> path \<times> statx) list" where
  "tree_jobs from dest = (\<lambda>(rel, t). map (\<lambda>(p, st). (from @ p, dest @ p, st)) (tree_files rel t))"

lemma tree_jobs_dir:
  assumes "nodes_of z = ns"
  shows "tree_jobs from dest (rel, DirNode ns) =
    entry_files from dest rel z @ concat (map (tree_jobs from dest) (rev (entry_dirs rel z)))"
proof -
  have filtered: "concat (map (\<lambda>x. if P x then f x else []) xs) = concat (map f (filter P xs))"
    for P and f :: "string \<times> ftree \<Rightarrow> (path \<times> path \<times> statx) list" and xs
    by (induction xs) auto
  show ?thesis
    unfolding tree_jobs_def entry_files_def entry_dirs_def assms
    by (simp add: filtered map_concat comp_def case_prod_unfold rev_map rev_filter if_distrib cong: if_cong)
qed

fun all_files :: "(statx \<Rightarrow> bool) \<Rightarrow> ftree \<Rightarrow> bool" where
  "all_files ok (FileNode st) = ok st"
| "all_files ok (LinkNode l) = True"
| "all_files ok (DirNode ns) = (\<forall>t \<in> snd ` set ns. all_files ok t)"

lemma nodes_of_mem: "(e, Some t) \<in> set z \<Longrightarrow> (entry_name e, t) \<in> set (nodes_of z)"
  by (force simp: nodes_of_def)

lemma nodes_of_memD: "(n, t) \<in> set (nodes_of z) \<Longrightarrow> \<exists>e. (e, Some t) \<in> set z \<and> n = entry_name e"
  by (auto simp: nodes_of_def split: option.splits)

text \<open>A directory that waits on the stack: its path ends with a slash, but for the root \<open>from\<close> itself.\<close>

definition waiting :: "fs_view \<Rightarrow> (statx \<Rightarrow> bool) \<Rightarrow> path \<Rightarrow> path \<times> ftree \<Rightarrow> bool" where
  "waiting v ok from = (\<lambda>(rel, t). is_dir t \<and> NUL \<notin> set rel \<and> all_files ok t \<and>
     (\<exists>p. from @ rel = p @ ''/'' \<and> presents v p t))"

lemma waiting_nodes:
  assumes "waiting v ok from (rel, DirNode ns)"
  obtains z where "listing v (from @ rel) = Some (map fst z)" "nodes_of z = ns" "list_all (node_ok v ok (from @ rel)) z"
    "list_all (waiting v ok from) (entry_dirs rel z)"
proof -
  obtain p z where p: "from @ rel = p @ ''/''" "listing v (p @ ''/'') = Some (map fst z)"
    "list_all (\<lambda>(e, x). entry_ok e x) z" "nodes_of z = ns" "list_all (\<lambda>(n, t). presents v (p @ ''/'' @ n) t) ns"
    using assms by (auto simp: waiting_def)
  have files: "\<forall>t \<in> snd ` set ns. all_files ok t" and nul: "NUL \<notin> set rel" using assms by (simp_all add: waiting_def)
  have node: "presents v (from @ rel @ n) t \<and> all_files ok t" if "(n, t) \<in> set ns" for n t
  proof -
    have path: "from @ rel @ n = p @ ''/'' @ n" using p(1) by (metis append.assoc)
    have "presents v (p @ ''/'' @ n) t" using p(5) that by (auto simp: list_all_iff)
    moreover have "t \<in> snd ` set ns" using that by (rule image_eqI [rotated]) simp
    ultimately show ?thesis using files unfolding path by blast
  qed
  have "node_ok v ok (from @ rel) (e, x)" if "(e, x) \<in> set z" for e x
  proof (cases x)
    case None
    then show ?thesis using p(3) that by (auto simp: node_ok_def list_all_iff)
  next
    case (Some t)
    then have "presents v (from @ rel @ entry_name e) t \<and> all_files ok t"
      using node nodes_of_mem that p(4) by blast
    then show ?thesis using p(3) that Some by (auto simp: node_ok_def list_all_iff)
  qed
  then have "list_all (node_ok v ok (from @ rel)) z" by (auto simp: list_all_iff)
  moreover have "waiting v ok from (rel @ n @ ''/'', t)" if "(n, t) \<in> set ns" "is_dir t" for n t
    using node [OF that(1)] that nul nodes_of_memD [of n t z] p(4) entry_name_NUL
    by (auto simp: waiting_def intro!: exI [of _ "from @ rel @ n"])
  then have "list_all (waiting v ok from) (entry_dirs rel z)" by (auto simp: entry_dirs_def p(4) list_all_iff)
  ultimately show thesis using that p by simp
qed

lemma walk_directory_ok:
  assumes laws: "fs_laws os stream v" and nul: "NUL \<notin> set from" and q: "fds_below q"
    and wait: "waiting v (\<lambda>st. addable st q) from (rel, DirNode ns)"
  obtains z buf' q' w' where "nodes_of z = ns" "list_all (waiting v (\<lambda>st. addable st q) from) (entry_dirs rel z)"
    "walk_directory nd os lost from dest (from @ rel) buf (stack, q, w) =
       Inr (buf', stack @ map (\<lambda>(p, t). from @ p) (entry_dirs rel z), q', w')"
    "added q q' (entry_files from dest rel z)"
proof -
  obtain z where z: "listing v (from @ rel) = Some (map fst z)" "nodes_of z = ns"
    "list_all (node_ok v (\<lambda>st. addable st q) (from @ rel)) z" "list_all (waiting v (\<lambda>st. addable st q) from) (entry_dirs rel z)"
    by (rule waiting_nodes [OF wait])
  have rel: "NUL \<notin> set rel" using wait by (simp add: waiting_def)
  then have path: "c_str (from @ rel) = from @ rel" using nul by (intro c_str_id) simp
  obtain fd e w1 where o: "os_open os (from @ rel) (O_RDONLY OR O_DIRECTORY OR O_CLOEXEC) 0 w = (fd, e, w1)" "0 < fd"
    "stream fd w1 = map fst z"
    using fs_lawsD(1) [OF laws z(1)] by blast
  have "myOpen os (from @ rel) (O_RDONLY OR O_DIRECTORY OR O_CLOEXEC) 0 w = (Inr fd, w1)"
    using o path by (intro myOpen_first(1)) auto
  moreover obtain buf' q' w2 where "dents_loop nd os lost from dest (from @ rel) fd 0 buf (stack, q, w1) =
      Some (Inr (buf', stack @ map (\<lambda>(p, t). from @ p) (entry_dirs rel z), q', w2))"
    "added q q' (entry_files from dest rel z)"
    using dents_loop_ok [OF laws nul rel z(3) q o(3)] by blast
  moreover obtain c w3 where "os_close os fd w2 = (0, c, w3)" using fs_lawsD(8) [OF laws, of fd w2] by (metis prod_cases3 fst_conv)
  ultimately show thesis
    using that [OF z(2,4)] o(2)
    by (simp add: walk_directory_def ScopedFileDescriptor_open_def ScopedFileDescriptor_getFd_def ScopedFileDescriptor_dtor_def)
qed

lemma size_entry_dirs: "sum_list (map (\<lambda>(p, t). size t) (entry_dirs rel z)) < size (DirNode (nodes_of z))"
proof -
  have "sum_list (map (\<lambda>(p, t). size t) (filter P ns)) < size (DirNode ns)" for P :: "string \<times> ftree \<Rightarrow> bool" and ns
    by (induction ns) auto
  then show ?thesis by (simp add: entry_dirs_def comp_def case_prod_unfold)
qed

lemma walk_stack_ok:
  assumes laws: "fs_laws os stream v" and nul: "NUL \<notin> set from"
  shows "fds_below q \<Longrightarrow> list_all (waiting v (\<lambda>st. addable st q) from) ds \<Longrightarrow>
    \<exists>q' w'. walk_stack nd os lost from dest buf (map (\<lambda>(p, t). from @ p) ds, q, w) = Some (Inr (q', w')) \<and>
      added q q' (concat (map (tree_jobs from dest) (rev ds)))"
proof (induction "sum_list (map (\<lambda>(p, t). size t) ds)" arbitrary: ds q w buf rule: less_induct)
  case less
  show ?case
  proof (cases ds rule: rev_cases)
    case Nil
    then show ?thesis using added_Nil [OF less.prems(1)] by (subst walk_stack.simps) simp
  next
    case (snoc ds' d)
    obtain rel ns where d: "d = (rel, DirNode ns)"
      using less.prems(2) snoc by (cases d; cases "snd d") (auto simp: waiting_def)
    have wait: "waiting v (\<lambda>st. addable st q) from (rel, DirNode ns)" using less.prems(2) snoc d by simp
    obtain z buf' q1 w1 where z: "nodes_of z = ns" "list_all (waiting v (\<lambda>st. addable st q) from) (entry_dirs rel z)"
      "walk_directory nd os lost from dest (from @ rel) buf (map (\<lambda>(p, t). from @ p) ds', q, w) =
         Inr (buf', map (\<lambda>(p, t). from @ p) ds' @ map (\<lambda>(p, t). from @ p) (entry_dirs rel z), q1, w1)"
      "added q q1 (entry_files from dest rel z)"
      by (rule walk_directory_ok [OF laws nul less.prems(1) wait])
    let ?ds = "ds' @ entry_dirs rel z"
    have "sum_list (map (\<lambda>(p, t). size t) ?ds) < sum_list (map (\<lambda>(p, t). size t) ds)"
      using size_entry_dirs [of rel z] snoc d z(1) by simp
    moreover have "fds_below q1" using z(4) by (simp add: added_def)
    moreover have "list_all (waiting v (\<lambda>st. addable st q1) from) ?ds"
      using less.prems(2) z(2) snoc unfolding added_addable [OF z(4)] by simp
    ultimately obtain q' w' where "walk_stack nd os lost from dest buf' (map (\<lambda>(p, t). from @ p) ?ds, q1, w1) = Some (Inr (q', w'))"
      "added q1 q' (concat (map (tree_jobs from dest) (rev ?ds)))"
      using less.hyps by blast
    moreover have "concat (map (tree_jobs from dest) (rev ds)) =
        entry_files from dest rel z @ concat (map (tree_jobs from dest) (rev ?ds))"
      using tree_jobs_dir [OF z(1), of "from" dest rel] snoc d by simp
    ultimately show ?thesis
      using z(3) added_trans [OF z(4)] snoc d by (subst walk_stack.simps) auto
  qed
qed


text \<open>
  A file system with the directory \<open>s\<close>, which holds a file \<open>a\<close> of unknown type, a link \<open>l\<close>
  and a directory \<open>d\<close> with a file \<open>b\<close>. \<open>getdents64\<close> returns one entry at a time.
\<close>

definition dirent :: "string \<Rightarrow> u8 \<Rightarrow> linux_dirent64" where
  "dirent n t = \<lparr>d_reclen = 24, d_type = t, d_name = n\<rparr>"

definition demo_view :: fs_view where
  "demo_view = \<lparr>
     listing = [''s/'' \<mapsto> [dirent ''.'' DT_DIR, dirent ''a'' DT_UNKNOWN, dirent ''l'' DT_LNK, dirent ''d'' DT_DIR],
                ''s/d/'' \<mapsto> [dirent ''..'' DT_DIR, dirent ''b'' DT_REG]],
     stat = [''s'' \<mapsto> zero_statx\<lparr>stx_mode := 0x41ED\<rparr>, ''s/d'' \<mapsto> zero_statx\<lparr>stx_mode := 0x41ED\<rparr>, ''s/a'' \<mapsto> big_stat, ''s/d/b'' \<mapsto> big_stat],
     target = [''s/l'' \<mapsto> ''x'']\<rparr>"

definition demo_os :: "linux_dirent64 list os" where
  "demo_os = no_os\<lparr>
     os_open := \<lambda>p f m w. if f AND O_DIRECTORY = 0 then (- 1, ENOENT, w)
        else case listing demo_view p of None \<Rightarrow> (- 1, ENOENT, w) | Some es \<Rightarrow> (3, 0, es),
     os_getdents64 := \<lambda>fd n w. case filter (\<lambda>e. d_reclen e \<noteq> 0) w of
         [] \<Rightarrow> (0, 0, \<lambda>_. dirent [] 0, [])
       | e # es \<Rightarrow> (int (unat (d_reclen e)), 0, \<lambda>_. e, es),
     os_statx := \<lambda>fd p f m w. case stat demo_view p of None \<Rightarrow> (- 1, ENOENT, zero_statx, w) | Some st \<Rightarrow> (0, 0, st, w),
     os_readlinkat := \<lambda>fd p n w. (int (min n 1), 0, take n ''x'', w)\<rparr>"

definition demo_tree :: "(string \<times> ftree) list" where
  "demo_tree = [(''a'', FileNode big_stat), (''l'', LinkNode ''x''), (''d'', DirNode [(''b'', FileNode big_stat)])]"

lemma demo_laws: "fs_laws demo_os (\<lambda>fd. filter (\<lambda>e. d_reclen e \<noteq> 0)) demo_view"
proof -
  have "\<exists>k r e buf w'. os_getdents64 demo_os fd DIR_BUFFER_SIZE w = (r, e, buf, w') \<and> r < 2 ^ 63 \<and>
      entries_at buf 0 (take k (filter (\<lambda>e. d_reclen e \<noteq> 0) w)) r \<and>
      filter (\<lambda>e. d_reclen e \<noteq> 0) w' = drop k (filter (\<lambda>e. d_reclen e \<noteq> 0) w) \<and>
      (filter (\<lambda>e. d_reclen e \<noteq> 0) w \<noteq> [] \<longrightarrow> 0 < k)" for fd w
  proof (cases "filter (\<lambda>e. d_reclen e \<noteq> 0) w")
    case Nil
    then show ?thesis by (intro exI [of _ 0]) (simp add: demo_os_def)
  next
    case (Cons e es)
    have all: "\<forall>x \<in> set (e # es). d_reclen x \<noteq> 0" unfolding Cons [symmetric] by simp
    then have "filter (\<lambda>e. d_reclen e \<noteq> 0) es = es" by (intro filter_True) simp
    moreover have "int (unat (d_reclen e)) < 2 ^ 63"
      using unsigned_less [of "d_reclen e", where ?'a = int] by simp
    moreover have "os_getdents64 demo_os fd DIR_BUFFER_SIZE w = (int (unat (d_reclen e)), 0, \<lambda>_. e, es)"
      using Cons by (simp add: demo_os_def)
    moreover have "entries_at (\<lambda>_. e) 0 [e] (int (unat (d_reclen e)))" using all by simp
    ultimately show ?thesis unfolding Cons
      by (intro exI [of _ 1] exI [of _ "int (unat (d_reclen e))"] exI [of _ 0] exI [of _ "\<lambda>_. e"] exI [of _ es]) simp
  qed
  moreover have "\<exists>w'. mkdirOne demo_os p w = Inr w' \<and> (\<forall>fd :: int. filter (\<lambda>e. d_reclen e \<noteq> 0) w' = filter (\<lambda>e. d_reclen e \<noteq> 0) w)" for p w
    by (simp add: mkdirOne_def demo_os_def no_os_def Let_def)
  ultimately show ?thesis
    unfolding fs_laws_def
    by (intro conjI allI impI) (auto simp: demo_os_def demo_view_def dirent_def link_target_def no_os_def split: if_splits)
qed

lemma demo_presents: "presents demo_view ''s'' (DirNode demo_tree)"
proof -
  have "presents demo_view ''s/d'' (DirNode [(''b'', FileNode big_stat)])"
    by (simp add: demo_view_def zero_statx_def type_of_mode_def S_IFMT_is_def big_stat_def)
      (rule exI [of _ "[(dirent ''..'' DT_DIR, None), (dirent ''b'' DT_REG, Some (FileNode big_stat))]"],
       simp add: entry_ok_def entry_name_def dirent_def c_str_def kind_def big_stat_def)
  then show ?thesis
    unfolding demo_tree_def
    by (simp add: demo_view_def zero_statx_def type_of_mode_def S_IFMT_is_def big_stat_def)
      (rule exI [of _ "[(dirent ''.'' DT_DIR, None), (dirent ''a'' DT_UNKNOWN, Some (FileNode big_stat)),
         (dirent ''l'' DT_LNK, Some (LinkNode ''x'')), (dirent ''d'' DT_DIR, Some (DirNode [(''b'', FileNode big_stat)]))]"],
       simp add: entry_ok_def entry_name_def dirent_def c_str_def kind_def big_stat_def)
qed


section \<open>An error in the middle of a directory\<close>

definition getdents_fails :: "'w os \<Rightarrow> int \<Rightarrow> bool" where
  "getdents_fails os fd \<longleftrightarrow>
     (\<forall>w. case os_getdents64 os fd DIR_BUFFER_SIZE w of (ret, err, buf, w') \<Rightarrow>
        ret < 0 \<and> err \<noteq> 0 \<and> err \<noteq> EINTR \<and> err \<noteq> EAGAIN)"

lemma myGetDents_fails:
  assumes "getdents_fails os fd"
  obtains e buf' w' where "myGetDents os fd path buf DIR_BUFFER_SIZE w = (Inl e, buf', w')"
proof -
  obtain ret err buf' w' where g: "os_getdents64 os fd DIR_BUFFER_SIZE w = (ret, err, buf', w')" by (metis prod_cases4)
  then have "ret < 0" "err \<noteq> 0" "err \<noteq> EINTR" "err \<noteq> EAGAIN" using assms [unfolded getdents_fails_def, rule_format, of w] by auto
  then show thesis using that g by (simp add: myGetDents_def retrySyscall_def numeral_eq_Suc)
qed



end
