(* ===== verification/Copy_Progress.thy ===== *)
theory Copy_Progress
  imports Copy_Submit Text_Format
begin

text \<open>
  The progress display of \<open>src/CopyQueue.cpp\<close>: the body of \<open>showProgress\<close>, which prints the error
  messages, a status line and a progress bar, and the loop of the progress thread with its timed wait.
  The readings of the clock, the width of the terminal and the result of \<open>pthread_mutex_timedlock\<close> are
  arguments; a \<open>float\<close> or \<open>double\<close> is a real number. \<open>Config::VALGRIND_MODE\<close>,
  \<open>Config::PROGRESS_DEBUG_SIMPLE\<close> and \<open>Config::TEST_ETA_CALCULATION\<close> are constants \<open>false\<close>.
\<close>

section \<open>State\<close>

text \<open>
  The locals of \<open>showProgressLoop\<close>. A point of time is a number of nanoseconds; a start point of the
  measurement of the speed has the bytes that were copied then.
\<close>

record progress =
  started :: int
  startQueue :: "(int \<times> u64) list"
  firstShow :: bool

definition progress_init :: "int \<Rightarrow> int \<Rightarrow> progress" where
  "progress_init now now2 = \<lparr>started = now, startQueue = [(now2, 0)], firstShow = True\<rparr>"

text \<open>\<open>duration_cast<std::chrono::milliseconds>\<close> of a difference that is not negative, in seconds.\<close>

definition seconds_between :: "int \<Rightarrow> int \<Rightarrow> real" where
  "seconds_between since now = of_int ((now - since) div 1000000) / 1000"

section \<open>The lines\<close>

definition showLine :: "int \<Rightarrow> string \<Rightarrow> string" where
  "showLine termWidth line = c_str (rightPad [] line termWidth @ [CHR 0x0A])"

text \<open>
  The speed since the first start point. A measurement that took no whole millisecond divides by zero; the
  result cannot be converted to the \<open>size_t\<close> that is printed.
\<close>

definition measure_speed :: "int \<Rightarrow> int \<Rightarrow> u64 \<Rightarrow> (int \<times> u64) list \<Rightarrow> (real \<times> (int \<times> u64) list) outcome" where
  "measure_speed now2 now3 copied points =
     (if copied > 0 then
        (case points of
           [] \<Rightarrow> Inl (UndefinedBehaviour ''startQueue.front()'')
         | (since, sz) # _ \<Rightarrow>
             (let secondsSinceStartX = seconds_between since now2
              in defined_if ''size_t(bytesPerSecond)'' (secondsSinceStartX \<noteq> 0)
                (let speed = real (unat (copied - sz)) / secondsSinceStartX;
                     points = points @ [(now3, copied)]
                 in Inr (speed, if secondsSinceStartX > 45 then tl points else points))))
      else Inr (0, points))"

definition size_of_speed :: "real \<Rightarrow> u64 outcome" where
  "size_of_speed x = defined_if ''size_t(bytesPerSecond)'' (0 \<le> \<lfloor>x\<rfloor> \<and> \<lfloor>x\<rfloor> < 2 ^ 64) (Inr (word_of_int \<lfloor>x\<rfloor>))"

text \<open>
  The text of the estimate, with the updated calculator. Without copies left the estimated speed
  is 0, and the quotient is no number.
\<close>

definition eta_text :: "bool \<Rightarrow> u64 \<Rightarrow> u64 \<Rightarrow> real \<Rightarrow> ETACalculator \<Rightarrow> (string \<times> ETACalculator) outcome" where
  "eta_text ndebug toCopy copied speed e =
     and_then (updateSpeedEstimate ndebug speed e) (\<lambda>e.
     and_then (getEta e) (\<lambda>etaBytesPerSec.
       if etaBytesPerSec \<noteq> -1 then
         defined_if ''uint32_t(floor(eta))'' (etaBytesPerSec \<noteq> 0)
           (and_then (humanFriendlyTime (real (unat (toCopy - copied)) / etaBytesPerSec)) (\<lambda>t. Inr (''~'' @ t, e)))
       else Inr (''???'', e)))"

definition status_line ::
  "bool \<Rightarrow> int \<Rightarrow> int \<times> int \<times> int \<Rightarrow> bool \<Rightarrow> u64 \<Rightarrow> u64 \<Rightarrow> progress \<Rightarrow> ETACalculator \<Rightarrow>
     (string \<times> progress \<times> ETACalculator) outcome" where
  "status_line ndebug termWidth now haveTotal toCopy copied p e =
     (case now of (now1, now2, now3) \<Rightarrow>
      and_then (humanFriendlyTime (seconds_between (started p) now1)) (\<lambda>elapsed.
      and_then (measure_speed now2 now3 copied (startQueue p)) (\<lambda>(speed, points).
      let statusLine = '' Elapsed: '' @ elapsed;
          centre = leftPad [] (humanFriendlyFileSize copied) 10 CHR '' '' @ '' / '' @
            (if haveTotal then humanFriendlyFileSize toCopy else ''???'')
      in and_then (returned ''centreAlign'' (centreAlign statusLine centre termWidth)) (\<lambda>statusLine.
         and_then (size_of_speed speed) (\<lambda>bps.
         let right = leftPad [] (humanFriendlyFileSize bps) 10 CHR '' '' @ ''/s   ETA: ''
         in and_then (if haveTotal then eta_text ndebug toCopy copied speed e else Inr (''???'', e)) (\<lambda>(eta, e).
            let right = right @ eta @ '' ''
            in Inr (leftPad statusLine right termWidth CHR '' '', p\<lparr>startQueue := points\<rparr>, e)))))))"

text \<open>The two characters of the bar, as the bytes of their UTF-8 encoding.\<close>

definition FULL_BLOCK :: string where "FULL_BLOCK = [CHR 0xE2, CHR 0x96, CHR 0x88]"
definition SHADED_BLOCK :: string where "SHADED_BLOCK = [CHR 0xE2, CHR 0x96, CHR 0x92]"

text \<open>A conversion to \<open>int\<close> drops the fraction.\<close>

definition trunc_int :: "real \<Rightarrow> int" where
  "trunc_int x = (if x < 0 then \<lceil>x\<rceil> else \<lfloor>x\<rfloor>)"

fun bar_loop :: "int \<Rightarrow> int list \<Rightarrow> string \<Rightarrow> string" where
  "bar_loop doneChars [] line = line"
| "bar_loop doneChars (i # is) line = bar_loop doneChars is (line @ (if i < doneChars then FULL_BLOCK else SHADED_BLOCK))"

definition bar_line :: "int \<Rightarrow> u64 \<Rightarrow> u64 \<Rightarrow> string" where
  "bar_line termWidth toCopy copied =
     (let ratio = (if toCopy > 0 then real (unat copied) / real (unat toCopy) else 0);
          percentDone = trunc_int (ratio * 100);
          width = termWidth - 6;
          line = leftPad [] (to_string (nat percentDone)) 3 CHR '' '' @ ''% '';
          doneChars = trunc_int (ratio * of_int width)
      in bar_loop doneChars [0..width - 1] line)"

section \<open>showProgress\<close>

text \<open>What is written to the standard error stream, and the new state.\<close>

definition showProgress ::
  "bool \<Rightarrow> int \<Rightarrow> int \<times> int \<times> int \<Rightarrow> progress \<Rightarrow> CopyQueue \<Rightarrow> (string list \<times> progress \<times> CopyQueue) outcome" where
  "showProgress ndebug termWidth now p q =
     (let out = (if firstShow p then [] else [[CHR 0x0D, CHR 0x1B] @ ''[2A'']) @ map (showLine termWidth) (errorMessages q);
          q = q\<lparr>errorMessages := []\<rparr>;
          haveTotal = (q_state q = AdditionComplete);
          toCopy = totalBytesToCopy q;
          copied = totalBytesCopied q
      in and_then (status_line ndebug termWidth now haveTotal toCopy copied p (etaCalulator q)) (\<lambda>(status, p, e).
         and_then (if \<not> haveTotal
                   then and_then (returned ''centreAlign''
                          (centreAlign [] (''Calculating, found: '' @ humanFriendlyFileSize toCopy) termWidth)) Inr
                   else Inr (bar_line termWidth toCopy copied)) (\<lambda>second.
         Inr (out @ [showLine termWidth status, showLine termWidth second], p\<lparr>firstShow := False\<rparr>, q\<lparr>etaCalulator := e\<rparr>))))"

section \<open>The loop\<close>

abbreviation (input) ETIMEDOUT :: int where "ETIMEDOUT \<equiv> 110"

text \<open>The time up to which the thread waits, from the reading of \<open>CLOCK_REALTIME\<close> in seconds and nanoseconds.\<close>

definition timeoutTime :: "int \<times> int \<Rightarrow> int \<times> int" where
  "timeoutTime now =
     (let updateIntervalSeconds = 1 / 4 :: real;
          tv_sec = fst now + \<lfloor>updateIntervalSeconds\<rfloor>;
          tv_nsec = snd now + trunc_int ((updateIntervalSeconds - of_int \<lfloor>updateIntervalSeconds\<rfloor>) * 1000000000)
      in if tv_nsec > 1000000000 then (tv_sec + 1, tv_nsec - 1000000000) else (tv_sec, tv_nsec))"

text \<open>
  One turn: whether the loop goes on. \<open>timedlock\<close> maps the time to the result of
  \<open>pthread_mutex_timedlock\<close>.
\<close>

definition progress_turn ::
  "bool \<Rightarrow> int \<Rightarrow> int \<times> int \<times> int \<Rightarrow> int \<times> int \<Rightarrow> (int \<times> int \<Rightarrow> int) \<Rightarrow> progress \<Rightarrow> CopyQueue \<Rightarrow>
     (bool \<times> string list \<times> progress \<times> CopyQueue) outcome" where
  "progress_turn ndebug termWidth now realtime timedlock p q =
     (if isDone q then Inr (False, [], p, q)
      else and_then (showProgress ndebug termWidth now p q) (\<lambda>(out, p, q).
        let err = timedlock (timeoutTime realtime)
        in release_assert ''err == 0 || err == ETIMEDOUT'' (err = 0 \<or> err = ETIMEDOUT)
          (Inr (err \<noteq> 0, out, p, q))))"

definition progress_end ::
  "bool \<Rightarrow> int \<Rightarrow> int \<times> int \<times> int \<Rightarrow> progress \<Rightarrow> CopyQueue \<Rightarrow> (pass_end \<times> string list \<times> progress \<times> CopyQueue) outcome" where
  "progress_end ndebug termWidth now p q =
     and_then (showProgress ndebug termWidth now p q) (\<lambda>(out, p, q).
       Inr (if completionAction q = ExitProcessNoCleanup then ProcessExit (exitProcess q) else ThreadReturn, out, p, q))"

section \<open>Correctness\<close>

lemma bar_loop_eq:
  "bar_loop d is line = line @ concat (map (\<lambda>i. if i < d then FULL_BLOCK else SHADED_BLOCK) is)"
  by (induction "is" arbitrary: line) simp_all

lemma upto_blocks:
  assumes "d \<le> w"
  shows "concat (map (\<lambda>i. if i < int d then a else b) [0..int w - 1]) = concat (replicate d a) @ concat (replicate (w - d) b)"
proof -
  have split: "[0..int w - 1] = [0..int d - 1] @ [int d..int w - 1]"
    using assms upto_split1 [of 0 "int d" "int w - 1"] by (cases "d = w") simp_all
  have "map (\<lambda>i. if i < int d then a else b) [0..int d - 1] = replicate d a"
    by (rule replicate_eqI) auto
  moreover have "map (\<lambda>i. if i < int d then a else b) [int d..int w - 1] = replicate (w - d) b"
    by (rule replicate_eqI) auto
  ultimately show ?thesis unfolding split by simp
qed



text \<open>
  The wait of the progress thread ends a quarter of a second after the reading of the clock, but the time is
  well-formed, with less than a thousand million nanoseconds, only if the reading is not exactly
  at 750000000 nanoseconds: the overflow is compared with \<open>>\<close> instead of \<open>>=\<close>. For an ill-formed time
  \<open>pthread_mutex_timedlock\<close> returns \<open>EINVAL\<close> when it would have to wait, which fails the assertion that follows.
\<close>

theorem timeout_well_formed:
  assumes "0 \<le> nsec" "nsec < 1000000000"
  shows "let (s, n) = timeoutTime (sec, nsec)
    in s * 1000000000 + n = sec * 1000000000 + nsec + 250000000 \<and> 0 \<le> n \<and> n \<le> 1000000000 \<and>
       (n < 1000000000 \<longleftrightarrow> nsec \<noteq> 750000000)"
  using assms by (auto simp: timeoutTime_def trunc_int_def Let_def)

theorem timeout_well_formed_witness: "snd (timeoutTime (5, 750000000)) = 1000000000 \<and> snd (timeoutTime (5, 900000000)) < 1000000000"
  using timeout_well_formed [of 750000000 5] timeout_well_formed [of 900000000 5]
  by (auto simp: Let_def split: prod.splits)

text \<open>
  C37. The last display is undefined: when all copies were added and completed, \<open>getEta\<close> returns the
  speed 0, and the remaining time, 0 divided by 0, is converted to \<open>uint32_t\<close>.
\<close>

theorem last_display_undefined:
  assumes "q_state q = AdditionComplete" "bigCopiesRemaining (etaCalulator q) = 0" "smallCopiesRemaining (etaCalulator q) = 0"
    and "eta_ok lo hi (etaCalulator q)"
  shows "(lo \<le> speed \<and> speed \<le> hi \<longrightarrow>
      eta_text ndebug toCopy copied speed (etaCalulator q) = Inl (UndefinedBehaviour ''uint32_t(floor(eta))'')) \<and>
    (\<exists>a. showProgress ndebug termWidth now p q = Inl a)"
proof -
  have "eta_text ndebug toCopy copied speed (etaCalulator q) = Inl (UndefinedBehaviour ''uint32_t(floor(eta))'')"
    if v: "lo \<le> speed" "speed \<le> hi"
  proof -
    obtain e where e: "updateSpeedEstimate ndebug speed (etaCalulator q) = Inr e" by (rule eta_ok_speed [OF assms(4) v])
    then have "bigCopiesRemaining e = 0" "smallCopiesRemaining e = 0"
      using assms(2,3) by (auto simp: updateSpeedEstimate_def Let_def outcome_simps split: if_splits)
    then show ?thesis using e by (simp add: eta_text_def getEta_def defined_if_def)
  qed
  moreover have "eta_text ndebug toCopy copied speed (etaCalulator q) \<noteq> Inr r" for toCopy copied speed r
    using assms(2,3) by (auto simp: eta_text_def getEta_def updateSpeedEstimate_def Let_def outcome_simps defined_if_def split: if_splits)
  then have "status_line ndebug termWidth now True toCopy copied p (etaCalulator q) \<noteq> Inr r" for toCopy copied r
    by (auto simp: status_line_def outcome_simps Let_def split: prod.splits)
  then have "showProgress ndebug termWidth now p q \<noteq> Inr r" for r
    using assms(1) by (auto simp: showProgress_def Let_def outcome_simps)
  then have "\<exists>a. showProgress ndebug termWidth now p q = Inl a" by (cases "showProgress ndebug termWidth now p q") auto
  ultimately show ?thesis by blast
qed

theorem last_display_undefined_witness:
  "\<exists>a. showProgress False 80 (1000000000, 1000000000, 1000000000) (progress_init 0 0)
     (small_queue\<lparr>q_state := AdditionComplete, totalBytesToCopy := 8, totalBytesCopied := 8\<rparr>) = Inl a"
  using last_display_undefined [of "small_queue\<lparr>q_state := AdditionComplete, totalBytesToCopy := 8, totalBytesCopied := 8\<rparr>" 0 8 8]
    eta_ok_init [of 0 8]
  by (simp add: small_queue_def CopyQueue_init_def ETACalculator_init_def)

end
