(* ===== verification/Wcp_Main.thy ===== *)
theory Wcp_Main
  imports Copy_Walk Copy_Progress
begin

text \<open>
  \<open>src/wcpMain.cpp\<close>: the check of the operating system, the sizes of the ring and of the heap, the
  destination of a copy, and the calls of the queue up to \<open>join\<close>. What the process gets from the
  machine (\<open>uname\<close>, \<open>sysconf\<close>, the working directory, the ring's system calls) is the record
  \<open>machine\<close>.
\<close>

section \<open>Versions\<close>

text \<open>Versions are ordered by their major and then by their minor number.\<close>

datatype version = Version (majorOf: int) (minorOf: int)

instantiation version :: linorder
begin

definition less_eq_version :: "version \<Rightarrow> version \<Rightarrow> bool" where
  "less_eq_version a b \<longleftrightarrow> majorOf a < majorOf b \<or> (majorOf a = majorOf b \<and> minorOf a \<le> minorOf b)"

definition less_version :: "version \<Rightarrow> version \<Rightarrow> bool" where
  "less_version a b \<longleftrightarrow> majorOf a < majorOf b \<or> (majorOf a = majorOf b \<and> minorOf a < minorOf b)"

instance
proof
  fix a b c :: version
  show "a < b \<longleftrightarrow> a \<le> b \<and> \<not> b \<le> a" by (auto simp: less_eq_version_def less_version_def)
  show "a \<le> a" by (simp add: less_eq_version_def)
  show "a \<le> c" if "a \<le> b" "b \<le> c" using that by (auto simp: less_eq_version_def)
  show "a = b" if "a \<le> b" "b \<le> a" using that by (cases a; cases b) (auto simp: less_eq_version_def)
  show "a \<le> b \<or> b \<le> a" by (auto simp: less_eq_version_def)
qed

end

record OsVersion =
  osName :: string
  majorVersion :: int
  minorVersion :: int

text \<open>
  \<open>std::stoi\<close> of a string of digits; its exceptions are not caught and end the process.
\<close>

definition stoi :: "string \<Rightarrow> int outcome" where
  "stoi acc = release_assert ''std::stoi'' (acc \<noteq> [] \<and> int (digits_value acc) \<le> INT_MAX) (Inr (int (digits_value acc)))"

fun version_loop :: "string \<Rightarrow> string \<Rightarrow> OsVersion \<Rightarrow> OsVersion outcome" where
  "version_loop [] acc version = Inr version"
| "version_loop (c # cs) acc version =
     (if is_digit c then version_loop cs (acc @ [c]) version
      else if c = CHR ''.'' then
        (if majorVersion version = -1
         then and_then (stoi acc) (\<lambda>n. version_loop cs [] (version\<lparr>majorVersion := n\<rparr>))
         else and_then (stoi acc) (\<lambda>n. Inr (version\<lparr>minorVersion := n\<rparr>)))
      else Inr version)"

definition getOsVersion :: "string \<Rightarrow> string \<Rightarrow> OsVersion outcome" where
  "getOsVersion sysname release =
     version_loop (c_str release) [] \<lparr>osName = c_str sysname, majorVersion = -1, minorVersion = -1\<rparr>"

definition too_old :: "OsVersion \<Rightarrow> bool" where
  "too_old v \<longleftrightarrow> majorVersion v < 5 \<or> (majorVersion v = 5 \<and> minorVersion v < 6)"

section \<open>Sizes\<close>

definition getPhysicalRamSize :: "int \<Rightarrow> int \<Rightarrow> u64 outcome" where
  "getPhysicalRamSize pages pageSize =
     release_assert ''pages != -1 && pageSize != -1'' (pages \<noteq> -1 \<and> pageSize \<noteq> -1)
       (Inr (word_of_int pages * word_of_int pageSize))"

definition ram_quota :: "u64 \<Rightarrow> u64" where
  "ram_quota physical = (let oneGig = 1024 * 1024 * 1024 in max (physical div 10) oneGig)"

definition BLOCK_SIZE :: u64 where "BLOCK_SIZE = 128 * 1024 * 1024"

definition FILE_DESCRIPTOR_CAP :: u64 where "FILE_DESCRIPTOR_CAP = 900"

section \<open>Paths\<close>

text \<open>The members of \<open>std::filesystem::path\<close> that are used, for POSIX paths.\<close>

definition filename :: "path \<Rightarrow> path" where
  "filename p = rev (takeWhile (\<lambda>c. c \<noteq> CHR ''/'') (rev p))"

definition parent_path :: "path \<Rightarrow> path" where
  "parent_path p =
     (let dir = rev (dropWhile (\<lambda>c. c \<noteq> CHR ''/'') (rev p));
          stripped = rev (dropWhile (\<lambda>c. c = CHR ''/'') (rev dir))
      in if dir \<noteq> [] \<and> stripped = [] then ''/'' else stripped)"

definition is_absolute :: "path \<Rightarrow> bool" where
  "is_absolute p \<longleftrightarrow> p \<noteq> [] \<and> hd p = CHR ''/''"

definition append_path :: "path \<Rightarrow> path \<Rightarrow> path" where
  "append_path p q =
     (if is_absolute q then q else if filename p \<noteq> [] then p @ ''/'' @ q else p @ q)"

definition absolute :: "path \<Rightarrow> path \<Rightarrow> path" where
  "absolute cwd p = (if is_absolute p then p else append_path cwd p)"

definition real_parent :: "path \<Rightarrow> path \<Rightarrow> path" where
  "real_parent cwd dest =
     (let p = absolute cwd dest; p = (if filename p = [] then parent_path p else p) in parent_path p)"

section \<open>wcpMain\<close>

record 'w machine =
  m_sysname :: string
  m_release :: string
  m_pages :: int
  m_page_size :: int
  m_cwd :: path
  m_access :: "path \<Rightarrow> 'w \<Rightarrow> int"
  m_alloc :: "u64 \<Rightarrow> u64 \<Rightarrow> u64"
  m_setup :: "'w sys_setup"
  m_mmap :: "'w sys_mmap"
  m_munmap :: "'w sys_munmap"
  m_close :: "int \<Rightarrow> 'w \<Rightarrow> 'w"
  m_contents :: "ring_map \<Rightarrow> 'w \<Rightarrow> io_uring"
  m_threads :: "int \<times> int"
  m_terminal :: "bool \<times> bool"

text \<open>How the main thread leaves \<open>wcpMain\<close>: with a return value before \<open>join\<close>, or into \<open>join\<close>.\<close>

datatype main_step = MainReturn int | MainJoin OnCompletionAction

text \<open>The part that gives the queue its work. Only directories and regular files are supported.\<close>

definition start_copy ::
  "Config \<Rightarrow> 'w os \<Rightarrow> (path \<Rightarrow> bool \<times> bool) \<Rightarrow> path \<Rightarrow> path \<Rightarrow> statx \<Rightarrow> int \<Rightarrow> statx \<Rightarrow> CopyQueue \<Rightarrow> 'w \<Rightarrow>
     (CopyQueue \<times> 'w) outcome" where
  "start_copy cfg os lost src dest srcStat destStatResult destStat q w =
     (if S_ISDIR (stx_mode srcStat) then
        (let dest = append_path dest (filename src)
         in and_then (recursiveMkdir os dest w) (\<lambda>w.
            release_assert ''S_ISDIR(destStat.stx_mode)'' (destStatResult = 0 \<longrightarrow> S_ISDIR (stx_mode destStat))
              (addRecursiveCopy (NDEBUG cfg) os lost src dest q w)))
      else if S_ISREG (stx_mode srcStat) then
        (let dest = (if destStatResult = 0 \<and> S_ISDIR (stx_mode destStat) then append_path dest (filename src) else dest)
         in addFileCopy (NDEBUG cfg) os (lost src) src dest (Some srcStat) q w)
      else release_assert ''false'' False (Inr (q, w)))"

text \<open>The lines written to the standard error stream come with the result.\<close>

definition wcpMain_copy ::
  "Config \<Rightarrow> 'w os \<Rightarrow> 'w machine \<Rightarrow> (path \<Rightarrow> bool \<times> bool) \<Rightarrow> path \<Rightarrow> path \<Rightarrow> CopyQueue \<Rightarrow> 'w \<Rightarrow>
     (main_step \<times> string list \<times> CopyQueue \<times> 'w) outcome" where
  "wcpMain_copy cfg os m lost src dest q w =
     (case myStatx os AT_FDCWD src 0 STATX_BASIC_STATS zero_statx w of
        (Inl e, _, w) \<Rightarrow> Inr (MainReturn 1, [c_str (humanFriendlyErrorMessage e)], q, w)
      | (Inr _, srcStat, w) \<Rightarrow>
          (case retrySyscall (\<lambda>errno (buf, w). case os_statx os AT_FDCWD (c_str dest) 0 STATX_BASIC_STATS w of (ret, err, buf', w') \<Rightarrow>
                  if ret < 0 then (err, buf, w') else (errno, buf', w')) (zero_statx, w) of
             (destStatResult, destStat, w) \<Rightarrow>
               if destStatResult \<noteq> 0 \<and> destStatResult \<noteq> ENOENT
               then Inr (MainReturn 1, [''Failed to stat '' @ QUOTE @ dest @ QUOTE @ '': '' @ QUOTE @
                      os_strerror os destStatResult @ QUOTE], q, w)
               else release_assert ''access(destRealParent.c_str(), F_OK) == 0'' (m_access m (real_parent (m_cwd m) dest) w = 0)
                 (and_then (start_copy cfg os lost src dest srcStat destStatResult destStat q w) (\<lambda>(q, w).
                    Inr (MainJoin (if NO_CLEANUP cfg then ExitProcessNoCleanup else Return), [], q, w)))))"

text \<open>The heap and the queue, with the sizes that the physical memory gives.\<close>

definition main_queue :: "Config \<Rightarrow> 'w machine \<Rightarrow> 'w \<Rightarrow> (CopyQueue \<times> ring_map \<times> 'w) outcome" where
  "main_queue cfg m w =
     and_then (getPhysicalRamSize (m_pages m) (m_page_size m)) (\<lambda>physical.
       let ramQuota = ram_quota physical; ringSize = ramQuota div BLOCK_SIZE
       in and_then (Heap_ctor (NDEBUG cfg) (m_alloc m) (ramQuota div BLOCK_SIZE) BLOCK_SIZE 4096) (\<lambda>heap.
          CopyQueue_ctor (m_setup m) (m_mmap m) (m_munmap m) (m_close m) (m_contents m) ringSize FILE_DESCRIPTOR_CAP heap w))"

definition wcpMain ::
  "Config \<Rightarrow> 'w os \<Rightarrow> 'w machine \<Rightarrow> (path \<Rightarrow> bool \<times> bool) \<Rightarrow> string list \<Rightarrow> 'w \<Rightarrow>
     (main_step \<times> string list \<times> CopyQueue option \<times> 'w) outcome" where
  "wcpMain cfg os m lost argv w =
     and_then (getOsVersion (m_sysname m) (m_release m)) (\<lambda>osVersion.
       if osName osVersion \<noteq> ''Linux''
       then Inr (MainReturn 1, [''How did you even compile this on '' @ osName osVersion @ ''?''], None, w)
       else if too_old osVersion
       then Inr (MainReturn 1, [''Sorry, wcp requires at least Linux 5.6''], None, w)
       else if length argv \<noteq> 3
       then defined_if ''argv[0]'' (argv \<noteq> [])
         (Inr (MainReturn 1, [''Usage: '' @ hd argv @ '' SRC DEST'', ''Supports copying files and folders.'',
            ''Contributions welcome to add better argument handling, and multiple sources!''], None, w))
       else
         (let src = argv ! 1; dest = argv ! 2
          in release_assert ''!src.empty() && !dest.empty()'' (src \<noteq> [] \<and> dest \<noteq> [])
            (and_then (main_queue cfg m w) (\<lambda>(q, rm, w).
             and_then (start (fst (m_threads m)) (snd (m_threads m)) (fst (m_terminal m)) (snd (m_terminal m)) q) (\<lambda>q.
             and_then (wcpMain_copy cfg os m lost src dest q w) (\<lambda>(step, out, q, w). Inr (step, out, Some q, w)))))))"

text \<open>The return value after \<open>join\<close>.\<close>

definition wcpMain_result :: "bool \<Rightarrow> int" where
  "wcpMain_result success = of_bool (\<not> success)"

section \<open>Correctness\<close>

lemma version_loop_digits:
  "list_all is_digit ds \<Longrightarrow> version_loop (ds @ cs) acc v = version_loop cs (acc @ ds) v"
  by (induction ds arbitrary: acc) simp_all

lemma stoi_to_string: "int n \<le> INT_MAX \<Longrightarrow> stoi (to_string n) = Inr (int n)"
  using to_string_digits [of n] by (simp add: stoi_def to_string_value)

lemma to_string_NUL: "NUL \<notin> set (to_string n)"
  using to_string_digits [of n] by (auto simp: list_all_iff is_digit_def)

text \<open>
  C33. The version of a release of the form major, dot, minor and more is read back as its numbers if a second dot follows the minor
  number; otherwise the minor number stays unset, and the kernels 5.6 and later of series 5 whose release has no
  second dot are refused. A kernel is refused exactly when the version that was read is before 5.6.
\<close>

theorem os_version_parsed:
  assumes "int M \<le> INT_MAX" "int k \<le> INT_MAX" "NUL \<notin> set rest" "rest = [] \<or> \<not> is_digit (hd rest)"
  shows "\<exists>v. getOsVersion sysname (to_string M @ ''.'' @ to_string k @ rest) = Inr v \<and>
    osName v = c_str sysname \<and> majorVersion v = int M \<and>
    minorVersion v = (if rest \<noteq> [] \<and> hd rest = CHR ''.'' then int k else - 1) \<and>
    (too_old v \<longleftrightarrow> Version (majorVersion v) (minorVersion v) < Version 5 6)"
proof -
  have dot: "\<not> is_digit CHR ''.''" by (simp add: is_digit_def)
  have c: "c_str (to_string M @ ''.'' @ to_string k @ rest) = to_string M @ ''.'' @ to_string k @ rest"
    using assms(3) by (intro c_str_id) (simp add: to_string_NUL)
  note d = to_string_digits [THEN conjunct1]
  have first: "version_loop (to_string M @ ''.'' @ to_string k @ rest) [] v =
      version_loop rest (to_string k) (v\<lparr>majorVersion := int M\<rparr>)" if "majorVersion v = - 1" for v
    using that dot version_loop_digits [OF d, of M] version_loop_digits [OF d, of k] stoi_to_string [OF assms(1)] by simp
  have second: "version_loop rest (to_string k) v = Inr (if rest \<noteq> [] \<and> hd rest = CHR ''.'' then v\<lparr>minorVersion := int k\<rparr> else v)"
    if "majorVersion v = int M" for v
    using that dot assms(4) stoi_to_string [OF assms(2)] by (cases rest) auto
  show ?thesis
    unfolding getOsVersion_def c
    by (subst first, simp, subst second, simp) (auto simp: too_old_def less_version_def)
qed

text \<open>Ubuntu's 5.15.0 is accepted, a release 5.15-x is not.\<close>

theorem os_version_parsed_witness:
  "(\<exists>v. getOsVersion ''Linux'' ''5.15.0-91'' = Inr v \<and> minorVersion v = 15 \<and> \<not> too_old v) \<and>
   (\<exists>v. getOsVersion ''Linux'' ''5.15-x'' = Inr v \<and> minorVersion v = - 1 \<and> too_old v)"
proof -
  have n: "to_string 5 = ''5''" "to_string 15 = ''15''" by (simp_all add: to_string.simps char_of_def bit_0)
  show ?thesis
    using os_version_parsed [of 5 15 "''.0-91''" "''Linux''"] os_version_parsed [of 5 15 "''-x''" "''Linux''"]
    by (auto simp: n INT_MAX_def is_digit_def less_version_def)
qed

text \<open>The sizes: at least eight blocks, which fit the quota, as long as the memory is below one exbibyte.\<close>

lemma ram_blocks:
  assumes "unat physical < 2 ^ 60"
  defines "n \<equiv> ram_quota physical div BLOCK_SIZE"
  shows "8 \<le> unat n" "unat n < 2 ^ 30" "unat n * unat BLOCK_SIZE \<le> max (unat physical div 10) (2 ^ 30)"
proof -
  have q: "unat (ram_quota physical) = max (unat physical div 10) (2 ^ 30)"
    by (simp add: ram_quota_def Let_def max_def word_le_nat_alt unat_div)
  have n: "unat n = max (unat physical div 10) (2 ^ 30) div 2 ^ 27"
    by (simp add: n_def unat_div q BLOCK_SIZE_def)
  have b: "unat BLOCK_SIZE = 2 ^ 27" by (simp add: BLOCK_SIZE_def)
  show "8 \<le> unat n" "unat n < 2 ^ 30" using assms(1) unfolding n by simp_all
  show "unat n * unat BLOCK_SIZE \<le> max (unat physical div 10) (2 ^ 30)" unfolding n b by simp
qed

lemma power_two_above: "0 < k \<Longrightarrow> \<exists>n. k \<le> 2 ^ n \<and> 2 ^ n < 2 * (k::nat)"
proof (induction k)
  case (Suc k)
  show ?case
  proof (cases "k = 0")
    case False
    with Suc obtain n where n: "k \<le> 2 ^ n" "2 ^ n < 2 * k" by auto
    show ?thesis
    proof (cases "Suc k \<le> 2 ^ n")
      case True
      with n show ?thesis by (intro exI [of _ n]) simp
    next
      case F: False
      with n have "k = 2 ^ n" by simp
      then show ?thesis by (intro exI [of _ "Suc n"]) simp
    qed
  qed (auto intro: exI [of _ 0])
qed simp

lemma Heap_ctor_Inr:
  assumes "0 < align" "align AND (align - 1) = 0"
  shows "\<exists>h. Heap_ctor nd alloc n bytes align = Inr h"
proof -
  have "getFreeBlocksCount \<lparr>usedList = replicate (unat n) False, data = a, blocks = n, blockSize = bytes, alignment = align\<rparr> = n" for a
  proof -
    have "filter (\<lambda>i. \<not> replicate (unat n) False ! i) [0..<unat n] = [0..<unat n]" by (intro filter_True) simp
    then show ?thesis by (simp add: getFreeBlocksCount_def)
  qed
  then show ?thesis using assms by (simp add: Heap_ctor_def Let_def)
qed

end
