(* ===== verification/Spec2Isabelle.thy ===== *)
theory Spec2Isabelle
  imports Uring_Submit Uring_Setup Uring_Register Copy_Example Wcp_Main
begin

text \<open>
  Verification of \<^verbatim>\<open>wcp\<close>, a file copier for Linux that drives its reads and writes through
  \<^verbatim>\<open>io_uring\<close>, together with the copy of \<^verbatim>\<open>liburing\<close> it is built with.

  \<^bold>\<open>The program.\<close> \<open>wcpMain\<close> (\<open>src/src/wcpMain.cpp\<close>) checks the kernel, sizes a slab of
  128 MiB blocks (\<open>Heap\<close>) and a ring, starts the threads of a \<open>CopyQueue\<close>, and gives it one file or a
  directory tree. \<open>addRecursiveCopy\<close> walks the tree, makes directories, copies links and calls
  \<open>addCopyJob\<close>, which cuts a file into chunks with one \<open>CopyRunner\<close> each; the runners of a file share its two
  \<open>QueueFileDescriptor\<close>s and a counter. The submit thread (\<open>submitLoop\<close>) takes waiting runners, gives them a block,
  lets them queue a linked read and write, enters the kernel and hands completions back to their runners, which go on, end, or
  fail. The progress thread (\<open>showProgressLoop\<close>) prints a status line, a bar and the estimate of \<open>ETACalculator\<close>. \<open>join\<close>
  waits for the submit thread and reports whether an error occurred.

  \<^bold>\<open>The theories.\<close>
  \<^item> \<open>Wcp_Prelude\<close>: machine integers, outcomes of steps that may fail an assertion of \<open>Assert.hpp\<close>, run into
    undefined behaviour or never end; the collections of rewrite rules. \<open>Ring_Index\<close>: slots of a ring with free-running
    32-bit counters.
  \<^item> \<open>Uring_Types\<close>, \<open>Uring_Prep\<close>, \<open>Uring_SQ\<close>, \<open>Uring_CQ\<close>, \<open>Uring_Submit\<close>, \<open>Uring_Register\<close>,
    \<open>Uring_Setup\<close>: \<open>src/liburing/src\<close> (\<open>queue.c\<close>, \<open>setup.c\<close>, \<open>register.c\<close>, \<open>liburing.h\<close>). The ring is a record
    of both queues; \<open>io_uring_enter\<close>, \<open>io_uring_setup\<close>, \<open>io_uring_register\<close>, \<open>mmap\<close>, \<open>munmap\<close> and \<open>close\<close> are arguments
    of the operations that call them. Locales state the ring as a bounded queue for producers and for consumers; they are
    interpreted on the definitions of both rings.
  \<^item> \<open>Slab_Heap\<close> (\<open>Heap.cpp\<close>), with the contract of a block allocator as a locale and the interleaved atomic steps of
    threads; \<open>Eta_Calculator\<close> (\<open>ETACalculator.cpp\<close>); \<open>Sys_Util\<close> (\<open>Util.cpp\<close>, \<open>Util.hpp\<close>,
    \<open>ScopedFileDescriptor.cpp\<close>): every system call is a function of the record \<open>os\<close> over an arbitrary world.
  \<^item> \<open>Copy_State\<close> (the fields of \<open>CopyQueue.hpp\<close>, \<open>CopyRunner.hpp\<close>, \<open>QueueFileDescriptor.hpp\<close>; shared objects are
    entries of stores in the queue, addressed by numbers), \<open>Queue_Fd\<close> (\<open>QueueFileDescriptor.cpp\<close>), \<open>Copy_Runner\<close>
    (\<open>CopyRunner.cpp\<close>), \<open>Copy_Jobs\<close> (\<open>addCopyJob\<close>, \<open>addCopyJobPart\<close>, \<open>addFileCopy\<close>), \<open>Copy_Walk\<close>
    (\<open>addRecursiveCopy\<close>), \<open>Copy_Submit\<close> (constructor, destructor, \<open>submitLoop\<close>, \<open>start\<close>, \<open>join\<close>),
    \<open>Text_Format\<close> and \<open>Copy_Progress\<close> (\<open>showProgressLoop\<close>), all of \<open>src/src/CopyQueue.cpp\<close>; \<open>Wcp_Main\<close>
    (\<open>wcpMain.cpp\<close>).
  \<^item> \<open>Copy_Transfer\<close>: the bytes a runner moves, against a kernel that executes requests with short or failed
    results. \<open>Copy_Effects\<close>: what each operation changes. \<open>Copy_Invariant\<close> and \<open>Copy_System\<close>: the
    main thread, the submit thread and the kernel as one transition system, which counts.
  \<^item> \<open>Copy_Kernel\<close>: the laws of the operating system over files, memory, descriptors and chains of linked
    requests. \<open>Copy_Data\<close>, \<open>Copy_Open\<close>, \<open>Copy_Turns\<close>, \<open>Copy_Files\<close>: the same system with the bytes, where every
    runner satisfies the invariant of \<open>Copy_Transfer\<close> and the others are its environment. \<open>Copy_Example\<close>: a run on a
    concrete disk.

  \<^bold>\<open>What the theorems show.\<close> In a session of the queue that reports no error, every file that
  was added is at its destination, byte for byte, whatever the interleaving and however short the transfers of the
  kernel. This relies on what \<open>may_copy\<close>, \<open>os_data\<close> and \<open>enter_data\<close> state: \<open>statx\<close> tells the
  size of the file and a block size that is a power of two within the heap's blocks, no destination is another path that is
  copied from or to, a path names one file, and no one else changes these files. A runner that reports success has copied its chunk and touched no byte outside of
  it or of its buffer, whatever the kernel reports; in every reachable state of the system the counters are
  exact, each request belongs to a live runner and each block to one owner; when the submit thread ends nothing
  is left over and \<open>join\<close> fails no assertion. The chunks of a file partition it and fit a block; the walk adds exactly
  the regular files of a tree; the queue that \<open>wcpMain\<close> makes satisfies what these theorems ask of their initial state.
  Below that: requests and completions pass the rings completely and in order across the wrap-around of the counters, setup
  is undone by exit and leaks nothing when it fails, blocks in use never overlap under any interleaving,
  descriptors stay within their budget, the wrappers retry and report as they should. Some theorems record what the
  code does where it does not do what it means to: a system call that is interrupted, files that cannot be opened, a lasting
  error of \<open>getdents64\<close>, a narrow terminal, the last display, a release number without a second dot.

  \<^bold>\<open>Conventions and bounds.\<close> A loop that may not end is a partial function into \<open>option\<close>, and an outcome
  \<open>Diverges\<close> where it is called; theorems that the code returns show the value \<open>Inr\<close>. There is no fuel in the model.
  One turn of a loop of the submit thread and one system call are the steps that interleave; the two stores of \<open>join\<close> are one
  step. The transition system lets the main thread add a chunk while fewer than \<open>2 ^ 32\<close> runners are alive
  and addresses are below \<open>2 ^ 62\<close>. A \<open>float\<close> or \<open>double\<close> is a real number. Constants of \<open>Config.hpp\<close> that are
  \<open>false\<close> select their branches; the debug modes that force partial reads and writes are modelled.

  \<^bold>\<open>Not modelled.\<close> The stubs of \<open>syscall.c\<close> and the barriers of \<open>barrier.h\<close>, which have no behaviour of their own at this
  level: steps of threads are atomic; the tests of \<open>wcp\<close> and their third-party header, the tests, examples and
  packaging of \<open>liburing\<close>, scripts and build files, which are not part of the program.
\<close>

section \<open>The files are copied\<close>

text \<open>
  C1. One session of the queue, from its construction to the end of its submit thread: the main thread
  adds files, the submit thread and the kernel run, in any interleaving; files are opened when
  descriptors allow it, and the kernel may complete requests in any order, transfer fewer bytes than
  asked, or fail. If no error was reported when the submit thread has ended, then every file that was added
  is at its destination, byte for byte and of the same length, and its source is what it was.
\<close>

theorem files_copied:
  assumes "os_data view os" "enter_data view enter" "\<not> DEBUG_FORCE_PARTIAL_READS cfg" "\<not> DEBUG_FORCE_PARTIAL_WRITES cfg"
    and "fresh_queue n m q0" "taken (view w0) = []" "data_reach cfg os enter view (system_init q0 w0) J S"
    and "spc S = Returned \<or> (\<exists>c. spc S = Exited c)" "\<not> errored (queue (sub S))" "f \<in> set J"
  shows "files (view (world (sub S))) (cf_dst f) = cf_data f \<and> files (view (world (sub S))) (cf_src f) = cf_data f"
proof -
  have inv: "sys_inv n m (flying view) S" "data_ok view J (mpc S) (sub S)" using data_reach_inv [OF assms(1-7)] by simp_all
  show ?thesis using data_inv_finished [OF data_ok_finished [OF inv assms(8,9)] assms(10)] by simp
qed

text \<open>A file of four bytes is copied over a longer one.\<close>

theorem files_copied_witness:
  "\<exists>S. data_reach (Config_default False) disk_os disk_enter (\<lambda>K. K) (system_init idle_queue disk) [four_file] S \<and>
     spc S = Returned \<and> \<not> errored (queue (sub S)) \<and> files (world (sub S)) ''b'' = text_file ''abcd''"
proof -
  obtain S where S: "reaches [four_file] S" "spc S = Returned" "\<not> errored (queue (sub S))" using four_copy_run by blast
  have "files (world (sub S)) (cf_dst four_file) = cf_data four_file"
    using files_copied [OF disk_laws _ _ idle_laws(3) _ S(1) _ S(3), of four_file] S(2) by (simp add: Config_default_def disk_def)
  then have "files (world (sub S)) ''b'' = text_file ''abcd''" by (simp add: four_file_def new_file_def c_str_def disk_def)
  then show ?thesis using S by blast
qed

section \<open>The queue of the program\<close>

text \<open>
  What the kernel documents for \<open>io_uring_setup\<close>: the number of entries is rounded up to a power of
  two, the completion queue is twice as long, and both queues are empty.
\<close>

definition ring_law :: "'w machine \<Rightarrow> bool" where
  "ring_law m \<longleftrightarrow>
     (\<forall>entries w rm p w' n.
        io_uring_queue_init_params (m_setup m) (m_mmap m) (m_munmap m) (m_close m) entries zero_ring zero_params w = (0, rm, p, w') \<and>
        unat entries \<le> 2 ^ n \<and> 2 ^ n < 2 * unat entries \<longrightarrow>
        p_sq_entries p = 2 ^ n \<and> ring_inv n (n + 1) (m_contents m rm w') \<and>
        sq_queued (ring_sq (m_contents m rm w')) = [] \<and> cq_pending (ring_cq (m_contents m rm w')) = [])"

text \<open>\<open>aligned_alloc\<close> returned aligned memory, which the constructor of \<open>Heap\<close> does not check.\<close>

definition alloc_law :: "'w machine \<Rightarrow> u64 \<Rightarrow> bool" where
  "alloc_law m len \<longleftrightarrow>
     m_alloc m 4096 len \<noteq> 0 \<and> 4096 dvd unat (m_alloc m 4096 len) \<and> unat (m_alloc m 4096 len) + unat len < 2 ^ 64"

definition physical_memory :: "'w machine \<Rightarrow> nat" where
  "physical_memory m = nat (m_pages m * m_page_size m)"

lemma ram_size:
  assumes "0 \<le> m_pages m" "0 \<le> m_page_size m" "physical_memory m < 2 ^ 60"
  shows "\<exists>P. getPhysicalRamSize (m_pages m) (m_page_size m) = Inr P \<and> unat P = physical_memory m"
proof -
  have "word_of_int (m_pages m) * word_of_int (m_page_size m) = (word_of_int (m_pages m * m_page_size m) :: u64)" by simp
  also have "\<dots> = word_of_nat (physical_memory m)" using assms(1,2) by (simp add: physical_memory_def)
  finally show ?thesis using assms by (simp add: getPhysicalRamSize_def unat_of_nat)
qed

lemma ring_law_fresh:
  assumes "ring_law m" "unat k \<le> 2 ^ n" "2 ^ n < 2 * unat k" "unat (k :: u64) < 2 ^ 30" "heap_wf h" "held h = {}"
    and "io_uring_queue_init_params (m_setup m) (m_mmap m) (m_munmap m) (m_close m) (ucast k) zero_ring zero_params w = (0, rm, p, w')"
  shows "fresh_queue n (n + 1) ((CopyQueue_init cap h r 0)\<lparr>ring := m_contents m rm w', ringSize := ucast (p_sq_entries p)\<rparr>)"
proof -
  have e: "unat (ucast k :: u32) = unat k" using assms(4) by (simp add: unsigned_ucast_eq take_bit_nat_eq_self)
  have R: "p_sq_entries p = 2 ^ n" "ring_inv n (n + 1) (m_contents m rm w')"
      "sq_queued (ring_sq (m_contents m rm w')) = []" "cq_pending (ring_cq (m_contents m rm w')) = []"
    using assms(1) [unfolded ring_law_def, rule_format, of "ucast k" w rm p w' n] assms e by simp_all
  have "(2::nat) ^ n < 2 ^ 31" using assms(3,4) by simp
  then have "n < 31" using power_less_imp_less_exp [of "2::nat" n 31] by simp
  then have "ucast (2 ^ n :: u32) = (2 ^ n :: u64)"
    by (simp add: word_unat_eq_iff unsigned_ucast_eq take_bit_nat_eq_self unat_power_two)
  then show ?thesis using R assms(5,6) by (simp add: fresh_queue_def CopyQueue_init_def)
qed

text \<open>
  C7. On a machine with less than an exbibyte of memory, \<open>wcpMain\<close> either stops at the failed ring
  setup or has a queue that meets everything the theorems on the running queue ask of their initial
  state: empty rings with a power of two of entries, a well-formed heap of at least eight blocks of
  128 MiB that no one holds and that stays in the memory quota, no job, and descriptors to spare. The ring has at least as
  many entries as the heap has blocks and fewer than twice as many.
\<close>

theorem main_queue_ready:
  assumes "0 \<le> m_pages m" "0 \<le> m_page_size m" "physical_memory m < 2 ^ 60"
    and "ring_law m" "\<forall>len. unat len \<le> max (physical_memory m div 10) (2 ^ 30) \<longrightarrow> alloc_law m len"
  shows "main_queue cfg m w = Inl (AssertionFailed ''io_uring_queue_init_params(requestedRingSize, &this->ring, &params) == 0'') \<or>
    (\<exists>q rm w' n. main_queue cfg m w = Inr (q, rm, w') \<and> fresh_queue n (n + 1) q \<and>
       8 \<le> unat (blocks (copyBufferHeap q)) \<and> unat (blocks (copyBufferHeap q)) \<le> 2 ^ n \<and>
       2 ^ n < 2 * unat (blocks (copyBufferHeap q)) \<and> blockSize (copyBufferHeap q) = 128 * 1024 * 1024 \<and>
       unat (blocks (copyBufferHeap q)) * (128 * 1024 * 1024) \<le> max (physical_memory m div 10) (1024 * 1024 * 1024) \<and>
       fileDescriptorsUsed q < fileDescriptorCap q)"
proof -
  obtain P where ram: "getPhysicalRamSize (m_pages m) (m_page_size m) = Inr P" and P: "unat P = physical_memory m"
    using ram_size [OF assms(1-3)] by blast
  define k where "k = ram_quota P div BLOCK_SIZE"
  have k: "8 \<le> unat k" "unat k < 2 ^ 30" "unat k * unat BLOCK_SIZE \<le> max (physical_memory m div 10) (2 ^ 30)"
    using ram_blocks [of P] assms(3) by (simp_all add: P k_def)
  have B: "unat BLOCK_SIZE = 2 ^ 27" by (simp add: BLOCK_SIZE_def)
  have kB: "unat (k * BLOCK_SIZE) = unat k * 2 ^ 27" using k(2) by (subst unat_mult_lem [THEN iffD1]) (simp_all add: B)
  have al: "alloc_law m (k * BLOCK_SIZE)" using assms(5) k(3) B kB by simp
  obtain h where h: "Heap_ctor (NDEBUG cfg) (m_alloc m) k BLOCK_SIZE 4096 = Inr h"
    using Heap_ctor_Inr [of 4096 "NDEBUG cfg" "m_alloc m" k BLOCK_SIZE] by auto
  have "4096 dvd unat (BLOCK_SIZE :: u64)" "0 < unat BLOCK_SIZE" by (simp_all add: B)
  then have hw: "heap_wf h" "held h = {}" "blocks h = k" "blockSize h = BLOCK_SIZE"
    using Heap_ctor_wf [OF h] al kB B unfolding alloc_law_def by simp_all
  obtain ret rm p w' where r: "io_uring_queue_init_params (m_setup m) (m_mmap m) (m_munmap m) (m_close m) (ucast k)
      zero_ring zero_params w = (ret, rm, p, w')" by (metis prod_cases4)
  define q where "q = (CopyQueue_init FILE_DESCRIPTOR_CAP h empty_ring 0)\<lparr>ring := m_contents m rm w', ringSize := ucast (p_sq_entries p)\<rparr>"
  have main: "main_queue cfg m w = release_assert ''io_uring_queue_init_params(requestedRingSize, &this->ring, &params) == 0'' (ret = 0)
      (Inr (q, rm, w'))"
    using ram h r by (simp add: main_queue_def Let_def CopyQueue_ctor_def q_def Heap_move_def CopyQueue_init_def
        minimumFileDescriptorCap_def RESERVED_FD_COUNT_def RESERVED_HIGH_PRIORITY_FD_COUNT_def FILE_DESCRIPTOR_CAP_def flip: k_def)
  obtain n where n: "unat k \<le> 2 ^ n" "2 ^ n < 2 * unat k" using power_two_above [of "unat k"] k(1) by auto
  have "fresh_queue n (n + 1) q" if "ret = 0"
    unfolding q_def by (rule ring_law_fresh [OF assms(4) n k(2) hw(1,2) r [unfolded that]])
  then show ?thesis
    using main n hw k
    by (cases "ret = 0")
      (auto simp: q_def CopyQueue_init_def FILE_DESCRIPTOR_CAP_def RESERVED_FD_COUNT_def BLOCK_SIZE_def release_assert_def)
qed

text \<open>A machine with 4 GiB of memory and a kernel that serves one request for a ring of eight entries.\<close>

definition eight_ring :: io_uring where
  "eight_ring =
     \<lparr>ring_sq = \<lparr>sq_khead = 0, sq_ktail = 0, sq_kring_mask = 7, sq_kring_entries = 8, sq_kflags = 0, sq_kdropped = 0,
        sq_array = replicate 8 0, sq_sqes = replicate 8 zero_sqe, sq_sqe_head = 0, sq_sqe_tail = 0, sq_ring_sz = 0, sq_ring_ptr = 0\<rparr>,
      ring_cq = \<lparr>cq_khead = 0, cq_ktail = 0, cq_kring_mask = 15, cq_kring_entries = 16, cq_kflags = None,
        cq_koverflow = 0, cq_cqes = replicate 16 (example_cqe 0 0), cq_ring_sz = 0, cq_ring_ptr = 0\<rparr>,
      ring_flags = 0, ring_fd = 3, ring_features = 0\<rparr>"

definition small_machine :: "unit machine" where
  "small_machine =
     \<lparr>m_sysname = ''Linux'', m_release = ''5.15.0-91'', m_pages = 1024 * 1024, m_page_size = 4096, m_cwd = ''/'',
      m_access = \<lambda>_ _. 0, m_alloc = \<lambda>a n. a,
      m_setup = \<lambda>n p w. (if n = 8 then (3, 0, p\<lparr>p_sq_entries := 8, p_cq_entries := 16\<rparr>, w) else (- 1, EINVAL, p, w)),
      m_mmap = \<lambda>len fd off w. (Inr 4096, w), m_munmap = \<lambda>a len w. w, m_close = \<lambda>fd w. w,
      m_contents = \<lambda>rm w. eight_ring, m_threads = (0, 0), m_terminal = (False, False)\<rparr>"

lemma eight_ring_ready:
  "ring_inv 3 4 eight_ring" "sq_queued (ring_sq eight_ring) = []" "cq_pending (ring_cq eight_ring) = []"
  by (simp_all add: eight_ring_def ring_inv_def sq_inv_def cq_inv_def ring_size_def cq_ring_needs_flush_def
      sq_queued_def cq_pending_def ring_list_def mask_eq_exp_minus_1)

lemma small_machine_laws:
  "ring_law small_machine" "unat len \<le> 2 ^ 30 \<Longrightarrow> alloc_law small_machine len" "physical_memory small_machine = 2 ^ 32"
proof -
  show "ring_law small_machine" unfolding ring_law_def
  proof (intro allI impI, elim conjE)
    fix entries w rm p w' n
    assume r: "io_uring_queue_init_params (m_setup small_machine) (m_mmap small_machine) (m_munmap small_machine)
        (m_close small_machine) entries zero_ring zero_params w = (0, rm, p, w')"
      and n: "unat entries \<le> 2 ^ n" "2 ^ n < 2 * unat entries"
    have e: "entries = 8" "p_sq_entries p = 8"
      using r by (auto simp: io_uring_queue_init_params_def small_machine_def split: if_splits prod.splits)
    with n have "(2::nat) ^ 3 \<le> 2 ^ n" "(2::nat) ^ n < 2 ^ 4" by simp_all
    then have "n = 3" using power_le_imp_le_exp [of "2::nat" 3 n] power_less_imp_less_exp [of "2::nat" n 4] by simp
    then show "p_sq_entries p = 2 ^ n \<and> ring_inv n (n + 1) (m_contents small_machine rm w') \<and>
        sq_queued (ring_sq (m_contents small_machine rm w')) = [] \<and> cq_pending (ring_cq (m_contents small_machine rm w')) = []"
      using e eight_ring_ready by (simp add: small_machine_def)
  qed
  show "unat len \<le> 2 ^ 30 \<Longrightarrow> alloc_law small_machine len" by (simp add: alloc_law_def small_machine_def)
  show "physical_memory small_machine = 2 ^ 32" by (simp add: physical_memory_def small_machine_def)
qed

theorem main_queue_ready_witness:
  "\<exists>q rm n. main_queue (Config_default False) small_machine () = Inr (q, rm, ()) \<and> fresh_queue n (n + 1) q \<and>
     8 \<le> unat (blocks (copyBufferHeap q))"
proof -
  have k: "ram_quota 4294967296 div BLOCK_SIZE = 8"
    by (simp add: ram_quota_def BLOCK_SIZE_def Let_def max_def word_le_nat_alt unat_div)
  have "main_queue (Config_default False) small_machine () \<noteq>
      Inl (AssertionFailed ''io_uring_queue_init_params(requestedRingSize, &this->ring, &params) == 0'')"
  proof
    assume a: "main_queue (Config_default False) small_machine () =
      Inl (AssertionFailed ''io_uring_queue_init_params(requestedRingSize, &this->ring, &params) == 0'')"
    obtain h where "Heap_ctor (NDEBUG (Config_default False)) (m_alloc small_machine) 8 BLOCK_SIZE 4096 = Inr h"
      using Heap_ctor_Inr [of 4096 "NDEBUG (Config_default False)" "m_alloc small_machine" 8 BLOCK_SIZE] by auto
    then show False using a k
      by (simp add: main_queue_def small_machine_def getPhysicalRamSize_def CopyQueue_ctor_def Let_def
          io_uring_queue_init_params_def io_uring_queue_mmap_def io_uring_mmap_def release_assert_def ring_sizes_def
          CopyQueue_init_def split: if_splits prod.splits)
  qed
  then show ?thesis
    using main_queue_ready [of small_machine "Config_default False" "()"] small_machine_laws
    by (auto simp: small_machine_def)
qed

end
